(* ===== verification/Inu_Prelude.thy ===== *)
theory Inu_Prelude
  imports Main "HOL-Library.Word" "HOL-Library.Multiset" "HOL-Library.AList"
begin

text \<open>
  Shared types, conventions and library lemmas of the development.

  \<^item> A Go \<^verbatim>\<open>[]byte\<close> is a list of 8-bit words, a Go \<^verbatim>\<open>string\<close> is a HOL
    \<open>string\<close> (each \<open>char\<close> is one byte), an \<^verbatim>\<open>int\<close> or \<^verbatim>\<open>time.Duration\<close> is an
    \<open>int\<close>, an unsigned integer whose width matters is a word.
  \<^item> A returned Go error is the left side of a sum; a run-time panic (index out of
    range, nil dereference, an explicit \<^verbatim>\<open>panic\<close>) is \<open>None\<close> of an option around the
    result.  So \<open>Some (Inr x)\<close> is a normal return, \<open>Some (Inl e)\<close> a returned error.
  \<^item> The order in which Go ranges over a map is unspecified, so an operation that
    ranges over a map takes the order as an argument: a function that permutes the
    list of entries (\<open>iteration_order\<close> below).
\<close>

type_synonym u8 = "8 word"
type_synonym u16 = "16 word"
type_synonym u64 = "64 word"

datatype error =
    InvalidKeyLength nat      \<comment> \<open>\<^verbatim>\<open>invalid key length: %d\<close>\<close>
  | CorruptInput              \<comment> \<open>\<^verbatim>\<open>base32.CorruptInputError\<close>\<close>
  | PrefixNotIPv4             \<comment> \<open>\<^verbatim>\<open>prefix must be ipv4\<close>\<close>
  | KeyNotFound               \<comment> \<open>\<^verbatim>\<open>key not found\<close>\<close>
  | AllPeersDead              \<comment> \<open>\<^verbatim>\<open>all peers dead\<close>\<close>
  | AllNodesHaveValue         \<comment> \<open>\<^verbatim>\<open>all nodes have the value\<close>\<close>
  | NoCloseNodes              \<comment> \<open>\<^verbatim>\<open>no close nodes\<close>\<close>
  | AllContactsUnreachable    \<comment> \<open>\<^verbatim>\<open>all contacts unreachable\<close>\<close>
  | NodeWithKeyNotFound       \<comment> \<open>\<^verbatim>\<open>could not find node with key\<close>\<close>
  | PeersNotFound             \<comment> \<open>\<^verbatim>\<open>could not find peers who provide key\<close>\<close>
  | RpcFailed                 \<comment> \<open>any error a remote call returns\<close>
  | DataTooLarge              \<comment> \<open>\<^verbatim>\<open>data exceeds max size\<close>\<close>
  | StoreFailed               \<comment> \<open>any error the database returns\<close>
  | BadEncoding               \<comment> \<open>an error of the JSON decoder\<close>
  | InvalidInodeKind          \<comment> \<open>\<^verbatim>\<open>invalid inode kind\<close>\<close>
  | CannotReadDirectory       \<comment> \<open>\<^verbatim>\<open>cannot read directory inode\<close>\<close>
  | InvalidPath               \<comment> \<open>\<^verbatim>\<open>invalid path\<close>\<close>
  | InvalidIP                 \<comment> \<open>\<^verbatim>\<open>invalid ip\<close>\<close>
  | BadCode nat               \<comment> \<open>\<^verbatim>\<open>bad response code: %d\<close>\<close>
  | NoPeers                   \<comment> \<open>\<^verbatim>\<open>no peers have the key\<close>\<close>
  | InvalidBlock              \<comment> \<open>\<^verbatim>\<open>invalid block\<close>\<close>
  | InvalidNumber             \<comment> \<open>an error of \<^verbatim>\<open>strconv\<close>\<close>
  | OsError                   \<comment> \<open>any error of the operating system\<close>

named_theorems model_defs \<open>definitions that proofs about operations unfold\<close>
named_theorems inv_intros \<open>introduction rules for the components' invariants\<close>

lemma unat_u8 [simp]: "unat (a :: u8) < 256"
  using unsigned_less [of a, where 'a = nat] by simp

lemma unat_u8_le [simp]: "unat (a :: u8) \<le> 255"
  using unat_u8 [of a] by linarith

subsection \<open>Texts\<close>

text \<open>\<^verbatim>\<open>strings.Split\<close> at a separator\<close>

fun split_at :: "char \<Rightarrow> string \<Rightarrow> string list" where
  "split_at sep [] = [[]]"
| "split_at sep (c # cs) =
     (if c = sep then [] # split_at sep cs
      else case split_at sep cs of [] \<Rightarrow> [[c]] | p # ps \<Rightarrow> (c # p) # ps)"

lemma split_at_none: "sep \<notin> set s \<Longrightarrow> split_at sep s = [s]"
  by (induction s) auto

lemma split_at_append: "sep \<notin> set s \<Longrightarrow> split_at sep (s @ sep # t) = s # split_at sep t"
  by (induction s) auto

subsection \<open>Map iteration order\<close>

definition iteration_order :: "('a list \<Rightarrow> 'a list) \<Rightarrow> bool" where
  "iteration_order ord \<longleftrightarrow> (\<forall>xs. mset (ord xs) = mset xs)"

lemma iteration_order_mset: "iteration_order ord \<Longrightarrow> mset (ord xs) = mset xs"
  by (simp add: iteration_order_def)

lemma iteration_order_set: "iteration_order ord \<Longrightarrow> set (ord xs) = set xs"
  by (metis iteration_order_mset set_mset_mset)

lemma iteration_order_distinct: "iteration_order ord \<Longrightarrow> distinct (ord xs) = distinct xs"
  by (metis iteration_order_mset mset_eq_imp_distinct_iff)

lemma iteration_order_length: "iteration_order ord \<Longrightarrow> length (ord xs) = length xs"
  by (metis iteration_order_mset size_mset)

lemma iteration_order_id [simp]: "iteration_order (\<lambda>xs. xs)"
  by (simp add: iteration_order_def)

lemma iteration_order_rev [simp]: "iteration_order rev"
  by (simp add: iteration_order_def)

subsection \<open>Inserting into a slice\<close>

text \<open>
  \<^verbatim>\<open>xs = append(xs, d); copy(xs[i+1:], xs[i:]); xs[i] = x\<close>: the idiom with which the
  code inserts into a slice.  \<open>go_copy ys off xs\<close> is \<^verbatim>\<open>copy(ys[off:], xs)\<close>.
\<close>

definition go_copy :: "'a list \<Rightarrow> nat \<Rightarrow> 'a list \<Rightarrow> 'a list" where
  "go_copy ys off xs =
     (let n = min (length ys - off) (length xs)
      in take off ys @ take n xs @ drop (off + n) ys)"

lemma length_go_copy [simp]: "length (go_copy ys off xs) = length ys"
  by (auto simp: go_copy_def Let_def)

lemma go_copy_shift:
  assumes "i \<le> length xs"
  shows "(go_copy (xs @ [d]) (Suc i) (drop i (xs @ [d])))[i := x] = take i xs @ x # drop i xs"
proof -
  have "go_copy (xs @ [d]) (Suc i) (drop i (xs @ [d])) = take (Suc i) (xs @ [d]) @ drop i xs"
    using assms by (simp add: go_copy_def Let_def)
  also have "take (Suc i) (xs @ [d]) = take i xs @ [(xs @ [d]) ! i]"
    using assms by (subst take_Suc_conv_app_nth) auto
  finally show ?thesis
    using assms by (simp only: append_assoc list_update_append) simp
qed

subsection \<open>Codecs\<close>

text \<open>
  The contract between a component that stores or sends encoded values and the encoding:
  decoding an encoded value gives it back.  The clients use that encodings of different
  values differ.
\<close>

locale codec =
  fixes enc :: "'a \<Rightarrow> 'b" and dec :: "'b \<Rightarrow> 'a option"
  assumes dec_enc [simp]: "dec (enc x) = Some x"
begin

lemma enc_inject [simp]: "enc x = enc y \<longleftrightarrow> x = y"
  by (metis dec_enc option.inject)

lemma inj_enc: "inj enc"
  by (rule injI) simp

end

subsection \<open>Runs of step relations\<close>

text \<open>
  The contract of a component that is a step relation: every step keeps an invariant.  Where, beyond
  that, some step always brings the goal nearer, the goal can be reached from everywhere.
\<close>

locale step_invariant =
  fixes step :: "'s \<Rightarrow> 's \<Rightarrow> bool" and inv :: "'s \<Rightarrow> bool"
  assumes step_keeps: "step s s' \<Longrightarrow> inv s \<Longrightarrow> inv s'"
begin

lemma run_keeps: "step\<^sup>*\<^sup>* s s' \<Longrightarrow> inv s \<Longrightarrow> inv s'"
  by (induction rule: rtranclp_induct) (auto intro: step_keeps)

end

locale step_progress = step_invariant step inv
  for step :: "'s \<Rightarrow> 's \<Rightarrow> bool" and inv :: "'s \<Rightarrow> bool" +
  fixes goal :: "'s \<Rightarrow> bool" and remaining :: "'s \<Rightarrow> nat"
  assumes step_nearer: "inv s \<Longrightarrow> \<not> goal s \<Longrightarrow> \<exists>s'. step s s' \<and> remaining s' < remaining s \<and> inv s'"
begin

lemma reaches_goal: "inv s \<Longrightarrow> \<exists>s'. step\<^sup>*\<^sup>* s s' \<and> inv s' \<and> goal s'"
proof (induction "remaining s" arbitrary: s rule: less_induct)
  case less
  show ?case
  proof (cases "goal s")
    case False
    then obtain s1 where "step s s1" "remaining s1 < remaining s" "inv s1"
      using step_nearer [OF less.prems] by blast
    then show ?thesis
      using less.hyps [of s1] by (meson converse_rtranclp_into_rtranclp)
  qed (use less.prems in blast)
qed

end

subsection \<open>Association lists with distinct keys\<close>

lemma map_of_distinct_iff:
  "distinct (map fst xs) \<Longrightarrow> map_of xs k = Some v \<longleftrightarrow> (k, v) \<in> set xs"
  by (rule map_of_eq_Some_iff)

lemma distinct_update: "distinct (map fst xs) \<Longrightarrow> distinct (map fst (AList.update k v xs))"
  by (rule AList.distinct_update)

lemma distinct_delete: "distinct (map fst xs) \<Longrightarrow> distinct (map fst (AList.delete k xs))"
  by (rule AList.distinct_delete)

lemma set_update_distinct:
  "distinct (map fst xs) \<Longrightarrow> set (AList.update k v xs) = insert (k, v) {p \<in> set xs. fst p \<noteq> k}"
  by (induction xs) (auto simp: rev_image_eqI)

lemma set_delete: "set (AList.delete k xs) = {p \<in> set xs. fst p \<noteq> k}"
  by (auto simp: AList.delete_eq)

lemma tagged_filter:
  "{p \<in> (\<lambda>e. (f e, e)) ` A. fst p \<noteq> k} = (\<lambda>e. (f e, e)) ` {e \<in> A. f e \<noteq> k}"
  by fastforce

end
