(* ===== verification/Base32.thy ===== *)
theory Base32
  imports Inu_Prelude
begin

text \<open>
  The base32 codec of the Go standard library, as the program uses it
  (\<^verbatim>\<open>base32.StdEncoding.WithPadding(base32.NoPadding)\<close>, in \<^verbatim>\<open>cid/cid.go\<close> and
  \<^verbatim>\<open>dht/key.go\<close>).  The decoder is the library's loop over quanta of eight characters:
  it drops line breaks first, stops early at the end of the input, takes the byte
  \<^verbatim>\<open>0xFF\<close> (the low byte of \<^verbatim>\<open>NoPadding\<close>) for padding near the end, and ignores the
  bits of a short last quantum that fill no byte.
\<close>

unbundle bit_operations_syntax

definition b32_alphabet :: string where
  "b32_alphabet = ''ABCDEFGHIJKLMNOPQRSTUVWXYZ234567''"

definition b32_char :: "u8 \<Rightarrow> char" where
  "b32_char q = b32_alphabet ! unat q"

definition b32_value :: "char \<Rightarrow> u8 option" where
  "b32_value c =
     (let n = of_char c :: nat
      in if 65 \<le> n \<and> n \<le> 90 then Some (of_nat (n - 65))
         else if 50 \<le> n \<and> n \<le> 55 then Some (of_nat (n - 24))
         else None)"

subsection \<open>Encoding\<close>

text \<open>Five bytes are eight groups of five bits, the first bit the most significant.\<close>

definition quintets :: "u8 \<Rightarrow> u8 \<Rightarrow> u8 \<Rightarrow> u8 \<Rightarrow> u8 \<Rightarrow> u8 list" where
  "quintets a b c d e =
     [drop_bit 3 a,
      (push_bit 2 a OR drop_bit 6 b) AND 31,
      drop_bit 1 b AND 31,
      (push_bit 4 b OR drop_bit 4 c) AND 31,
      (push_bit 1 c OR drop_bit 7 d) AND 31,
      drop_bit 2 d AND 31,
      (push_bit 3 d OR drop_bit 5 e) AND 31,
      e AND 31]"

fun b32_quintets :: "u8 list \<Rightarrow> u8 list" where
  "b32_quintets (a # b # c # d # e # rest) = quintets a b c d e @ b32_quintets rest"
| "b32_quintets [a, b, c, d] = take 7 (quintets a b c d 0)"
| "b32_quintets [a, b, c] = take 5 (quintets a b c 0 0)"
| "b32_quintets [a, b] = take 4 (quintets a b 0 0 0)"
| "b32_quintets [a] = take 2 (quintets a 0 0 0 0)"
| "b32_quintets [] = []"

definition b32_encode :: "u8 list \<Rightarrow> string" where
  "b32_encode bs = map b32_char (b32_quintets bs)"

subsection \<open>Decoding\<close>

definition strip_newlines :: "string \<Rightarrow> string" where
  "strip_newlines s = filter (\<lambda>c. c \<noteq> CHR 0x0D \<and> c \<noteq> CHR 0x0A) s"

text \<open>
  One quantum: reads up to eight characters.  The result is the values read, whether
  the decoder is done, and the rest of the input; \<open>None\<close> is a corrupt input.
\<close>

fun dec_quantum :: "u8 list \<Rightarrow> string \<Rightarrow> (u8 list \<times> bool \<times> string) option" where
  "dec_quantum acc src =
     (if length acc \<ge> 8 then Some (acc, False, src)
      else case src of
        [] \<Rightarrow> Some (acc, True, [])
      | c # src' \<Rightarrow>
          if c = CHR 0xFF \<and> 2 \<le> length acc \<and> length src' < 8 then
            (if length src' + length acc < 7 then None
             else if list_ex (\<lambda>c'. c' \<noteq> CHR 0xFF) (take (7 - length acc) src') then None
             else if length acc = 3 \<or> length acc = 6 then None
             else Some (acc, True, src'))
          else (case b32_value c of
                  None \<Rightarrow> None
                | Some v \<Rightarrow> dec_quantum (acc @ [v]) src'))"

declare dec_quantum.simps [simp del]

text \<open>Packing the values of a quantum into bytes; one, three and six values fill no byte.\<close>

fun pack :: "u8 list \<Rightarrow> u8 list" where
  "pack [q0, q1, q2, q3, q4, q5, q6, q7] =
     pack [q0, q1, q2, q3, q4, q5, q6] @ [push_bit 5 q6 OR q7]"
| "pack [q0, q1, q2, q3, q4, q5, q6] =
     pack [q0, q1, q2, q3, q4] @ [push_bit 7 q4 OR push_bit 2 q5 OR drop_bit 3 q6]"
| "pack [q0, q1, q2, q3, q4] = pack [q0, q1, q2, q3] @ [push_bit 4 q3 OR drop_bit 1 q4]"
| "pack [q0, q1, q2, q3] =
     pack [q0, q1] @ [push_bit 6 q1 OR push_bit 1 q2 OR drop_bit 4 q3]"
| "pack [q0, q1] = [push_bit 3 q0 OR drop_bit 2 q1]"
| "pack _ = []"

lemma dec_quantum_rest:
  "dec_quantum acc src = Some (buf, fin, rest) \<Longrightarrow> length rest \<le> length src"
proof (induction acc src rule: dec_quantum.induct)
  case (1 acc src)
  from "1.prems" show ?case
    by (subst (asm) dec_quantum.simps)
      (auto split: if_splits list.splits option.splits dest: "1.IH")
qed

lemma dec_quantum_progress:
  assumes "dec_quantum [] src = Some (buf, fin, rest)" and "src \<noteq> []"
  shows "length rest < length src"
  using assms
  by (subst (asm) dec_quantum.simps)
    (auto split: if_splits list.splits option.splits dest: dec_quantum_rest)

function dec_loop :: "string \<Rightarrow> u8 list option" where
  "dec_loop src =
     (if src = [] then Some []
      else case dec_quantum [] src of
        None \<Rightarrow> None
      | Some (buf, fin, rest) \<Rightarrow>
          if fin then Some (pack buf) else map_option ((@) (pack buf)) (dec_loop rest))"
  by pat_completeness auto
termination
  by (relation "measure length") (auto dest: dec_quantum_progress)

declare dec_loop.simps [simp del]

definition b32_decode :: "string \<Rightarrow> u8 list option" where
  "b32_decode s = dec_loop (strip_newlines s)"

subsection \<open>Packing inverts grouping\<close>

lemma word_31: "(31 :: u8) = mask 5"
  by (simp add: mask_eq_exp_minus_1)

lemma byte_eqI:
  assumes "bit x 0 = bit y 0" "bit x 1 = bit y 1" "bit x 2 = bit y 2" "bit x 3 = bit y 3"
    "bit x 4 = bit y 4" "bit x 5 = bit y 5" "bit x 6 = bit y 6" "bit x 7 = bit (y :: u8) 7"
  shows "x = y"
proof (rule bit_word_eqI)
  fix n assume "n < LENGTH(8)"
  moreover have "\<forall>n < 8. bit x n = bit y n" using assms by (simp add: eval_nat_numeral All_less_Suc)
  ultimately show "bit x n = bit y n" by simp
qed

lemmas byte_bits = word_31 bit_simps eval_nat_numeral

lemma pack_quintets_1:
  "push_bit 3 (drop_bit 3 a) OR drop_bit 2 ((push_bit 2 a OR drop_bit 6 b) AND 31) = (a :: u8)"
  by (rule byte_eqI) (simp_all add: byte_bits del: push_bit_Suc)

lemma pack_quintets_2:
  "push_bit 6 ((push_bit 2 a OR drop_bit 6 b) AND 31) OR push_bit 1 (drop_bit 1 b AND 31)
     OR drop_bit 4 ((push_bit 4 b OR drop_bit 4 c) AND 31) = (b :: u8)"
  by (rule byte_eqI) (simp_all add: byte_bits del: push_bit_Suc)

lemma pack_quintets_3:
  "push_bit 4 ((push_bit 4 b OR drop_bit 4 c) AND 31)
     OR drop_bit 1 ((push_bit 1 c OR drop_bit 7 d) AND 31) = (c :: u8)"
  by (rule byte_eqI) (simp_all add: byte_bits del: push_bit_Suc)

lemma pack_quintets_4:
  "push_bit 7 ((push_bit 1 c OR drop_bit 7 d) AND 31) OR push_bit 2 (drop_bit 2 d AND 31)
     OR drop_bit 3 ((push_bit 3 d OR drop_bit 5 e) AND 31) = (d :: u8)"
  by (rule byte_eqI) (simp_all add: byte_bits del: push_bit_Suc)

lemma pack_quintets_5:
  "push_bit 5 ((push_bit 3 d OR drop_bit 5 e) AND 31) OR (e AND 31) = (e :: u8)"
  by (rule byte_eqI) (simp_all add: byte_bits del: push_bit_Suc)

lemmas pack_quintets =
  pack_quintets_1 pack_quintets_2 pack_quintets_3 pack_quintets_4 pack_quintets_5

lemma pack_lists:
  "pack [q0, q1, q2, q3, q4, q5, q6, q7] =
     [push_bit 3 q0 OR drop_bit 2 q1,
      push_bit 6 q1 OR push_bit 1 q2 OR drop_bit 4 q3,
      push_bit 4 q3 OR drop_bit 1 q4,
      push_bit 7 q4 OR push_bit 2 q5 OR drop_bit 3 q6,
      push_bit 5 q6 OR q7]"
  "take 7 [q0, q1, q2, q3, q4, q5, q6, q7] = [q0, q1, q2, q3, q4, q5, q6]"
  "take 5 [q0, q1, q2, q3, q4, q5, q6, q7] = [q0, q1, q2, q3, q4]"
  "take 4 [q0, q1, q2, q3, q4, q5, q6, q7] = [q0, q1, q2, q3]"
  "take 2 [q0, q1, q2, q3, q4, q5, q6, q7] = [q0, q1]"
  by simp_all

lemma pack_quintets_all:
  "pack (quintets a b c d e) = [a, b, c, d, e]"
  "pack (take 7 (quintets a b c d e)) = [a, b, c, d]"
  "pack (take 5 (quintets a b c d e)) = [a, b, c]"
  "pack (take 4 (quintets a b c d e)) = [a, b]"
  "pack (take 2 (quintets a b c d e)) = [a]"
  by (simp_all only: quintets_def pack_lists pack.simps append.simps pack_quintets)

subsection \<open>The alphabet\<close>

lemma b32_value_char [simp]: "unat q < 32 \<Longrightarrow> b32_value (b32_char q) = Some q"
proof -
  assume "unat q < 32"
  moreover have "list_all (\<lambda>n. b32_value (b32_char (of_nat n)) = Some (of_nat n)) [0..<32]"
    by (simp add: b32_char_def b32_alphabet_def b32_value_def upt_rec)
  ultimately have "b32_value (b32_char (of_nat (unat q))) = Some (of_nat (unat q))"
    unfolding list_all_iff set_upt by (meson atLeastLessThan_iff le0)
  then show ?thesis by simp
qed

lemma b32_value_None: "b32_value (CHR 0xFF) = None" "b32_value (CHR 0x0A) = None"
  "b32_value (CHR 0x0D) = None"
  by (simp_all add: b32_value_def)

lemma b32_char_neq:
  assumes "unat q < 32"
  shows "b32_char q \<noteq> CHR 0xFF" "b32_char q \<noteq> CHR 0x0A" "b32_char q \<noteq> CHR 0x0D"
  using b32_value_char [OF assms] b32_value_None by auto

lemma b32_value_bound: "b32_value c = Some v \<Longrightarrow> unat v < 32"
  by (auto simp: b32_value_def Let_def unat_of_nat simp del: of_nat_diff split: if_splits)

lemma b32_char_value:
  assumes "b32_value c = Some v"
  shows "b32_char v = c"
proof -
  let ?n = "of_char c :: nat"
  have "list_all (\<lambda>n. b32_char (of_nat (n - 65)) = char_of n) [65..<91]"
    "list_all (\<lambda>n. b32_char (of_nat (n - 24)) = char_of n) [50..<56]"
    by (simp_all add: b32_char_def b32_alphabet_def upt_rec char_of_def bit_Suc_0_iff)
  then have "65 \<le> ?n \<and> ?n \<le> 90 \<Longrightarrow> b32_char (of_nat (?n - 65)) = char_of ?n"
    "50 \<le> ?n \<and> ?n \<le> 55 \<Longrightarrow> b32_char (of_nat (?n - 24)) = char_of ?n"
    unfolding list_all_iff set_upt by auto
  with assms show ?thesis
    by (auto simp: b32_value_def Let_def split: if_splits)
qed

subsection \<open>Decoding what was encoded\<close>

abbreviation quints :: "u8 list \<Rightarrow> bool" where
  "quints qs \<equiv> \<forall>q \<in> set qs. unat q < 32"

lemma dec_quantum_chars:
  assumes "quints qs" and "length acc + length qs \<le> 8"
  shows "dec_quantum acc (map b32_char qs @ rest) = dec_quantum (acc @ qs) rest"
  using assms
proof (induction qs arbitrary: acc)
  case Nil
  then show ?case by simp
next
  case (Cons q qs)
  then have "dec_quantum (acc @ [q]) (map b32_char qs @ rest) = dec_quantum (acc @ q # qs) rest"
    using Cons.IH [of "acc @ [q]"] by simp
  with Cons.prems show ?case
    by (subst dec_quantum.simps) (simp add: b32_char_neq)
qed

lemma dec_quantum_full: "length acc = 8 \<Longrightarrow> dec_quantum acc src = Some (acc, False, src)"
  by (subst dec_quantum.simps) simp

lemma dec_quantum_end: "length acc < 8 \<Longrightarrow> dec_quantum acc [] = Some (acc, True, [])"
  by (subst dec_quantum.simps) simp

function pack_all :: "u8 list \<Rightarrow> u8 list" where
  "pack_all qs = (if qs = [] then [] else pack (take 8 qs) @ pack_all (drop 8 qs))"
  by pat_completeness auto
termination
  by (relation "measure length") auto

declare pack_all.simps [simp del]

lemma pack_all_Nil [simp]: "pack_all [] = []"
  by (subst pack_all.simps) simp

lemma pack_all_append: "length qs = 8 \<Longrightarrow> pack_all (qs @ rest) = pack qs @ pack_all rest"
  by (subst pack_all.simps) auto

lemma pack_all_short: "qs \<noteq> [] \<Longrightarrow> length qs \<le> 8 \<Longrightarrow> pack_all qs = pack qs"
  by (subst pack_all.simps) simp

lemma dec_loop_chars:
  "quints qs \<Longrightarrow> dec_loop (map b32_char qs) = Some (pack_all qs)"
proof (induction qs rule: pack_all.induct)
  case (1 qs)
  show ?case
  proof (cases "length qs < 8")
    case True
    with "1.prems" have "dec_quantum [] (map b32_char qs) = Some (qs, True, [])"
      using dec_quantum_chars [of qs "[]" "[]"] by (simp add: dec_quantum_end)
    with True show ?thesis
      by (subst dec_loop.simps) (auto simp: pack_all_short)
  next
    case False
    let ?h = "take 8 qs" and ?t = "drop 8 qs"
    have "quints ?h" "quints ?t"
      using "1.prems" by (auto dest: in_set_takeD in_set_dropD)
    then have "dec_quantum [] (map b32_char ?h @ map b32_char ?t) = Some (?h, False, map b32_char ?t)"
      using False by (subst dec_quantum_chars) (auto simp: dec_quantum_full)
    moreover have "dec_loop (map b32_char ?t) = Some (pack_all ?t)"
    proof (rule "1.IH")
      show "qs \<noteq> []" using False by auto
    qed (rule \<open>quints ?t\<close>)
    moreover have "map b32_char qs = map b32_char ?h @ map b32_char ?t"
      by (simp flip: map_append)
    ultimately show ?thesis
      using False by (subst dec_loop.simps) (auto simp: pack_all.simps [of qs])
  qed
qed

lemma strip_newlines_chars: "quints qs \<Longrightarrow> strip_newlines (map b32_char qs) = map b32_char qs"
  by (auto simp: strip_newlines_def b32_char_neq intro!: filter_True)

lemma b32_decode_chars: "quints qs \<Longrightarrow> b32_decode (map b32_char qs) = Some (pack_all qs)"
  by (simp add: b32_decode_def strip_newlines_chars dec_loop_chars)

lemma quintets_quints: "quints (quintets a b c d e)"
proof -
  have "unat (x AND 31) < 32" for x :: u8
    using word_and_le1 [of x 31] by (simp add: word_le_nat_alt)
  moreover have "unat (drop_bit 3 a) < 32"
  proof -
    have "unat a div 8 < 32" using unat_u8 [of a] by linarith
    then show ?thesis
      by (subst unat_drop_bit_eq) (simp add: drop_bit_eq_div)
  qed
  ultimately show ?thesis
    by (simp add: quintets_def)
qed

lemma b32_quintets_quints: "quints (b32_quintets bs)"
  by (induction bs rule: b32_quintets.induct)
    (use quintets_quints in \<open>auto dest!: in_set_takeD\<close>)

lemma length_quintets [simp]: "length (quintets a b c d e) = 8"
  by (simp add: quintets_def)

lemma pack_all_quintets: "pack_all (b32_quintets bs) = bs"
proof (induction bs rule: b32_quintets.induct)
  case (1 a b c d e rest)
  then show ?case by (simp add: pack_all_append pack_quintets_all)
next
  case (2 a b c d)
  have "take 7 (quintets a b c d 0) \<noteq> []" by (simp add: quintets_def)
  then show ?case by (simp add: pack_all_short pack_quintets_all)
next
  case (3 a b c)
  have "take 5 (quintets a b c 0 0) \<noteq> []" by (simp add: quintets_def)
  then show ?case by (simp add: pack_all_short pack_quintets_all)
next
  case (4 a b)
  have "take 4 (quintets a b 0 0 0) \<noteq> []" by (simp add: quintets_def)
  then show ?case by (simp add: pack_all_short pack_quintets_all)
next
  case (5 a)
  have "take 2 (quintets a 0 0 0 0) \<noteq> []" by (simp add: quintets_def)
  then show ?case by (simp add: pack_all_short pack_quintets_all)
qed simp

lemma b32_decode_encode: "b32_decode (b32_encode bs) = Some bs"
  by (simp add: b32_encode_def b32_decode_chars b32_quintets_quints pack_all_quintets)

lemma length_b32_encode: "length (b32_encode bs) = (8 * length bs + 4) div 5"
proof -
  have "length (b32_quintets bs) = (8 * length bs + 4) div 5"
    by (induction bs rule: b32_quintets.induct) simp_all
  then show ?thesis by (simp add: b32_encode_def)
qed

interpretation b32: codec b32_encode b32_decode
  by unfold_locales (rule b32_decode_encode)

text \<open>A string over the alphabet decodes; every eight characters give five bytes.\<close>

lemma length_pack_8: "length qs = 8 \<Longrightarrow> length (pack qs) = 5"
  by (auto simp: eval_nat_numeral length_Suc_conv)

lemma length_pack_all:
  "length (pack_all qs) = 5 * (length qs div 8) + length (pack (drop (8 * (length qs div 8)) qs))"
proof (induction qs rule: pack_all.induct)
  case (1 qs)
  show ?case
  proof (cases "length qs < 8")
    case True
    then show ?thesis by (cases "qs = []") (auto simp: pack_all_short)
  next
    case False
    then have "qs \<noteq> []" by auto
    have "length qs div 8 = Suc (length (drop 8 qs) div 8)"
      using False by (simp add: le_div_geq)
    with 1 [OF \<open>qs \<noteq> []\<close>] \<open>qs \<noteq> []\<close> False show ?thesis
      by (simp add: pack_all.simps [of qs] length_pack_8 add.commute)
  qed
qed

lemma b32_decode_alphabet:
  assumes "\<forall>c \<in> set s. b32_value c \<noteq> None"
  shows "\<exists>bs. b32_decode s = Some bs \<and> length bs = 5 * (length s div 8) +
    length (pack (drop (8 * (length s div 8)) (map (the \<circ> b32_value) s)))"
proof -
  let ?qs = "map (the \<circ> b32_value) s"
  have "unat (the (b32_value c)) < 32 \<and> b32_char (the (b32_value c)) = c" if "c \<in> set s" for c
  proof -
    from assms that obtain v where "b32_value c = Some v" by blast
    then show ?thesis by (simp add: b32_value_bound b32_char_value)
  qed
  then have "quints ?qs" and "map b32_char ?qs = s"
    by (auto intro!: map_idI)
  then have "b32_decode s = Some (pack_all ?qs)"
    using b32_decode_chars by metis
  then show ?thesis by (simp add: length_pack_all)
qed

end
