(* ===== verification/Key.thy ===== *)
theory Key
  imports Base32
begin

text \<open>
  The 256-bit keys of the DHT (\<^verbatim>\<open>dht/key.go\<close>): identifiers of nodes and blocks, their
  XOR distance, their order, and their base32 text form.  A key is an array of 32 bytes,
  here a type of its own, \<open>key\<close>, over byte lists of length 32.  The lemmas show the
  metric properties of the distance that Kademlia rests on, that the byte-wise
  comparison is the numeric one, and that text and number forms round-trip.
\<close>

definition key_len :: nat where
  "key_len = 32"

typedef key = "{bs :: u8 list. length bs = key_len}"
  morphisms key_bytes Abs_key
  by (rule exI [of _ "replicate key_len 0"]) simp

setup_lifting type_definition_key

lemma length_key_bytes [simp]: "length (key_bytes k) = 32"
  using key_bytes [of k] by (simp add: key_len_def)

lemma key_eq_iff: "k = v \<longleftrightarrow> key_bytes k = key_bytes v"
  by (simp add: key_bytes_inject)

instantiation key :: equal
begin

definition equal_key :: "key \<Rightarrow> key \<Rightarrow> bool" where
  "equal_key k v \<longleftrightarrow> key_bytes k = key_bytes v"

instance
  by standard (simp add: equal_key_def key_eq_iff)

end

subsection \<open>Numbers as bytes\<close>

text \<open>\<^verbatim>\<open>big.Int.SetBytes\<close> and \<^verbatim>\<open>big.Int.Bytes\<close>: big-endian, the latter without leading zeros.\<close>

definition set_bytes :: "u8 list \<Rightarrow> nat" where
  "set_bytes bs = foldl (\<lambda>n b. 256 * n + unat b) 0 bs"

fun big_bytes :: "nat \<Rightarrow> u8 list" where
  "big_bytes n = (if n = 0 then [] else big_bytes (n div 256) @ [of_nat (n mod 256)])"

declare big_bytes.simps [simp del]

text \<open>\<^verbatim>\<open>binary.BigEndian.PutUint64\<close>\<close>

definition put_uint64 :: "u64 \<Rightarrow> u8 list" where
  "put_uint64 n = map (\<lambda>i. ucast (drop_bit (56 - 8 * i) n)) [0..<8]"

subsection \<open>Keys\<close>

text \<open>The zero value \<^verbatim>\<open>Key{}\<close>\<close>

lift_definition zero_key :: key is "replicate key_len 0"
  by simp

lift_definition parse_uint64 :: "u64 \<Rightarrow> key" is
  "\<lambda>n. let buf = put_uint64 n in go_copy (replicate key_len 0) (key_len - length buf) buf"
  by (simp add: Let_def)

text \<open>
  \<^verbatim>\<open>fromBigInt\<close>: for a number of more than 32 bytes the slice expression
  \<^verbatim>\<open>k[keyLen-len(buf):]\<close> has a negative bound, which panics.
\<close>

lift_definition mk_key :: "u8 list \<Rightarrow> key" is "\<lambda>bs :: u8 list. take key_len (bs @ replicate key_len 0)"
  by simp

definition from_big_int :: "nat \<Rightarrow> key option" where
  "from_big_int n =
     (let buf = big_bytes n
      in if length buf > key_len then None
         else Some (mk_key (go_copy (replicate key_len 0) (key_len - length buf) buf)))"

lift_definition key_xor :: "key \<Rightarrow> key \<Rightarrow> key" is "map2 (XOR)"
  by simp

fun cmp_bytes :: "u8 list \<Rightarrow> u8 list \<Rightarrow> int" where
  "cmp_bytes (a # as) (b # bs) =
     (if a < b then -1 else if a > b then 1 else cmp_bytes as bs)"
| "cmp_bytes _ _ = 0"

definition key_cmp :: "key \<Rightarrow> key \<Rightarrow> int" where
  "key_cmp k v = cmp_bytes (key_bytes k) (key_bytes v)"

definition key_nat :: "key \<Rightarrow> nat" where
  "key_nat k = set_bytes (key_bytes k)"

subsection \<open>Text form\<close>

definition marshal_b32 :: "key \<Rightarrow> string" where
  "marshal_b32 k = b32_encode (key_bytes k)"

text \<open>The receiver keeps its bytes where the decoded value is shorter than the array.\<close>

definition unmarshal_b32 :: "key \<Rightarrow> string \<Rightarrow> error + key" where
  "unmarshal_b32 k s =
     (if length s \<noteq> 52 then Inl (InvalidKeyLength (length s))
      else case b32_decode s of
        None \<Rightarrow> Inl CorruptInput
      | Some b \<Rightarrow> Inr (mk_key (go_copy (key_bytes k) 0 b)))"

definition parse_cid :: "string \<Rightarrow> error + key" where
  "parse_cid cid = unmarshal_b32 zero_key cid"

subsection \<open>Big-endian numbers\<close>

lemma set_bytes_Nil [simp]: "set_bytes [] = 0"
  by (simp add: set_bytes_def)

lemma set_bytes_snoc [simp]: "set_bytes (bs @ [b]) = 256 * set_bytes bs + unat b"
  by (simp add: set_bytes_def)

lemma set_bytes_append: "set_bytes (as @ bs) = set_bytes as * 256 ^ length bs + set_bytes bs"
  by (induction bs rule: rev_induct)
    (simp_all add: algebra_simps flip: append_assoc)

lemma set_bytes_Cons: "set_bytes (a # bs) = unat a * 256 ^ length bs + set_bytes bs"
  using set_bytes_append [of "[a]" bs] by (simp add: set_bytes_def)

lemma set_bytes_bound: "set_bytes bs < 256 ^ length bs"
proof (induction bs rule: rev_induct)
  case (snoc b bs)
  have "256 * set_bytes bs + unat b < 256 * (set_bytes bs + 1)"
    using unat_u8 [of b] by (simp del: unat_u8)
  also have "\<dots> \<le> 256 * 256 ^ length bs"
    using snoc by (intro mult_le_mono2) simp
  finally show ?case by simp
qed simp

lemma set_bytes_zeros [simp]: "set_bytes (replicate n 0 @ bs) = set_bytes bs"
  by (induction n) (simp_all add: set_bytes_Cons)

lemma digit_inject:
  assumes "a < 256" and "b < (256 :: nat)"
  shows "256 * x + a = 256 * y + b \<longleftrightarrow> x = y \<and> a = b"
proof -
  have "(256 * z + c) div 256 = z \<and> (256 * z + c) mod 256 = c" if "c < 256" for z c :: nat
    using that by simp
  with assms show ?thesis by metis
qed

lemma set_bytes_inject:
  "length as = length bs \<Longrightarrow> set_bytes as = set_bytes bs \<longleftrightarrow> as = bs"
proof (induction as arbitrary: bs rule: rev_induct)
  case (snoc a as)
  then obtain b bs' where bs: "bs = bs' @ [b]" by (cases bs rule: rev_exhaust) auto
  have "256 * set_bytes as + unat a = 256 * set_bytes bs' + unat b \<longleftrightarrow>
      set_bytes as = set_bytes bs' \<and> unat a = unat b"
    by (rule digit_inject) simp_all
  with snoc bs show ?case by (simp add: word_unat_eq_iff)
qed simp

lemma set_bytes_big_bytes [simp]: "set_bytes (big_bytes n) = n"
proof (induction n rule: big_bytes.induct)
  case (1 n)
  then show ?case
    by (subst big_bytes.simps) (simp add: unat_of_nat)
qed

lemma length_big_bytes: "length (big_bytes n) \<le> m \<longleftrightarrow> n < 256 ^ m"
proof (induction n arbitrary: m rule: big_bytes.induct)
  case (1 n)
  show ?case
  proof (cases "n = 0")
    case True
    then show ?thesis by (subst big_bytes.simps) simp
  next
    case n: False
    show ?thesis
    proof (cases m)
      case 0
      with n show ?thesis by (subst big_bytes.simps) simp
    next
      case (Suc m')
      have "length (big_bytes n) \<le> m \<longleftrightarrow> length (big_bytes (n div 256)) \<le> m'"
        using n Suc by (subst big_bytes.simps) simp
      also have "\<dots> \<longleftrightarrow> n div 256 < 256 ^ m'"
        using 1 n by simp
      also have "\<dots> \<longleftrightarrow> n < 256 ^ m"
        using Suc by (simp add: div_less_iff_less_mult mult.commute)
      finally show ?thesis .
    qed
  qed
qed

lemma key_bytes_mk_key: "length bs = 32 \<Longrightarrow> key_bytes (mk_key bs) = bs"
  by (simp add: mk_key.rep_eq key_len_def)

lemma mk_key_key_bytes [simp]: "mk_key (key_bytes k) = k"
  by (simp add: key_eq_iff key_bytes_mk_key)

subsection \<open>Keys as numbers below \<open>2 ^ 256\<close>\<close>

lemma key_nat_bound: "key_nat k < 2 ^ 256"
  using set_bytes_bound [of "key_bytes k"] by (simp add: key_nat_def)

lemma key_nat_inject [simp]: "key_nat k = key_nat v \<longleftrightarrow> k = v"
  by (simp add: key_nat_def set_bytes_inject key_eq_iff)

lemma key_nat_zero [simp]: "key_nat zero_key = 0"
  using set_bytes_zeros [of key_len "[]"]
  by (simp add: key_nat_def zero_key.rep_eq del: set_bytes_zeros)

lemma go_copy_tail: "length ys = off + length xs \<Longrightarrow> go_copy ys off xs = take off ys @ xs"
  by (simp add: go_copy_def Let_def)

lemma from_big_int_Some:
  assumes "n < 2 ^ 256"
  shows "\<exists>k. from_big_int n = Some k \<and> key_nat k = n"
proof -
  let ?buf = "big_bytes n"
  have len: "length ?buf \<le> 32"
    using assms by (simp add: length_big_bytes)
  let ?bs = "go_copy (replicate key_len 0) (key_len - length ?buf) ?buf"
  have bs: "?bs = replicate (32 - length ?buf) 0 @ ?buf"
    using len by (simp add: key_len_def go_copy_tail)
  then have "length ?bs = 32" using len by simp
  then have "key_nat (mk_key ?bs) = n"
    by (simp add: key_nat_def key_bytes_mk_key bs)
  then show ?thesis
    using len by (auto simp: from_big_int_def Let_def key_len_def)
qed

lemma from_big_int_None: "from_big_int n = None \<longleftrightarrow> 2 ^ 256 \<le> n"
proof -
  have "from_big_int n = None \<longleftrightarrow> \<not> length (big_bytes n) \<le> 32"
    by (simp add: from_big_int_def Let_def key_len_def)
  also have "\<dots> \<longleftrightarrow> 2 ^ 256 \<le> n"
    by (simp add: length_big_bytes not_less)
  finally show ?thesis .
qed

lemma from_big_int_key_nat [simp]: "from_big_int (key_nat k) = Some k"
  using from_big_int_Some [OF key_nat_bound [of k]] by auto

subsection \<open>Order\<close>

lemma cmp_bytes_nat:
  "length as = length bs \<Longrightarrow>
   cmp_bytes as bs = (if set_bytes as < set_bytes bs then -1
                      else if set_bytes as > set_bytes bs then 1 else 0)"
proof (induction as bs rule: list_induct2)
  case (Cons a as b bs)
  let ?m = "256 ^ length bs :: nat"
  have *: "x * ?m + set_bytes xs < y * ?m + set_bytes ys"
    if "x < y" "length xs = length bs" for x y xs ys
  proof -
    have "x * ?m + set_bytes xs < x * ?m + ?m"
      using set_bytes_bound [of xs] that by simp
    also have "\<dots> \<le> y * ?m" using that
      by (metis Suc_leI add.commute mult_Suc mult_le_mono1)
    finally show ?thesis by simp
  qed
  consider "a < b" | "b < a" | "a = b" by (rule linorder_cases)
  then show ?case
  proof cases
    case 1
    then have "unat a < unat b" by (simp add: word_less_nat_alt)
    with * Cons.hyps 1 show ?thesis by (auto simp: set_bytes_Cons)
  next
    case 2
    then have "unat b < unat a" by (simp add: word_less_nat_alt)
    with * [of "unat b" "unat a" bs as] Cons.hyps 2 show ?thesis by (auto simp: set_bytes_Cons)
  next
    case 3
    with Cons show ?thesis by (simp add: set_bytes_Cons)
  qed
qed simp

lemma key_cmp_nat:
  "key_cmp k v = (if key_nat k < key_nat v then -1 else if key_nat k > key_nat v then 1 else 0)"
  by (simp add: key_cmp_def key_nat_def cmp_bytes_nat)

instantiation key :: linorder
begin

definition less_eq_key :: "key \<Rightarrow> key \<Rightarrow> bool" where
  "k \<le> v \<longleftrightarrow> key_cmp k v \<le> 0"

definition less_key :: "key \<Rightarrow> key \<Rightarrow> bool" where
  "k < v \<longleftrightarrow> key_cmp k v < 0"

instance
  by standard (auto simp: less_eq_key_def less_key_def key_cmp_nat split: if_splits)

end

lemma key_le_nat: "k \<le> v \<longleftrightarrow> key_nat k \<le> key_nat v"
  by (auto simp: less_eq_key_def key_cmp_nat)

lemma key_less_nat: "k < v \<longleftrightarrow> key_nat k < key_nat v"
  by (auto simp: less_key_def key_cmp_nat)

instance key :: finite
proof
  have "finite {bs :: u8 list. set bs \<subseteq> UNIV \<and> length bs = key_len}"
    by (rule finite_lists_length_eq) simp
  then have "finite (Abs_key ` {bs. length bs = key_len})" by simp
  moreover have "(UNIV :: key set) = Abs_key ` {bs. length bs = key_len}"
    by (metis type_definition.Abs_image type_definition_key)
  ultimately show "finite (UNIV :: key set)" by simp
qed


subsection \<open>The XOR distance\<close>

lemma zip_replicate_xor [simp]: "map2 (XOR) bs (replicate (length bs) (0 :: u8)) = bs"
  by (induction bs) simp_all

lemma map2_xor_self [simp]: "map2 (XOR) bs bs = replicate (length bs) (0 :: u8)"
  by (induction bs) simp_all

lemma map2_xor_commute: "map2 (XOR) as bs = map2 (XOR) bs (as :: u8 list)"
  by (induction as bs rule: list_induct2') (simp_all add: xor.commute)

lemma map2_xor_assoc:
  "map2 (XOR) (map2 (XOR) as bs) cs = map2 (XOR) as (map2 (XOR) bs (cs :: u8 list))"
  by (rule nth_equalityI) (auto simp: xor.assoc)

lemma key_xor_commute: "key_xor k v = key_xor v k"
  by transfer (rule map2_xor_commute)

lemma key_xor_assoc: "key_xor (key_xor a b) c = key_xor a (key_xor b c)"
  by transfer (rule map2_xor_assoc)

lemma key_xor_self [simp]: "key_xor k k = zero_key"
  by transfer simp

lemma key_xor_zero [simp]: "key_xor k zero_key = k" "key_xor zero_key k = k"
proof -
  show "key_xor k zero_key = k"
    by transfer (use zip_replicate_xor in metis)
  then show "key_xor zero_key k = k" by (simp add: key_xor_commute)
qed

lemma key_xor_cancel [simp]: "key_xor k (key_xor k v) = v"
  by (simp flip: key_xor_assoc)

lemma key_xor_inject [simp]: "key_xor k a = key_xor k b \<longleftrightarrow> a = b"
  by (metis key_xor_cancel)

lemma key_xor_eq_zero: "key_xor a b = zero_key \<longleftrightarrow> a = b"
  by (metis key_xor_cancel key_xor_self key_xor_zero(1))

lemma unat_xor_le: "unat (a XOR b) \<le> unat a + unat (b :: u8)"
proof -
  have "int (unat a) XOR int (unat b) \<le> int (unat a) OR int (unat b)" for a b :: u8
    by (metis bit.xor_def2 AND_upper1 of_nat_0_le_iff or_nonnegative_int_iff)
  moreover have "int (unat a) OR int (unat b) \<le> int (unat a) + int (unat b)"
    using plus_and_or [of "int (unat a)" "int (unat b)"] by (smt (verit) and_nonnegative_int_iff of_nat_0_le_iff)
  ultimately show ?thesis
    by (smt (verit) of_nat_xor_eq unsigned_xor_eq of_nat_le_iff of_nat_add)
qed

lemma set_bytes_xor_le:
  "length as = length bs \<Longrightarrow> set_bytes (map2 (XOR) as bs) \<le> set_bytes as + set_bytes bs"
proof (induction as bs rule: list_induct2)
  case (Cons a as b bs)
  have "unat (a XOR b) * 256 ^ length bs \<le> (unat a + unat b) * 256 ^ length bs"
    by (intro mult_le_mono1 unat_xor_le)
  with Cons show ?case by (simp add: set_bytes_Cons algebra_simps)
qed simp

lemma key_xor_le: "key_nat (key_xor a b) \<le> key_nat a + key_nat b"
  by (simp add: key_nat_def key_xor.rep_eq set_bytes_xor_le)

lemma key_xor_triangle:
  "key_nat (key_xor a c) \<le> key_nat (key_xor a b) + key_nat (key_xor b c)"
proof -
  have "key_xor a c = key_xor (key_xor a b) (key_xor b c)"
    by (simp add: key_xor_assoc)
  then show ?thesis using key_xor_le by metis
qed

subsection \<open>Keys of 64-bit numbers\<close>

lemma length_put_uint64 [simp]: "length (put_uint64 n) = 8"
  by (simp add: put_uint64_def)

lemma put_uint64_byte:
  "unat (ucast (drop_bit i n) :: u8) = unat (n :: u64) div 2 ^ i mod 256"
  by (simp add: unsigned_ucast_eq take_bit_eq_mod)
    (subst unat_drop_bit_eq, simp add: drop_bit_eq_div)

lemma set_bytes_shifts:
  "set_bytes (map (\<lambda>i. ucast (drop_bit (8 * (m - Suc i)) (n :: u64))) [0..<m]) = unat n mod 256 ^ m"
proof (induction m)
  case (Suc m)
  have *: "map (\<lambda>i. ucast (drop_bit (8 * (Suc m - Suc i)) n) :: u8) [0..<Suc m] =
      ucast (drop_bit (8 * m) n) # map (\<lambda>i. ucast (drop_bit (8 * (m - Suc i)) n)) [0..<m]"
    by (subst upt_conv_Cons, simp) (simp add: map_Suc_upt [symmetric] comp_def del: upt_Suc)
  have "(2 :: nat) ^ (8 * m) = 256 ^ m"
    by (simp add: power_mult)
  then have "unat (ucast (drop_bit (8 * m) n) :: u8) = unat n div 256 ^ m mod 256"
    by (simp only: put_uint64_byte)
  then show ?case
    using mod_mult2_eq [of "unat n" "256 ^ m" 256]
    by (simp only: * set_bytes_Cons Suc.IH) (simp add: mult.commute)
qed simp

lemma set_bytes_put_uint64: "set_bytes (put_uint64 n) = unat n"
proof -
  have "put_uint64 n = map (\<lambda>i. ucast (drop_bit (8 * (8 - Suc i)) n)) [0..<8]"
    by (auto simp: put_uint64_def intro!: arg_cong [where f = "\<lambda>i. drop_bit i n"] arg_cong [where f = ucast])
  moreover have "unat n mod 256 ^ 8 = unat n"
    using unsigned_less [of n, where 'a = nat] by simp
  ultimately show ?thesis by (simp only: set_bytes_shifts)
qed

lemma key_bytes_parse_uint64: "key_bytes (parse_uint64 n) = replicate 24 0 @ put_uint64 n"
  by (simp add: parse_uint64.rep_eq Let_def go_copy_tail key_len_def)

lemma key_nat_parse_uint64 [simp]: "key_nat (parse_uint64 n) = unat n"
  by (simp add: key_nat_def key_bytes_parse_uint64 set_bytes_put_uint64)

lemma parse_uint64_inject [simp]: "parse_uint64 m = parse_uint64 n \<longleftrightarrow> m = n"
  by (metis key_nat_inject key_nat_parse_uint64 word_unat_eq_iff)

lemma parse_uint64_0: "parse_uint64 0 = zero_key"
  by (metis key_nat_inject key_nat_parse_uint64 key_nat_zero unsigned_0)

lemma parse_uint64_eq_zero [simp]:
  "parse_uint64 n = zero_key \<longleftrightarrow> n = 0" "zero_key = parse_uint64 n \<longleftrightarrow> n = 0"
  by (metis parse_uint64_0 parse_uint64_inject)+

lemma key_xor_parse_uint64 [simp]:
  "key_xor (parse_uint64 m) (parse_uint64 n) = parse_uint64 (m XOR n)"
proof -
  have "(ucast (drop_bit i m) :: u8) XOR ucast (drop_bit i n) = ucast (drop_bit i (m XOR n))" for i
    by (rule bit_word_eqI) (auto simp: bit_simps)
  then have "map2 (XOR) (put_uint64 m) (put_uint64 n) = put_uint64 (m XOR n)"
    by (simp add: put_uint64_def zip_map_map zip_same_conv_map)
  then show ?thesis
    by (simp add: key_eq_iff key_xor.rep_eq key_bytes_parse_uint64)
qed

lemma parse_uint64_le [simp]: "parse_uint64 m \<le> parse_uint64 n \<longleftrightarrow> m \<le> n"
  by (simp add: key_le_nat word_le_nat_alt)

lemma parse_uint64_less [simp]: "parse_uint64 m < parse_uint64 n \<longleftrightarrow> m < n"
  by (simp add: key_less_nat word_less_nat_alt)

subsection \<open>Text form\<close>

lemma length_marshal_b32: "length (marshal_b32 k) = 52"
  by (simp add: marshal_b32_def length_b32_encode)

lemma unmarshal_marshal: "unmarshal_b32 v (marshal_b32 k) = Inr k"
  by (simp add: unmarshal_b32_def length_marshal_b32)
    (simp add: marshal_b32_def go_copy_def)

lemma unmarshal_alphabet:
  assumes "length s = 52" and "\<forall>c \<in> set s. b32_value c \<noteq> None"
  shows "\<exists>k. (\<forall>v. unmarshal_b32 v s = Inr k) \<and> b32_decode s = Some (key_bytes k)"
proof -
  let ?qs = "drop 48 (map (the \<circ> b32_value) s)"
  obtain bs where bs: "b32_decode s = Some bs" "length bs = 30 + length (pack ?qs)"
    using b32_decode_alphabet [OF assms(2)] assms(1) by auto
  have "length (pack qs) = 2" if "length qs = 4" for qs
    using that by (auto simp: eval_nat_numeral length_Suc_conv)
  then have "length (pack ?qs) = 2" using assms(1) by simp
  then have "length bs = 32" using bs(2) by simp
  then have "unmarshal_b32 v s = Inr (mk_key bs)" "key_bytes (mk_key bs) = bs" for v
    using bs assms(1) by (simp_all add: unmarshal_b32_def go_copy_def key_bytes_mk_key)
  then show ?thesis using bs by metis
qed

lemma unmarshal_wrong_length: "length s \<noteq> 52 \<Longrightarrow> unmarshal_b32 v s = Inl (InvalidKeyLength (length s))"
  by (simp add: unmarshal_b32_def)

interpretation key_text: codec marshal_b32 "\<lambda>s. case unmarshal_b32 zero_key s of Inl _ \<Rightarrow> None | Inr k \<Rightarrow> Some k"
  by unfold_locales (simp add: unmarshal_marshal)

subsection \<open>Distances order the keys\<close>

text \<open>
  What the routing table and the shortlist need of the distance: seen from one target,
  different keys have different distances, so a list sorted by distance without
  duplicates is determined by its elements.
\<close>

locale distance =
  fixes dist :: "'k \<Rightarrow> 'k \<Rightarrow> 'd :: linorder"
  assumes dist_inject: "dist t a = dist t b \<longleftrightarrow> a = b"
begin

lemma sorted_unique:
  assumes "mset xs = mset ys" and "inj_on f (set xs)"
    and "sorted (map (\<lambda>x. dist t (f x)) xs)" and "sorted (map (\<lambda>x. dist t (f x)) ys)"
  shows "xs = ys"
proof -
  let ?d = "\<lambda>x. dist t (f x)"
  have inj: "inj_on ?d (set xs)"
    using assms(2) by (auto simp: inj_on_def dist_inject)
  have "sort (map ?d xs) = map ?d xs" "sort (map ?d xs) = map ?d ys"
    using assms(1,3,4) by (auto intro!: properties_for_sort)
  then have "map ?d xs = map ?d ys" by simp
  moreover have "set ys = set xs" using mset_eq_setD [OF assms(1)] by simp
  ultimately show ?thesis
    using inj by (auto intro: map_inj_on)
qed

lemma sort_by_distance:
  assumes "mset ys = mset xs" and "inj_on f (set xs)" and "sorted (map (\<lambda>x. dist t (f x)) ys)"
  shows "ys = sort_key (\<lambda>x. dist t (f x)) xs"
proof (rule sorted_unique [where f = f and t = t])
  show "mset ys = mset (sort_key (\<lambda>x. dist t (f x)) xs)" by (simp add: assms(1))
  show "inj_on f (set ys)" using assms(2) mset_eq_setD [OF assms(1)] by simp
qed (use assms(3) in simp_all)

end

interpretation xor_distance: distance key_xor
  by unfold_locales simp

subsection \<open>Properties\<close>

text \<open>
  The text form of a key. It always has 52 characters, parsing it gives the key back
  whatever the receiver held before, and different keys have different text forms.
\<close>

theorem key_text_roundtrip:
  "length (marshal_b32 k) = 52 \<and> unmarshal_b32 v (marshal_b32 k) = Inr k \<and>
   (marshal_b32 k = marshal_b32 k' \<longleftrightarrow> k = k')"
  by (simp add: length_marshal_b32 unmarshal_marshal)

text \<open>
  XOR is the metric Kademlia needs. A key has distance zero from itself only, the
  distance is symmetric and satisfies the triangle inequality as a number, and for each
  target and each distance there is exactly one key (unidirectional).
\<close>

theorem key_xor_metric:
  "(key_xor a b = zero_key \<longleftrightarrow> a = b) \<and> key_xor a b = key_xor b a \<and>
   key_nat (key_xor a c) \<le> key_nat (key_xor a b) + key_nat (key_xor b c) \<and>
   (\<exists>!x. key_xor a x = d)"
proof -
  have "\<exists>!x. key_xor a x = d"
    by (rule ex1I [of _ "key_xor a d"]) (auto simp: key_xor_cancel)
  then show ?thesis
    by (simp add: key_xor_eq_zero key_xor_commute key_xor_triangle)
qed

text \<open>
  The byte-by-byte comparison of keys is the comparison of the 256-bit numbers their
  bytes spell big-endian, and the conversion from such a number inverts it; it panics
  for exactly the numbers that need more than 32 bytes.
\<close>

theorem key_cmp_numeric:
  "key_cmp k v = sgn (int (key_nat k) - int (key_nat v)) \<and> key_nat k < 2 ^ 256 \<and>
   from_big_int (key_nat k) = Some k \<and> (from_big_int n = None \<longleftrightarrow> 2 ^ 256 \<le> n)"
proof -
  have "key_cmp k v = sgn (int (key_nat k) - int (key_nat v))"
    by (simp add: key_cmp_nat sgn_if)
  then show ?thesis
    using key_nat_bound from_big_int_key_nat from_big_int_None by blast
qed

text \<open>
  The length check of \<^verbatim>\<open>UnmarshalB32\<close> does not guarantee a full key. The decoder drops
  line breaks after the check, so a 52-byte text of 51 letters and a line break is
  accepted, and the last two bytes of the receiver are not written.
\<close>

theorem unmarshal_line_break:
  assumes "length s = 51" and "\<forall>c \<in> set s. b32_value c \<noteq> None"
  shows "\<exists>k. unmarshal_b32 v (s @ [CHR 0x0A]) = Inr k \<and> drop 30 (key_bytes k) = drop 30 (key_bytes v)"
proof -
  have "c \<noteq> CHR 0x0D \<and> c \<noteq> CHR 0x0A" if "c \<in> set s" for c
    using assms(2) that b32_value_None by metis
  then have "strip_newlines (s @ [CHR 0x0A]) = strip_newlines s"
    by (simp add: strip_newlines_def)
  then have "b32_decode (s @ [CHR 0x0A]) = b32_decode s"
    by (simp add: b32_decode_def)
  moreover have "length (pack qs) = 0" if "length qs = 3" for qs
    using that by (auto simp: eval_nat_numeral length_Suc_conv)
  ultimately obtain bs where "b32_decode (s @ [CHR 0x0A]) = Some bs" "length bs = 30"
    using b32_decode_alphabet [OF assms(2)] assms(1) by auto
  then show ?thesis
    using assms(1) by (simp add: unmarshal_b32_def go_copy_def key_bytes_mk_key)
qed

theorem unmarshal_line_break_witness:
  "\<exists>k. unmarshal_b32 (parse_uint64 7) (replicate 51 CHR ''A'' @ [CHR 0x0A]) = Inr k \<and>
     drop 30 (key_bytes k) = [0, 7]"
proof -
  have "b32_value CHR ''A'' \<noteq> None" by (simp add: b32_value_def)
  then have "\<forall>c \<in> set (replicate 51 CHR ''A''). b32_value c \<noteq> None" by simp
  from unmarshal_line_break [OF _ this, of "parse_uint64 7"] show ?thesis
    by (simp add: key_bytes_parse_uint64 put_uint64_def upt_rec)
qed

end
