(* ===== verification/Asn.thy ===== *)
theory Asn
  imports Inu_Prelude
begin

text \<open>
  The map from IPv4 prefixes to autonomous systems (\<^verbatim>\<open>dht/asn.go\<close>): a binary trie over
  the bits of a prefix, with a number at each node, zero where no prefix ends.  The
  lemmas show that the trie is a map from bit strings to numbers, that a match is the
  longest matching prefix, and where the walk of a match leaves the four bytes of the
  address.
\<close>

unbundle bit_operations_syntax

subsection \<open>Addresses and prefixes of \<^verbatim>\<open>net/netip\<close>\<close>

text \<open>The zero address, an IPv4 address, an IPv6 address (16 bytes) with its zone.\<close>

datatype addr = AddrNone | Addr4 u8 u8 u8 u8 | Addr6 "u8 list" string

fun is4 :: "addr \<Rightarrow> bool" where
  "is4 (Addr4 _ _ _ _) = True"
| "is4 _ = False"

text \<open>\<^verbatim>\<open>As4\<close> also takes the IPv4-mapped IPv6 addresses and panics on any other address.\<close>

fun as4 :: "addr \<Rightarrow> u8 list option" where
  "as4 AddrNone = None"
| "as4 (Addr4 a b c d) = Some [a, b, c, d]"
| "as4 (Addr6 bs zone) =
     (if take 12 bs = replicate 10 0 @ [255, 255] \<and> length bs = 16 then Some (drop 12 bs) else None)"

record prefix =
  prefix_addr :: addr
  prefix_bits :: int

subsection \<open>The trie\<close>

datatype trie_node = TrieNode (child0: "trie_node option") (child1: "trie_node option") (node_asn: int)

definition new_trie :: trie_node where
  "new_trie = TrieNode None None 0"

definition child :: "trie_node \<Rightarrow> u8 \<Rightarrow> trie_node option" where
  "child t b = (if b = 0 then child0 t else child1 t)"

definition set_child :: "trie_node \<Rightarrow> u8 \<Rightarrow> trie_node \<Rightarrow> trie_node" where
  "set_child t b x =
     (if b = 0 then TrieNode (Some x) (child1 t) (node_asn t)
      else TrieNode (child0 t) (Some x) (node_asn t))"

text \<open>\<^verbatim>\<open>bitAt\<close>: reading past the four bytes panics.\<close>

definition bit_at :: "u8 list \<Rightarrow> nat \<Rightarrow> u8 option" where
  "bit_at buf i =
     (if i div 8 < length buf then Some (drop_bit (7 - i mod 8) (buf ! (i div 8)) AND 1) else None)"

text \<open>
  \<^verbatim>\<open>Insert\<close>: the loop from bit \<open>i\<close> with \<open>n\<close> bits to go, at the node reached so far.
\<close>

fun insert_walk :: "u8 list \<Rightarrow> int \<Rightarrow> nat \<Rightarrow> nat \<Rightarrow> trie_node \<Rightarrow> trie_node option" where
  "insert_walk buf asn i 0 x = Some (TrieNode (child0 x) (child1 x) asn)"
| "insert_walk buf asn i (Suc n) x =
     (case bit_at buf i of
        None \<Rightarrow> None
      | Some b \<Rightarrow>
          let y = (case child x b of None \<Rightarrow> new_trie | Some y \<Rightarrow> y)
          in map_option (set_child x b) (insert_walk buf asn (Suc i) n y))"

definition trie_insert :: "trie_node \<Rightarrow> prefix \<Rightarrow> int \<Rightarrow> (error + trie_node) option" where
  "trie_insert t p asn =
     (if \<not> is4 (prefix_addr p) then Some (Inl PrefixNotIPv4)
      else case as4 (prefix_addr p) of
        None \<Rightarrow> None
      | Some buf \<Rightarrow> map_option Inr (insert_walk buf asn 0 (nat (prefix_bits p)) t))"

fun find_walk :: "u8 list \<Rightarrow> nat \<Rightarrow> nat \<Rightarrow> trie_node \<Rightarrow> (int \<times> bool) option" where
  "find_walk buf i 0 x = Some (node_asn x, True)"
| "find_walk buf i (Suc n) x =
     (case bit_at buf i of
        None \<Rightarrow> None
      | Some b \<Rightarrow>
          (case child x b of None \<Rightarrow> Some (0, False) | Some y \<Rightarrow> find_walk buf (Suc i) n y))"

definition trie_find :: "trie_node \<Rightarrow> prefix \<Rightarrow> (int \<times> bool) option" where
  "trie_find t p =
     (case as4 (prefix_addr p) of
        None \<Rightarrow> None
      | Some buf \<Rightarrow> find_walk buf 0 (nat (prefix_bits p)) t)"

text \<open>\<^verbatim>\<open>Match\<close>: the bit is read before the child is looked at.\<close>

function match_walk :: "u8 list \<Rightarrow> nat \<Rightarrow> trie_node \<Rightarrow> int \<times> bool \<Rightarrow> (int \<times> bool) option" where
  "match_walk buf i x res =
     (let res' = (if node_asn x \<noteq> 0 then (node_asn x, True) else res)
      in case bit_at buf i of
           None \<Rightarrow> None
         | Some b \<Rightarrow>
             (case child x b of None \<Rightarrow> Some res' | Some y \<Rightarrow> match_walk buf (Suc i) y res'))"
  by pat_completeness auto
termination
proof (relation "measure (\<lambda>(buf, i, x, res). 8 * length buf - i)", goal_cases)
  case 1
  show ?case by simp
next
  case 2
  then show ?case by (auto simp: bit_at_def split: if_splits)
qed

declare match_walk.simps [simp del]

definition trie_match :: "trie_node \<Rightarrow> addr \<Rightarrow> (int \<times> bool) option" where
  "trie_match t a =
     (case as4 a of None \<Rightarrow> None | Some buf \<Rightarrow> match_walk buf 0 t (0, False))"

text \<open>
  \<^verbatim>\<open>Node.UpdateASN\<close> in the loop of \<^verbatim>\<open>parseNode\<close> (\<^verbatim>\<open>cmd/inu/dht.go\<close>): the first error
  ends it.
\<close>

fun load_asns :: "trie_node \<Rightarrow> (prefix \<times> int) list \<Rightarrow> (error + trie_node) option" where
  "load_asns t [] = Some (Inr t)"
| "load_asns t ((p, asn) # es) =
     (case trie_insert t p asn of
        None \<Rightarrow> None
      | Some (Inl e) \<Rightarrow> Some (Inl e)
      | Some (Inr t') \<Rightarrow> load_asns t' es)"

subsection \<open>The trie as a map from bit strings\<close>

text \<open>A path is a list of bits; a node that does not exist counts as zero.\<close>

fun asn_at :: "trie_node \<Rightarrow> bool list \<Rightarrow> int option" where
  "asn_at t [] = Some (node_asn t)"
| "asn_at t (b # bs) =
     (case (if b then child1 t else child0 t) of None \<Rightarrow> None | Some y \<Rightarrow> asn_at y bs)"

definition asn_val :: "trie_node \<Rightarrow> bool list \<Rightarrow> int" where
  "asn_val t bs = (case asn_at t bs of None \<Rightarrow> 0 | Some a \<Rightarrow> a)"

definition bit_path :: "u8 list \<Rightarrow> bool list" where
  "bit_path buf = map (\<lambda>i. bit (buf ! (i div 8)) (7 - i mod 8)) [0..<8 * length buf]"

lemma length_bit_path [simp]: "length (bit_path buf) = 8 * length buf"
  by (simp add: bit_path_def)

lemma and_1_neq_0: "drop_bit k (w :: u8) AND 1 \<noteq> 0 \<longleftrightarrow> bit w k"
  by (simp add: and_one_eq bit_iff_odd_drop_bit odd_iff_mod_2_eq_one)

lemma bit_at_cases:
  obtains (past) "8 * length buf \<le> i" "bit_at buf i = None"
  | (bit) b where "i < 8 * length buf" "bit_at buf i = Some b" "b \<noteq> 0 \<longleftrightarrow> bit_path buf ! i"
    "drop i (bit_path buf) = (b \<noteq> 0) # drop (Suc i) (bit_path buf)"
proof (cases "i < 8 * length buf")
  case True
  let ?b = "drop_bit (7 - i mod 8) (buf ! (i div 8)) AND 1"
  have "i div 8 < length buf" using True by auto
  then have "bit_at buf i = Some ?b" by (simp add: bit_at_def)
  moreover have "?b \<noteq> 0 \<longleftrightarrow> bit_path buf ! i"
    using True by (simp only: and_1_neq_0) (simp add: bit_path_def)
  moreover have "drop i (bit_path buf) = bit_path buf ! i # drop (Suc i) (bit_path buf)"
    using True by (simp add: Cons_nth_drop_Suc)
  ultimately show ?thesis using True bit by auto
next
  case False
  then show ?thesis using past by (auto simp: bit_at_def)
qed

lemma child_bool: "child t b = (if b \<noteq> 0 then child1 t else child0 t)"
  by (simp add: child_def)

lemma new_trie_sel [simp]:
  "child0 new_trie = None" "child1 new_trie = None" "node_asn new_trie = 0"
  by (simp_all add: new_trie_def)

lemma asn_val_new [simp]: "asn_val new_trie bs = 0"
  by (cases bs) (simp_all add: asn_val_def)

lemma asn_val_Nil [simp]: "asn_val t [] = node_asn t"
  by (simp add: asn_val_def)

lemma asn_val_Cons:
  "asn_val t (b # bs) = (case (if b then child1 t else child0 t) of None \<Rightarrow> 0 | Some y \<Rightarrow> asn_val y bs)"
  by (simp add: asn_val_def split: option.split)

lemma node_asn_set_child [simp]: "node_asn (set_child t w y) = node_asn t"
  by (simp add: set_child_def)

lemma ex_take_Cons:
  "(\<exists>m \<le> Suc n. c # cs = take m (d # ds)) \<longleftrightarrow> c = d \<and> (\<exists>m \<le> n. cs = take m ds)"
proof
  assume "\<exists>m \<le> Suc n. c # cs = take m (d # ds)"
  then obtain m where "m \<le> Suc n" "c # cs = take m (d # ds)" by blast
  then show "c = d \<and> (\<exists>m \<le> n. cs = take m ds)" by (cases m) auto
next
  assume "c = d \<and> (\<exists>m \<le> n. cs = take m ds)"
  then obtain m where "c = d" "m \<le> n" "cs = take m ds" by blast
  then show "\<exists>m \<le> Suc n. c # cs = take m (d # ds)" by (intro exI [of _ "Suc m"]) simp
qed

lemma asn_val_set_child:
  "asn_val (set_child t w y) bs =
     (case bs of [] \<Rightarrow> node_asn t
      | b # bs' \<Rightarrow> if b = (w \<noteq> 0) then asn_val y bs' else asn_val t bs)"
  by (cases bs) (auto simp: set_child_def asn_val_Cons)

lemma asn_at_set_child:
  "asn_at (set_child t w y) (b # bs) = (if b = (w \<noteq> 0) then asn_at y bs else asn_at t (b # bs))"
  by (auto simp: set_child_def)

lemma insert_walk_val:
  "i + n \<le> 8 * length buf \<Longrightarrow>
   \<exists>x'. insert_walk buf asn i n x = Some x' \<and>
        asn_val x' = (asn_val x)(take n (drop i (bit_path buf)) := asn)"
proof (induction n arbitrary: i x)
  case 0
  have "asn_val (TrieNode (child0 x) (child1 x) asn) bs = ((asn_val x)([] := asn)) bs" for bs
    by (cases bs) (simp_all add: asn_val_Cons)
  then show ?case by auto
next
  case (Suc n)
  obtain b where b: "bit_at buf i = Some b"
    "drop i (bit_path buf) = (b \<noteq> 0) # drop (Suc i) (bit_path buf)"
    by (rule bit_at_cases [where buf = buf and i = i]) (use Suc.prems in auto)
  define y where "y = (case child x b of None \<Rightarrow> new_trie | Some y \<Rightarrow> y)"
  let ?p = "take n (drop (Suc i) (bit_path buf))"
  have "Suc i + n \<le> 8 * length buf" using Suc.prems by simp
  from Suc.IH [OF this, of y]
  obtain y' where y': "insert_walk buf asn (Suc i) n y = Some y'" "asn_val y' = (asn_val y)(?p := asn)"
    by blast
  have yv: "asn_val y bs = asn_val x ((b \<noteq> 0) # bs)" for bs
    by (simp add: y_def child_bool asn_val_Cons split: option.split)
  have "asn_val (set_child x b y') bs = ((asn_val x)((b \<noteq> 0) # ?p := asn)) bs" for bs
    by (cases bs) (auto simp: asn_val_set_child y'(2) yv)
  then show ?case
    using b y'(1) by (auto simp flip: y_def)
qed

lemma insert_walk_past: "8 * length buf < i + n \<Longrightarrow> i \<le> 8 * length buf \<Longrightarrow> insert_walk buf asn i n x = None"
proof (induction n arbitrary: i x)
  case (Suc n)
  show ?case
    by (rule bit_at_cases [where buf = buf and i = i]) (use Suc in \<open>auto simp: Let_def\<close>)
qed simp

text \<open>Which nodes exist: an insertion adds the nodes along its path.\<close>

lemma insert_walk_at:
  "insert_walk buf asn i n x = Some x' \<Longrightarrow>
   asn_at x' bs \<noteq> None \<longleftrightarrow> asn_at x bs \<noteq> None \<or> (\<exists>m \<le> n. bs = take m (drop i (bit_path buf)))"
proof (induction n arbitrary: i x x' bs)
  case 0
  then show ?case by (cases bs) auto
next
  case (Suc n)
  obtain b where b: "bit_at buf i = Some b"
    "drop i (bit_path buf) = (b \<noteq> 0) # drop (Suc i) (bit_path buf)"
    by (rule bit_at_cases [where buf = buf and i = i]) (use Suc.prems in auto)
  define y where "y = (case child x b of None \<Rightarrow> new_trie | Some y \<Rightarrow> y)"
  from Suc.prems b obtain y' where y': "insert_walk buf asn (Suc i) n y = Some y'" "x' = set_child x b y'"
    by (auto simp flip: y_def)
  show ?case
  proof (cases bs)
    case Nil
    then show ?thesis by auto
  next
    case (Cons c cs)
    define P where "P \<longleftrightarrow> (\<exists>m \<le> n. cs = take m (drop (Suc i) (bit_path buf)))"
    have new: "asn_at y cs \<noteq> None \<longleftrightarrow> asn_at x ((b \<noteq> 0) # cs) \<noteq> None \<or> cs = []"
      by (cases cs) (auto simp: y_def child_bool split: option.split)
    have on_path: "(\<exists>m \<le> Suc n. bs = take m (drop i (bit_path buf))) \<longleftrightarrow> c = (b \<noteq> 0) \<and> P"
      by (simp only: Cons b(2) ex_take_Cons P_def)
    have rec: "asn_at y' cs \<noteq> None \<longleftrightarrow> asn_at y cs \<noteq> None \<or> P"
      unfolding P_def by (rule Suc.IH [OF y'(1)])
    have P: "(cs = [] \<or> P) = P" by (auto simp: P_def)
    have step: "asn_at x' (c # cs) = (if c = (b \<noteq> 0) then asn_at y' cs else asn_at x (c # cs))"
      by (simp only: y'(2) asn_at_set_child)
    show ?thesis
    proof (cases "c = (b \<noteq> 0)")
      case True
      then have "asn_at x' bs = asn_at y' cs" "asn_at x bs = asn_at x ((b \<noteq> 0) # cs)"
        using step Cons by simp_all
      then show ?thesis by (simp only: on_path True rec new P disj_assoc simp_thms)
    next
      case False
      then show ?thesis using step on_path by (simp only: Cons if_False) blast
    qed
  qed
qed

subsection \<open>The longest match\<close>

text \<open>
  \<open>longest m bs res\<close>: the value of \<open>m\<close> at the longest prefix of \<open>bs\<close> where it is not
  zero, or \<open>res\<close>.
\<close>

fun longest :: "(bool list \<Rightarrow> int) \<Rightarrow> bool list \<Rightarrow> int \<times> bool \<Rightarrow> int \<times> bool" where
  "longest m [] res = (if m [] \<noteq> 0 then (m [], True) else res)"
| "longest m (b # bs) res =
     longest (\<lambda>q. m (b # q)) bs (if m [] \<noteq> 0 then (m [], True) else res)"

lemma longest_zero [simp]: "longest (\<lambda>_. 0) bs res = res"
  by (induction bs arbitrary: res) simp_all

lemma longest_cases:
  obtains (found) n where "n \<le> length bs" "m (take n bs) \<noteq> 0"
    "\<And>k. n < k \<Longrightarrow> k \<le> length bs \<Longrightarrow> m (take k bs) = 0" "longest m bs res = (m (take n bs), True)"
  | (none) "\<And>n. n \<le> length bs \<Longrightarrow> m (take n bs) = 0" "longest m bs res = res"
proof (induction bs arbitrary: m res thesis)
  case Nil
  then show ?case by (cases "m [] = 0") auto
next
  case (Cons b bs)
  let ?m = "\<lambda>q. m (b # q)" and ?res = "if m [] \<noteq> 0 then (m [], True) else res"
  show ?case
  proof (rule Cons.IH [of ?m ?res])
    fix n
    assume n: "n \<le> length bs" "?m (take n bs) \<noteq> 0"
      "\<And>k. n < k \<Longrightarrow> k \<le> length bs \<Longrightarrow> ?m (take k bs) = 0"
      "longest ?m bs ?res = (?m (take n bs), True)"
    have "m (take k (b # bs)) = 0" if "Suc n < k" "k \<le> length (b # bs)" for k
      using that n(3) [of "k - 1"] by (cases k) auto
    then show thesis
      using n by (intro Cons.prems(1) [of "Suc n"]) auto
  next
    assume z: "\<And>n. n \<le> length bs \<Longrightarrow> ?m (take n bs) = 0" "longest ?m bs ?res = ?res"
    have tail: "m (take k (b # bs)) = 0" if "0 < k" "k \<le> length (b # bs)" for k
      using that z(1) [of "k - 1"] by (cases k) auto
    show thesis
    proof (cases "m [] = 0")
      case True
      have "m (take k (b # bs)) = 0" if "k \<le> length (b # bs)" for k
        using that tail [of k] True by (cases "k = 0") auto
      with z(2) True show thesis by (intro Cons.prems(2)) auto
    next
      case False
      with z(2) tail show thesis by (intro Cons.prems(1) [of 0]) auto
    qed
  qed
qed

lemma longest_cong:
  "(\<And>n. n \<le> length bs \<Longrightarrow> m (take n bs) = m' (take n bs)) \<Longrightarrow> longest m bs res = longest m' bs res"
proof (induction bs arbitrary: m m' res)
  case Nil
  from Nil [of 0] show ?case by simp
next
  case (Cons b bs)
  have "m [] = m' []" using Cons.prems [of 0] by simp
  moreover have "m (b # take n bs) = m' (b # take n bs)" if "n \<le> length bs" for n
    using Cons.prems [of "Suc n"] that by simp
  ultimately show ?case
    using Cons.IH [of "\<lambda>q. m (b # q)" "\<lambda>q. m' (b # q)"] by simp
qed

lemma match_walk_longest:
  assumes "i \<le> 8 * length buf"
  shows "match_walk buf i x res =
    (if asn_at x (drop i (bit_path buf)) \<noteq> None then None
     else Some (longest (asn_val x) (drop i (bit_path buf)) res))"
  using assms
proof (induction "8 * length buf - i" arbitrary: i x res)
  case 0
  then show ?case
    by (subst match_walk.simps, rule_tac bit_at_cases [where buf = buf and i = i]) auto
next
  case (Suc d)
  obtain b where b: "bit_at buf i = Some b"
    "drop i (bit_path buf) = (b \<noteq> 0) # drop (Suc i) (bit_path buf)"
    by (rule bit_at_cases [where buf = buf and i = i]) (use Suc in auto)
  let ?res = "if node_asn x \<noteq> 0 then (node_asn x, True) else res"
  show ?case
  proof (cases "child x b")
    case None
    then have "asn_val x ((b \<noteq> 0) # q) = 0" for q
      by (simp add: child_bool asn_val_Cons)
    then show ?thesis
      using None b by (subst match_walk.simps) (simp add: child_bool Let_def)
  next
    case (Some y)
    then have "asn_val x ((b \<noteq> 0) # q) = asn_val y q" for q
      by (simp add: child_bool asn_val_Cons)
    moreover have "asn_at x ((b \<noteq> 0) # q) = asn_at y q" for q
      using Some by (simp add: child_bool)
    moreover have "match_walk buf (Suc i) y ?res =
        (if asn_at y (drop (Suc i) (bit_path buf)) \<noteq> None then None
         else Some (longest (asn_val y) (drop (Suc i) (bit_path buf)) ?res))"
      by (rule Suc.hyps(1)) (use Suc.hyps(2) in auto)
    ultimately show ?thesis
      using Some b by (subst match_walk.simps) (simp add: Let_def)
  qed
qed

subsection \<open>Tables of prefixes\<close>

fun addr_path :: "addr \<Rightarrow> bool list" where
  "addr_path a = (case as4 a of None \<Rightarrow> [] | Some buf \<Rightarrow> bit_path buf)"

definition prefix_path :: "prefix \<Rightarrow> bool list" where
  "prefix_path p = take (nat (prefix_bits p)) (addr_path (prefix_addr p))"

lemma trie_insert_val:
  assumes "trie_insert t p asn = Some (Inr t')"
  shows "asn_val t' = (asn_val t)(prefix_path p := asn)"
    and "asn_at t' bs \<noteq> None \<longleftrightarrow> asn_at t bs \<noteq> None \<or> (\<exists>n. bs = take n (prefix_path p))"
    and "is4 (prefix_addr p)" and "prefix_bits p \<le> 32"
proof -
  let ?n = "nat (prefix_bits p)"
  from assms obtain a b c d where a: "prefix_addr p = Addr4 a b c d"
    by (cases "prefix_addr p") (auto simp: trie_insert_def split: if_splits)
  let ?buf = "[a, b, c, d]"
  from assms a have w: "insert_walk ?buf asn 0 ?n t = Some t'"
    by (simp add: trie_insert_def)
  with insert_walk_past [of ?buf 0 ?n asn t] have n: "?n \<le> 32" by (force simp: not_le)
  then show "prefix_bits p \<le> 32" by simp
  show "is4 (prefix_addr p)" by (simp add: a)
  have path: "prefix_path p = take ?n (bit_path ?buf)" by (simp add: prefix_path_def a)
  from insert_walk_val [of 0 ?n ?buf asn t] w n show "asn_val t' = (asn_val t)(prefix_path p := asn)"
    by (simp add: path)
  have "(\<exists>m \<le> ?n. bs = take m (bit_path ?buf)) \<longleftrightarrow> (\<exists>m. bs = take m (prefix_path p))"
  proof
    assume "\<exists>m \<le> ?n. bs = take m (bit_path ?buf)"
    then show "\<exists>m. bs = take m (prefix_path p)" by (auto simp: path min_def intro: exI)
  next
    assume "\<exists>m. bs = take m (prefix_path p)"
    then obtain m where "bs = take (min m ?n) (bit_path ?buf)" by (auto simp: path)
    then show "\<exists>m \<le> ?n. bs = take m (bit_path ?buf)" by (intro exI [of _ "min m ?n"]) simp
  qed
  with insert_walk_at [OF w, of bs] show
    "asn_at t' bs \<noteq> None \<longleftrightarrow> asn_at t bs \<noteq> None \<or> (\<exists>n. bs = take n (prefix_path p))" by simp
qed

lemma trie_insert_total:
  assumes "is4 (prefix_addr p)" and "prefix_bits p \<le> 32"
  shows "\<exists>t'. trie_insert t p asn = Some (Inr t')"
proof -
  from assms(1) obtain a b c d where a: "prefix_addr p = Addr4 a b c d"
    by (cases "prefix_addr p") auto
  have "0 + nat (prefix_bits p) \<le> 8 * length [a, b, c, d]" using assms(2) by simp
  from insert_walk_val [OF this, of asn t] show ?thesis
    by (auto simp: trie_insert_def a)
qed

lemma trie_match_longest:
  "trie_match t a =
     (case as4 a of
        None \<Rightarrow> None
      | Some buf \<Rightarrow> if asn_at t (bit_path buf) \<noteq> None then None
                    else Some (longest (asn_val t) (bit_path buf) (0, False)))"
  by (simp add: trie_match_def match_walk_longest split: option.split)

definition asn_table :: "(prefix \<times> int) list \<Rightarrow> bool list \<Rightarrow> int" where
  "asn_table es = foldl (\<lambda>m (p, asn). m(prefix_path p := asn)) (\<lambda>_. 0) es"

lemma load_asns_val:
  "load_asns t es = Some (Inr t') \<Longrightarrow>
   asn_val t' = foldl (\<lambda>m (p, asn). m(prefix_path p := asn)) (asn_val t) es"
  by (induction t es rule: load_asns.induct)
    (auto split: option.splits sum.splits simp: trie_insert_val(1))

lemma load_asns_at:
  "load_asns t es = Some (Inr t') \<Longrightarrow>
   asn_at t' bs \<noteq> None \<longleftrightarrow>
     asn_at t bs \<noteq> None \<or> (\<exists>(p, asn) \<in> set es. \<exists>n. bs = take n (prefix_path p))"
proof (induction t es rule: load_asns.induct)
  case (2 t p asn es)
  from "2.prems" obtain t1 where t1: "trie_insert t p asn = Some (Inr t1)" "load_asns t1 es = Some (Inr t')"
    by (auto split: option.splits sum.splits)
  from "2.IH" [OF t1(1) refl t1(2)] trie_insert_val(2) [OF t1(1)] show ?case
    by (simp only: list.simps bex_simps case_prod_conv disj_assoc)
qed simp

lemma load_asns_total:
  "(\<forall>(p, asn) \<in> set es. is4 (prefix_addr p) \<and> prefix_bits p \<le> 32) \<Longrightarrow>
   \<exists>t'. load_asns t es = Some (Inr t')"
proof (induction es arbitrary: t)
  case (Cons e es)
  obtain p asn where e: "e = (p, asn)" by (cases e)
  with Cons.prems obtain t1 where "trie_insert t p asn = Some (Inr t1)"
    using trie_insert_total by fastforce
  with Cons e show ?case by simp
qed simp

subsection \<open>What the handlers rely on\<close>

text \<open>
  The contract of an index of prefixes: an insertion changes the value at one path, and
  a lookup that returns is the longest match.  The node's handlers use the index
  through these two laws only.
\<close>

locale prefix_index =
  fixes insert :: "'t \<Rightarrow> 'p \<Rightarrow> int \<Rightarrow> (error + 't) option"
    and path :: "'p \<Rightarrow> bool list"
    and val :: "'t \<Rightarrow> bool list \<Rightarrow> int"
    and lookup :: "'t \<Rightarrow> 'a \<Rightarrow> (int \<times> bool) option"
    and bits :: "'a \<Rightarrow> bool list"
  assumes val_insert: "insert t p x = Some (Inr t') \<Longrightarrow> val t' = (val t)(path p := x)"
    and lookup_longest: "lookup t a = Some r \<Longrightarrow> r = longest (val t) (bits a) (0, False)"
begin

lemma lookup_insert_other:
  assumes "insert t p x = Some (Inr t')" and "\<And>n. path p \<noteq> take n (bits a)"
    and "lookup t a = Some r" and "lookup t' a = Some r'"
  shows "r' = r"
proof -
  have "longest (val t') (bits a) (0, False) = longest (val t) (bits a) (0, False)"
    by (intro longest_cong) (simp add: val_insert [OF assms(1)] not_sym [OF assms(2)])
  then show ?thesis
    using lookup_longest assms(3,4) by metis
qed

lemma lookup_insert_longer:
  assumes "insert t p x = Some (Inr t')" and "path p = take n (bits a)" and "n \<le> length (bits a)"
    and "x \<noteq> 0" and "\<And>k. n < k \<Longrightarrow> k \<le> length (bits a) \<Longrightarrow> val t (take k (bits a)) = 0"
    and "lookup t' a = Some r"
  shows "r = (x, True)"
proof -
  have val: "val t' (take k (bits a)) = (if take k (bits a) = take n (bits a) then x else val t (take k (bits a)))" for k
    by (simp add: val_insert [OF assms(1)] assms(2))
  have eq: "take k (bits a) = take n (bits a) \<longleftrightarrow> k = n" if "k \<le> length (bits a)" for k
    using that assms(3) by (metis length_take min.absorb2)
  show ?thesis
  proof (rule longest_cases [of "bits a" "val t'" "(0, False)"])
    fix j
    assume j: "j \<le> length (bits a)" "val t' (take j (bits a)) \<noteq> 0"
      "\<And>k. j < k \<Longrightarrow> k \<le> length (bits a) \<Longrightarrow> val t' (take k (bits a)) = 0"
      "longest (val t') (bits a) (0, False) = (val t' (take j (bits a)), True)"
    have "j = n"
      using j(2) j(3) [of n] val eq assms(3-5) j(1) by (metis linorder_neqE_nat)
    with j(4) val show ?thesis
      using lookup_longest [OF assms(6)] by simp
  next
    assume "\<And>j. j \<le> length (bits a) \<Longrightarrow> val t' (take j (bits a)) = 0"
    from this [OF assms(3)] val assms(4) show ?thesis by simp
  qed
qed

end

interpretation asn_trie: prefix_index trie_insert prefix_path asn_val trie_match addr_path
proof
  show "trie_insert t p x = Some (Inr t') \<Longrightarrow> asn_val t' = (asn_val t)(prefix_path p := x)" for t p x t'
    by (rule trie_insert_val)
  show "trie_match t a = Some r \<Longrightarrow> r = longest (asn_val t) (addr_path a) (0, False)" for t a r
    by (auto simp: trie_match_longest split: option.splits if_splits)
qed

lemma load_asns_new_val: "load_asns new_trie es = Some (Inr t) \<Longrightarrow> asn_val t = asn_table es"
  using load_asns_val [of new_trie es t] by (simp add: asn_table_def fun_eq_iff cong: foldl_cong)
    (metis (no_types) asn_val_new ext)

lemma load_asns_new_at:
  "load_asns new_trie es = Some (Inr t) \<Longrightarrow> bs \<noteq> [] \<Longrightarrow>
   asn_at t bs \<noteq> None \<longleftrightarrow> (\<exists>(p, asn) \<in> set es. \<exists>n. bs = take n (prefix_path p))"
  using load_asns_at [of new_trie es t bs] by (cases bs) auto

lemma length_prefix_path_less:
  "is4 (prefix_addr p) \<Longrightarrow> prefix_bits p < 32 \<Longrightarrow> length (prefix_path p) < 32"
  by (cases "prefix_addr p") (auto simp: prefix_path_def min_def nat_less_iff)

lemma load_asns_is4: "load_asns t es = Some (Inr t') \<Longrightarrow> (p, asn) \<in> set es \<Longrightarrow> is4 (prefix_addr p)"
  by (induction t es rule: load_asns.induct)
    (auto split: option.splits sum.splits dest: trie_insert_val(3))

lemma trie_match_defined:
  assumes "load_asns new_trie es = Some (Inr t)" and "\<forall>(p, asn) \<in> set es. prefix_bits p < 32"
  shows "trie_match t (Addr4 a b c d) = Some (longest (asn_table es) (addr_path (Addr4 a b c d)) (0, False))"
proof -
  let ?path = "bit_path [a, b, c, d]"
  have "asn_at t ?path = None"
  proof (rule ccontr)
    assume "asn_at t ?path \<noteq> None"
    moreover have "?path \<noteq> []" by (simp add: bit_path_def)
    ultimately obtain p asn n where p: "(p, asn) \<in> set es" "?path = take n (prefix_path p)"
      using load_asns_new_at [OF assms(1), of ?path] by auto
    then have "length (prefix_path p) < 32"
      using length_prefix_path_less load_asns_is4 [OF assms(1)] assms(2) by blast
    with arg_cong [OF p(2), of length] show False by simp
  qed
  then show ?thesis
    by (simp add: trie_match_longest load_asns_new_val [OF assms(1)])
qed

lemma trie_match_full_path:
  assumes "load_asns new_trie es = Some (Inr t)"
    and "(\<lparr>prefix_addr = Addr4 a b c d, prefix_bits = 32\<rparr>, asn) \<in> set es"
  shows "trie_match t (Addr4 a b c d) = None"
proof -
  let ?path = "bit_path [a, b, c, d]"
  have "?path \<noteq> []" by (simp add: bit_path_def)
  moreover have "?path = take 32 (prefix_path \<lparr>prefix_addr = Addr4 a b c d, prefix_bits = 32\<rparr>)"
    by (simp add: prefix_path_def)
  ultimately have "asn_at t ?path \<noteq> None"
    using load_asns_new_at [OF assms(1), of ?path] assms(2) by fast
  then show ?thesis by (simp add: trie_match_longest)
qed


lemma find_walk_at:
  "i + n \<le> 8 * length buf \<Longrightarrow>
   find_walk buf i n x =
     Some (case asn_at x (take n (drop i (bit_path buf))) of
       None \<Rightarrow> (0, False) | Some a \<Rightarrow> (a, True))"
proof (induction n arbitrary: i x)
  case (Suc n)
  obtain b where "bit_at buf i = Some b"
    "drop i (bit_path buf) = (b \<noteq> 0) # drop (Suc i) (bit_path buf)"
    by (rule bit_at_cases [where buf = buf and i = i]) (use Suc.prems in auto)
  with Suc show ?case
    by (simp add: child_bool split: option.split)
qed simp

lemma trie_find_at:
  assumes "is4 (prefix_addr p)" and "prefix_bits p \<le> 32"
  shows "trie_find t p =
    Some (asn_val t (prefix_path p), asn_at t (prefix_path p) \<noteq> None)"
proof -
  from assms(1) obtain a b c d where "prefix_addr p = Addr4 a b c d"
    by (cases "prefix_addr p") auto
  with assms(2) find_walk_at [of 0 "nat (prefix_bits p)" "[a, b, c, d]" t] show ?thesis
    by (auto simp: trie_find_def prefix_path_def asn_val_def split: option.split)
qed

subsection \<open>Properties\<close>

text \<open>
  C24: longest-prefix match. After loading any list of IPv4 prefixes shorter than 32 bits,
  a match of any IPv4 address returns the number stored last for the longest prefix of the
  address that has a non-zero number, and reports not found (with number 0) exactly when
  no prefix of the address has one.
\<close>

theorem asn_match_longest_prefix:
  assumes "load_asns new_trie es = Some (Inr t)"
    and "\<forall>(p, asn) \<in> set es. prefix_bits p < 32"
  shows "case trie_match t (Addr4 a b c d) of
      None \<Rightarrow> False
    | Some (asn, found) \<Rightarrow>
        (let m = asn_table es; bits = addr_path (Addr4 a b c d) in
         if found
         then asn \<noteq> 0 \<and> (\<exists>n \<le> 32. m (take n bits) = asn \<and>
                (\<forall>k. n < k \<and> k \<le> 32 \<longrightarrow> m (take k bits) = 0))
         else asn = 0 \<and> (\<forall>k \<le> 32. m (take k bits) = 0))"
proof -
  define bits where "bits = addr_path (Addr4 a b c d)"
  have len: "length bits = 32" by (simp add: bits_def)
  have m: "trie_match t (Addr4 a b c d) = Some (longest (asn_table es) bits (0, False))"
    unfolding bits_def by (rule trie_match_defined [OF assms])
  show ?thesis
    unfolding bits_def [symmetric] m
    by (rule longest_cases [of bits "asn_table es" "(0, False)"]) (auto simp: len Let_def)
qed

definition sample_asns :: "(prefix \<times> int) list" where
  "sample_asns = [(\<lparr>prefix_addr = Addr4 192 168 0 0, prefix_bits = 16\<rparr>, 2),
                  (\<lparr>prefix_addr = Addr4 192 168 20 16, prefix_bits = 28\<rparr>, 1)]"

definition sample_trie :: trie_node where
  "sample_trie = projr (the (load_asns new_trie sample_asns))"

theorem asn_match_longest_prefix_witness:
  "load_asns new_trie sample_asns = Some (Inr sample_trie) \<and>
   trie_match sample_trie (Addr4 192 168 20 19) = Some (1, True) \<and>
   (\<exists>n \<le> 32. asn_table sample_asns (take n (addr_path (Addr4 192 168 20 19))) = 1)"
proof -
  have load: "load_asns new_trie sample_asns = Some (Inr sample_trie)"
    by code_simp
  have match: "trie_match sample_trie (Addr4 192 168 20 19) = Some (1, True)"
    by code_simp
  have short: "\<forall>(p, asn) \<in> set sample_asns. prefix_bits p < 32"
    by (simp add: sample_asns_def)
  show ?thesis
    using asn_match_longest_prefix [OF load short, of 192 168 20 19] load match
    by (auto simp: Let_def simp del: addr_path.simps)
qed

text \<open>
  C36: a match panics on an address that was loaded with all its 32 bits. The loop of Match
  reads the next bit before it looks for a child, and bit 32 lies past the four bytes.
\<close>

theorem asn_match_host_route_panics:
  assumes "load_asns new_trie es = Some (Inr t)"
    and "(\<lparr>prefix_addr = Addr4 a b c d, prefix_bits = 32\<rparr>, asn) \<in> set es"
  shows "trie_match t (Addr4 a b c d) = None"
  using assms by (rule trie_match_full_path)

definition host_route :: "prefix \<times> int" where
  "host_route = (\<lparr>prefix_addr = Addr4 10 0 0 7, prefix_bits = 32\<rparr>, 5)"

theorem asn_match_host_route_panics_witness:
  "\<exists>t. load_asns new_trie [host_route] = Some (Inr t) \<and> trie_match t (Addr4 10 0 0 7) = None"
proof -
  have "\<forall>(p, asn) \<in> set [host_route]. is4 (prefix_addr p) \<and> prefix_bits p \<le> 32"
    by (simp add: host_route_def)
  then obtain t where "load_asns new_trie [host_route] = Some (Inr t)"
    using load_asns_total by blast
  then show ?thesis
    using asn_match_host_route_panics [of "[host_route]" t 10 0 0 7 5] by (auto simp: host_route_def)
qed

text \<open>
  Insert and Find. Inserting an IPv4 prefix of at most 32 bits succeeds; afterwards Find
  returns the new number for that prefix, its old number (and found) for every shorter
  prefix on its path, and its old answer for every other prefix. A prefix that is not
  IPv4 is refused with an error.
\<close>

theorem asn_insert_find:
  assumes "prefix_bits p \<le> 32" and "is4 (prefix_addr q)" and "prefix_bits q \<le> 32"
  shows "if is4 (prefix_addr p)
    then \<exists>t'. trie_insert t p asn = Some (Inr t') \<and>
           trie_find t' q =
             (if prefix_path q = prefix_path p then Some (asn, True)
              else if \<exists>n. prefix_path q = take n (prefix_path p) then Some (asn_val t (prefix_path q), True)
              else trie_find t q)
    else trie_insert t p asn = Some (Inl PrefixNotIPv4)"
proof (cases "is4 (prefix_addr p)")
  case True
  then obtain t' where t': "trie_insert t p asn = Some (Inr t')"
    using trie_insert_total assms(1) by blast
  note val = trie_insert_val(1) [OF t'] and at = trie_insert_val(2) [OF t', of "prefix_path q"]
  have "trie_find t' q = (if prefix_path q = prefix_path p then Some (asn, True)
      else if \<exists>n. prefix_path q = take n (prefix_path p) then Some (asn_val t (prefix_path q), True)
      else trie_find t q)"
  proof (cases "\<exists>n. prefix_path q = take n (prefix_path p)")
    case True
    with at have "asn_at t' (prefix_path q) \<noteq> None" by blast
    then show ?thesis
      using True by (auto simp: trie_find_at assms(2,3) val)
  next
    case False
    then have "prefix_path q \<noteq> prefix_path p" by (metis take_all_iff order_refl)
    moreover have "asn_at t' (prefix_path q) = None \<longleftrightarrow> asn_at t (prefix_path q) = None"
      using at False by blast
    ultimately show ?thesis
      using False by (auto simp: trie_find_at assms(2,3) val)
  qed
  with t' True show ?thesis by auto
qed (simp add: trie_insert_def)

theorem asn_insert_find_witness:
  "\<exists>t'. trie_insert new_trie (fst host_route) 5 = Some (Inr t') \<and>
     trie_find t' (fst host_route) = Some (5, True)"
  using asn_insert_find [of "fst host_route" "fst host_route" new_trie 5]
  by (simp add: host_route_def)

end
