(* ===== verification/Peer_Store.thy ===== *)
theory Peer_Store
  imports Key Asn
begin

text \<open>
  The peers a node knows for each key, with expiry (\<^verbatim>\<open>dht/peer_store.go\<close>).  The store is a
  Go map from keys to sets of peers, here an association list whose values are lists
  without duplicates.  Each method holds the store's lock for its whole body, so it is one
  step.  The clock is read once for every peer that is looked at: \<open>clk p\<close> is what
  \<^verbatim>\<open>time.Now()\<close> gives for peer \<open>p\<close>.  Instants and durations are in nanoseconds;
  an instant has neither the location nor the monotonic reading that Go's times carry.
\<close>

record peer =
  peer_ip :: addr
  peer_port :: u16
  peer_asn :: int
  peer_published :: int

record peer_store =
  store_data :: "(key \<times> peer list) list"
  store_expiry :: int

definition new_peer_store :: "int \<Rightarrow> peer_store" where
  "new_peer_store expiry = \<lparr>store_data = [], store_expiry = expiry\<rparr>"

definition peer_expired :: "(peer \<Rightarrow> int) \<Rightarrow> int \<Rightarrow> peer \<Rightarrow> bool" where
  "peer_expired clk expiry p \<longleftrightarrow> clk p > peer_published p + expiry"

definition peer_store_get ::
  "(peer \<Rightarrow> int) \<Rightarrow> (peer list \<Rightarrow> peer list) \<Rightarrow> peer_store \<Rightarrow> key \<Rightarrow> (error + peer list) \<times> peer_store" where
  "peer_store_get clk ord s k =
     (case map_of (store_data s) k of
        None \<Rightarrow> (Inl KeyNotFound, s)
      | Some pmap \<Rightarrow>
          let pmap' = filter (\<lambda>p. \<not> peer_expired clk (store_expiry s) p) pmap
          in if length pmap' = 0
             then (Inl AllPeersDead, s\<lparr>store_data := AList.delete k (store_data s)\<rparr>)
             else (Inr (ord pmap'), s\<lparr>store_data := AList.update k pmap' (store_data s)\<rparr>))"

definition add_peer :: "peer \<Rightarrow> peer list \<Rightarrow> peer list" where
  "add_peer p pmap = (if p \<in> set pmap then pmap else pmap @ [p])"

definition peer_store_put :: "peer_store \<Rightarrow> key \<Rightarrow> peer list \<Rightarrow> peer_store" where
  "peer_store_put s k ps =
     (let pmap = (case map_of (store_data s) k of None \<Rightarrow> [] | Some pmap \<Rightarrow> pmap)
      in s\<lparr>store_data := AList.update k (fold add_peer ps pmap) (store_data s)\<rparr>)"

definition peer_store_delete :: "peer_store \<Rightarrow> key \<Rightarrow> peer_store" where
  "peer_store_delete s k = s\<lparr>store_data := AList.delete k (store_data s)\<rparr>"

text \<open>\<^verbatim>\<open>GetAll\<close>: the keys are collected first, then read one by one.\<close>

fun get_each ::
  "(key \<Rightarrow> peer \<Rightarrow> int) \<Rightarrow> (key \<Rightarrow> peer list \<Rightarrow> peer list) \<Rightarrow> peer_store \<Rightarrow> key list \<Rightarrow>
   (key \<times> peer list) list \<times> peer_store" where
  "get_each clk ord s [] = ([], s)"
| "get_each clk ord s (k # ks) =
     (case peer_store_get (clk k) (ord k) s k of
        (Inl e, s') \<Rightarrow> get_each clk ord s' ks
      | (Inr ps, s') \<Rightarrow> (case get_each clk ord s' ks of (prs, s'') \<Rightarrow> ((k, ps) # prs, s'')))"

definition peer_store_get_all ::
  "(key \<Rightarrow> peer \<Rightarrow> int) \<Rightarrow> (key \<Rightarrow> peer list \<Rightarrow> peer list) \<Rightarrow> (key list \<Rightarrow> key list) \<Rightarrow> peer_store \<Rightarrow>
   (key \<times> peer list) list \<times> peer_store" where
  "peer_store_get_all clk ord kord s = get_each clk ord s (kord (map fst (store_data s)))"

subsection \<open>Invariant and abstraction\<close>

definition store_inv :: "peer_store \<Rightarrow> bool" where
  "store_inv s \<longleftrightarrow>
     distinct (map fst (store_data s)) \<and> (\<forall>(k, pmap) \<in> set (store_data s). distinct pmap)"

definition store_peers :: "peer_store \<Rightarrow> key \<Rightarrow> peer set" where
  "store_peers s k = (case map_of (store_data s) k of None \<Rightarrow> {} | Some pmap \<Rightarrow> set pmap)"

definition live_peers :: "(peer \<Rightarrow> int) \<Rightarrow> peer_store \<Rightarrow> key \<Rightarrow> peer set" where
  "live_peers clk s k = {p \<in> store_peers s k. \<not> peer_expired clk (store_expiry s) p}"

lemma store_inv_new [simp, inv_intros]: "store_inv (new_peer_store e)"
  by (simp add: store_inv_def new_peer_store_def)

lemma store_peers_new [simp]: "store_peers (new_peer_store e) k = {}"
  by (simp add: store_peers_def new_peer_store_def)

lemma store_invD: "store_inv s \<Longrightarrow> map_of (store_data s) k = Some pmap \<Longrightarrow> distinct pmap"
  by (auto simp: store_inv_def dest: map_of_SomeD)

lemma set_add_peers: "set (fold add_peer ps pmap) = set ps \<union> set pmap"
  by (induction ps arbitrary: pmap) (auto simp: add_peer_def)

lemma distinct_add_peers: "distinct pmap \<Longrightarrow> distinct (fold add_peer ps pmap)"
  by (induction ps arbitrary: pmap) (auto simp: add_peer_def)

lemma set_AList_update: "set (AList.update k v al) \<subseteq> insert (k, v) (set al)"
  by (induction al) auto

lemma set_AList_delete: "set (AList.delete k al) \<subseteq> set al"
  by (induction al) auto

lemma store_inv_update [inv_intros]:
  "store_inv s \<Longrightarrow> distinct pmap \<Longrightarrow> store_inv (s\<lparr>store_data := AList.update k pmap (store_data s)\<rparr>)"
  using set_AList_update [of k pmap "store_data s"]
  by (auto simp: store_inv_def distinct_update)

lemma store_inv_delete [inv_intros]:
  "store_inv s \<Longrightarrow> store_inv (s\<lparr>store_data := AList.delete k (store_data s)\<rparr>)"
  using set_AList_delete [of k "store_data s"]
  by (auto simp: store_inv_def distinct_delete)

lemma store_inv_put [inv_intros]: "store_inv s \<Longrightarrow> store_inv (peer_store_put s k ps)"
  by (auto simp: peer_store_put_def intro!: store_inv_update distinct_add_peers
      split: option.split dest: store_invD)

lemma store_inv_get [inv_intros]:
  "store_inv s \<Longrightarrow> peer_store_get clk ord s k = (r, s') \<Longrightarrow> store_inv s'"
  by (auto simp: peer_store_get_def Let_def split: option.splits if_splits
      intro!: store_inv_update store_inv_delete dest: store_invD)

lemma store_expiry_simps [simp]:
  "store_expiry (peer_store_put s k ps) = store_expiry s"
  "store_expiry (peer_store_delete s k) = store_expiry s"
  "store_expiry (new_peer_store e) = e"
  by (simp_all add: peer_store_put_def peer_store_delete_def new_peer_store_def)

lemma store_peers_put:
  "store_peers (peer_store_put s k ps) k' =
     (if k' = k then set ps \<union> store_peers s k else store_peers s k')"
  by (simp add: store_peers_def peer_store_put_def update_conv' set_add_peers split: option.split)

lemma store_peers_delete:
  "store_inv s \<Longrightarrow> store_peers (peer_store_delete s k) k' = (if k' = k then {} else store_peers s k')"
  by (simp add: store_peers_def peer_store_delete_def delete_conv')

text \<open>What \<^verbatim>\<open>get\<close> returns and leaves behind, on its three branches.\<close>

lemma get_cases:
  assumes "iteration_order ord" and "store_inv s"
  obtains
    (missing) "peer_store_get clk ord s k = (Inl KeyNotFound, s)" "k \<notin> set (map fst (store_data s))"
      "store_peers s k = {}"
  | (dead) s' where "peer_store_get clk ord s k = (Inl AllPeersDead, s')"
      "live_peers clk s k = {}" "s' = peer_store_delete s k"
  | (live) ps s' where "peer_store_get clk ord s k = (Inr ps, s')" "set ps = live_peers clk s k"
      "ps \<noteq> []" "distinct ps" "store_expiry s' = store_expiry s"
      "map fst (store_data s') = map fst (store_data s)"
      "\<And>k'. store_peers s' k' = (if k' = k then live_peers clk s k else store_peers s k')"
proof (cases "map_of (store_data s) k")
  case None
  then have "k \<notin> set (map fst (store_data s))" by (simp add: map_of_eq_None_iff)
  then show ?thesis using None by (intro missing) (simp_all add: peer_store_get_def store_peers_def)
next
  case (Some pmap)
  let ?live = "filter (\<lambda>p. \<not> peer_expired clk (store_expiry s) p) pmap"
  have set_live: "set ?live = live_peers clk s k"
    using Some by (auto simp: live_peers_def store_peers_def)
  show ?thesis
  proof (cases "?live = []")
    case True
    with Some set_live show ?thesis
      by (intro dead) (auto simp: peer_store_get_def Let_def peer_store_delete_def)
  next
    case False
    let ?s' = "s\<lparr>store_data := AList.update k ?live (store_data s)\<rparr>"
    have eq: "peer_store_get clk ord s k = (Inr (ord ?live), ?s')"
      using Some False by (simp add: peer_store_get_def Let_def)
    have "k \<in> set (map fst (store_data s))"
      using map_of_SomeD [OF Some] by force
    then have "map fst (store_data ?s') = map fst (store_data s)"
      by (simp add: update_keys)
    moreover have "store_peers ?s' k' = (if k' = k then live_peers clk s k else store_peers s k')" for k'
      using set_live by (simp add: store_peers_def update_conv')
    moreover have "ord ?live \<noteq> []"
      using False assms(1) by (metis iteration_order_length length_0_conv)
    moreover have "distinct (ord ?live)"
      using assms Some by (simp add: iteration_order_distinct store_invD)
    ultimately show ?thesis
      using set_live assms(1) by (intro live [OF eq]) (simp_all add: iteration_order_set)
  qed
qed

lemma live_peers_cong:
  "store_peers s' k = store_peers s k \<Longrightarrow> store_expiry s' = store_expiry s \<Longrightarrow>
   live_peers clk s' k = live_peers clk s k"
  by (simp add: live_peers_def)

lemma get_frame:
  assumes "iteration_order ord" and "store_inv s" and "peer_store_get clk ord s k = (r, s')"
  shows "store_peers s' k' = (if k' = k then live_peers clk s k else store_peers s k')"
    and "store_expiry s' = store_expiry s"
    and "r = Inr ps \<Longrightarrow> set ps = live_peers clk s k \<and> distinct ps \<and> ps \<noteq> []"
    and "r = Inl e \<Longrightarrow> live_peers clk s k = {}"
proof -
  have empty: "store_peers s k = {} \<Longrightarrow> live_peers clk s k = {}" by (simp add: live_peers_def)
  show "store_peers s' k' = (if k' = k then live_peers clk s k else store_peers s k')"
    by (rule get_cases [OF assms(1,2), of clk k]) (use assms(2,3) empty in \<open>auto simp: store_peers_delete\<close>)
  show "store_expiry s' = store_expiry s"
    by (rule get_cases [OF assms(1,2), of clk k]) (use assms(3) in auto)
  show "r = Inr ps \<Longrightarrow> set ps = live_peers clk s k \<and> distinct ps \<and> ps \<noteq> []"
    by (rule get_cases [OF assms(1,2), of clk k]) (use assms(3) in auto)
  show "r = Inl e \<Longrightarrow> live_peers clk s k = {}"
    by (rule get_cases [OF assms(1,2), of clk k]) (use assms(3) empty in auto)
qed

lemma get_each_spec:
  assumes "\<And>k. iteration_order (ord k)" and "store_inv s" and "distinct ks"
    and "get_each clk ord s ks = (prs, s')"
  shows "map fst prs = filter (\<lambda>k. live_peers (clk k) s k \<noteq> {}) ks"
    and "\<forall>(k, ps) \<in> set prs. set ps = live_peers (clk k) s k \<and> distinct ps"
    and "store_peers s' k = (if k \<in> set ks then live_peers (clk k) s k else store_peers s k)"
    and "store_inv s'"
  using assms(2-4)
proof (atomize (full), induction ks arbitrary: s prs)
  case (Cons k1 ks)
  obtain r s1 where get: "peer_store_get (clk k1) (ord k1) s k1 = (r, s1)" by fastforce
  note frame = get_frame [OF assms(1) Cons.prems(1) get]
  have s1: "store_inv s1" by (rule store_inv_get [OF Cons.prems(1) get])
  have live: "live_peers (clk k) s1 k = live_peers (clk k) s k" if "k \<noteq> k1" for k
    using that by (intro live_peers_cong) (simp_all add: frame(1,2))
  obtain prs1 where rest: "get_each clk ord s1 ks = (prs1, s')"
    "prs = (case r of Inl e \<Rightarrow> prs1 | Inr ps \<Rightarrow> (k1, ps) # prs1)"
    using Cons.prems(3) get by (auto split: sum.splits prod.splits)
  have nin: "k1 \<notin> set ks" and ks: "distinct ks" using Cons.prems(2) by auto
  from Cons.IH [OF s1 ks rest(1)]
  have IH: "map fst prs1 = filter (\<lambda>k. live_peers (clk k) s1 k \<noteq> {}) ks"
    "\<forall>(k, ps) \<in> set prs1. set ps = live_peers (clk k) s1 k \<and> distinct ps"
    "store_peers s' k = (if k \<in> set ks then live_peers (clk k) s1 k else store_peers s1 k)"
    "store_inv s'" by auto
  have flt: "filter (\<lambda>k. live_peers (clk k) s1 k \<noteq> {}) ks = filter (\<lambda>k. live_peers (clk k) s k \<noteq> {}) ks"
  proof (rule filter_cong [OF refl])
    fix k assume "k \<in> set ks"
    with nin have "k \<noteq> k1" by auto
    from live [OF this] show "(live_peers (clk k) s1 k \<noteq> {}) = (live_peers (clk k) s k \<noteq> {})"
      by simp
  qed
  have mem: "k \<noteq> k1" if "(k, ps) \<in> set prs1" for k ps
  proof -
    have "k \<in> set (map fst prs1)" using that by force
    with nin show ?thesis by (auto simp: IH(1))
  qed
  show ?case
  proof (intro conjI)
    show "map fst prs = filter (\<lambda>k. live_peers (clk k) s k \<noteq> {}) (k1 # ks)"
      using frame(3,4) by (cases r) (auto simp: rest(2) IH(1) flt)
    show "\<forall>(k, ps) \<in> set prs. set ps = live_peers (clk k) s k \<and> distinct ps"
      using frame(3) IH(2) mem live by (cases r) (auto simp: rest(2) split: prod.splits)
    show "store_peers s' k = (if k \<in> set (k1 # ks) then live_peers (clk k) s k else store_peers s k)"
    proof (cases "k \<in> set ks")
      case True
      with nin have "k \<noteq> k1" by auto
      from live [OF this] True show ?thesis by (simp add: IH(3))
    next
      case False
      then show ?thesis by (simp add: IH(3) frame(1))
    qed
    show "store_inv s'" by (rule IH(4))
  qed
qed simp

lemma get_all_spec:
  assumes "\<And>k. iteration_order (ord k)" and "iteration_order kord" and "store_inv s"
    and "peer_store_get_all clk ord kord s = (prs, s')"
  shows "distinct (map fst prs) \<and>
    (\<forall>k. k \<in> fst ` set prs \<longleftrightarrow> live_peers (clk k) s k \<noteq> {}) \<and>
    (\<forall>(k, ps) \<in> set prs. set ps = live_peers (clk k) s k \<and> distinct ps) \<and>
    (\<forall>k. store_peers s' k = live_peers (clk k) s k) \<and> store_inv s'"
proof -
  let ?ks = "kord (map fst (store_data s))"
  have dk: "distinct ?ks" and sk: "set ?ks = fst ` set (store_data s)"
    using assms(2,3) by (simp_all add: store_inv_def iteration_order_distinct iteration_order_set)
  have each: "get_each clk ord s ?ks = (prs, s')"
    using assms(4) by (simp add: peer_store_get_all_def)
  note spec = get_each_spec [OF assms(1,3) dk each]
  have none: "store_peers s k = {}" if "k \<notin> fst ` set (store_data s)" for k
    using that by (simp add: store_peers_def map_of_eq_None_iff [THEN iffD2])
  then have none': "live_peers (clk k) s k = {}" if "k \<notin> fst ` set (store_data s)" for k
    using that by (simp add: live_peers_def)
  show ?thesis
  proof (intro conjI allI)
    show "distinct (map fst prs)" using dk by (simp add: spec(1))
    show "k \<in> fst ` set prs \<longleftrightarrow> live_peers (clk k) s k \<noteq> {}" for k
      using none' [of k] arg_cong [OF spec(1), of set] by (auto simp: sk)
    show "\<forall>(k, ps) \<in> set prs. set ps = live_peers (clk k) s k \<and> distinct ps" by (rule spec(2))
    show "store_peers s' k = live_peers (clk k) s k" for k
      using none [of k] none' [of k] by (simp add: spec(3) sk)
    show "store_inv s'" by (rule spec(4))
  qed
qed

subsection \<open>The contract the node relies on\<close>

locale peer_table =
  fixes put :: "'s \<Rightarrow> 'k \<Rightarrow> 'p list \<Rightarrow> 's"
    and get :: "'c \<Rightarrow> ('p list \<Rightarrow> 'p list) \<Rightarrow> 's \<Rightarrow> 'k \<Rightarrow> (error + 'p list) \<times> 's"
    and peers :: "'s \<Rightarrow> 'k \<Rightarrow> 'p set"
    and fresh :: "'c \<Rightarrow> 's \<Rightarrow> 'p \<Rightarrow> bool"
    and inv :: "'s \<Rightarrow> bool"
  assumes inv_put: "inv s \<Longrightarrow> inv (put s k ps)"
    and peers_put: "peers (put s k ps) k' = (if k' = k then set ps \<union> peers s k else peers s k')"
    and fresh_put: "fresh clk (put s k ps) p = fresh clk s p"
    and get_some: "inv s \<Longrightarrow> iteration_order ord \<Longrightarrow> get clk ord s k = (Inr ps, s') \<Longrightarrow>
      set ps = {p \<in> peers s k. fresh clk s p} \<and> ps \<noteq> [] \<and> inv s'"
    and get_error: "inv s \<Longrightarrow> iteration_order ord \<Longrightarrow> get clk ord s k = (Inl e, s') \<Longrightarrow>
      {p \<in> peers s k. fresh clk s p} = {} \<and> inv s'"
begin

lemma get_after_put:
  assumes "inv s" and "iteration_order ord" and "p \<in> set ps" and "fresh clk s p"
  obtains qs s' where "get clk ord (put s k ps) k = (Inr qs, s')"
    "set qs = {q \<in> set ps \<union> peers s k. fresh clk s q}" "inv s'"
proof -
  obtain r s' where get: "get clk ord (put s k ps) k = (r, s')" by fastforce
  show ?thesis
  proof (cases r)
    case (Inl e)
    with get_error [OF inv_put [OF assms(1)] assms(2), of clk k ps k e s'] get assms(3,4)
    show ?thesis by (auto simp: peers_put fresh_put)
  next
    case (Inr qs)
    with get_some [OF inv_put [OF assms(1)] assms(2), of clk k ps k qs s'] get that
    show ?thesis by (auto simp: peers_put fresh_put)
  qed
qed

lemma get_other_after_put:
  assumes "inv s" and "iteration_order ord" and "k' \<noteq> k"
    and "get clk ord (put s k ps) k' = (Inr qs, s')"
  shows "set qs = {q \<in> peers s k'. fresh clk s q}"
  using get_some [OF inv_put [OF assms(1)] assms(2,4)] assms(3) by (simp add: peers_put fresh_put)

end

interpretation peer_map: peer_table peer_store_put peer_store_get store_peers
  "\<lambda>clk s p. \<not> peer_expired clk (store_expiry s) p" store_inv
proof (unfold_locales, goal_cases)
  case 1 then show ?case by (rule store_inv_put)
next
  case 2 show ?case by (rule store_peers_put)
next
  case 3 show ?case by simp
next
  case (4 s ord clk k ps s')
  then show ?case
    using get_frame(3) [OF 4(2,1,3)] store_inv_get [OF 4(1,3)] by (simp add: live_peers_def)
next
  case (5 s ord clk k e s')
  then show ?case
    using get_frame(4) [OF 5(2,1,3)] store_inv_get [OF 5(1,3)] by (simp add: live_peers_def)
qed

subsection \<open>Properties\<close>

text \<open>
  C35: reading a key. Whatever order the map is walked in, \<^verbatim>\<open>Get\<close> returns exactly the peers
  stored for the key that have not expired, each once; it fails exactly when there are
  none, and afterwards the expired peers of that key, and no others, are gone.
\<close>

theorem peer_store_get_live:
  assumes "iteration_order ord" and "store_inv s"
  shows "case peer_store_get clk ord s k of (r, s') \<Rightarrow>
    (case r of
       Inr ps \<Rightarrow> ps \<noteq> [] \<and> distinct ps \<and>
         set ps = {p \<in> store_peers s k. clk p \<le> peer_published p + store_expiry s}
     | Inl e \<Rightarrow> {p \<in> store_peers s k. clk p \<le> peer_published p + store_expiry s} = {} \<and>
         (e = KeyNotFound \<longleftrightarrow> k \<notin> fst ` set (store_data s)) \<and> (e = AllPeersDead \<longleftrightarrow> k \<in> fst ` set (store_data s))) \<and>
    store_inv s' \<and>
    (\<forall>k'. store_peers s' k' =
       (if k' = k then {p \<in> store_peers s k. clk p \<le> peer_published p + store_expiry s}
        else store_peers s k'))"
proof -
  obtain r s' where get: "peer_store_get clk ord s k = (r, s')" by fastforce
  have live: "{p \<in> store_peers s k. clk p \<le> peer_published p + store_expiry s} = live_peers clk s k"
    by (auto simp: live_peers_def peer_expired_def)
  note frame = get_frame [OF assms get]
  have key: "e = KeyNotFound \<longleftrightarrow> k \<notin> fst ` set (store_data s)" "e = AllPeersDead \<longleftrightarrow> k \<in> fst ` set (store_data s)"
    if "r = Inl e" for e
    using get that map_of_eq_None_iff [of "store_data s" k]
    by (auto simp: peer_store_get_def Let_def split: option.splits if_splits)
  show ?thesis
    using frame store_inv_get [OF assms(2) get] key
    by (auto simp: get live split: sum.split)
qed

definition sample_peer :: "u16 \<Rightarrow> int \<Rightarrow> peer" where
  "sample_peer port published =
     \<lparr>peer_ip = Addr4 10 0 0 1, peer_port = port, peer_asn = 0, peer_published = published\<rparr>"

definition sample_peer_store :: peer_store where
  "sample_peer_store =
     peer_store_put (new_peer_store 10) (parse_uint64 1) [sample_peer 1 0, sample_peer 2 95]"

theorem peer_store_get_live_witness:
  "fst (peer_store_get (\<lambda>_. 100) rev sample_peer_store (parse_uint64 1)) = Inr [sample_peer 2 95] \<and>
   {p \<in> store_peers sample_peer_store (parse_uint64 1). 100 \<le> peer_published p + 10} = {sample_peer 2 95}"
proof -
  have "store_inv sample_peer_store"
    by (simp add: sample_peer_store_def inv_intros)
  have expiry: "store_expiry sample_peer_store = 10"
    by (simp add: sample_peer_store_def)
  have "fst (peer_store_get (\<lambda>_. 100) rev sample_peer_store (parse_uint64 1)) = Inr [sample_peer 2 95]"
    by (simp add: sample_peer_store_def peer_store_put_def peer_store_get_def new_peer_store_def
        add_peer_def sample_peer_def peer_expired_def Let_def)
  with peer_store_get_live [OF iteration_order_rev \<open>store_inv sample_peer_store\<close>,
      where clk = "\<lambda>_. 100" and k = "parse_uint64 1"]
  show ?thesis by (auto simp: expiry split: prod.splits)
qed

text \<open>
  What is stored is found again. After \<^verbatim>\<open>Put\<close>, a \<^verbatim>\<open>Get\<close> of the same key returns every
  peer of the batch that has not expired, together with the live peers stored earlier
  and nothing else; a \<^verbatim>\<open>Get\<close> of another key is not affected.
\<close>

theorem peer_store_put_get:
  assumes "iteration_order ord" and "store_inv s" and "p \<in> set ps"
    and "clk p \<le> peer_published p + store_expiry s"
  shows "(\<exists>qs s'. peer_store_get clk ord (peer_store_put s k ps) k = (Inr qs, s') \<and>
      set qs = {q \<in> set ps \<union> store_peers s k. clk q \<le> peer_published q + store_expiry s}) \<and>
    (\<forall>k' qs s'. k' \<noteq> k \<longrightarrow> peer_store_get clk ord (peer_store_put s k ps) k' = (Inr qs, s') \<longrightarrow>
      set qs = {q \<in> store_peers s k'. clk q \<le> peer_published q + store_expiry s})"
proof -
  have expired: "\<not> peer_expired clk (store_expiry s) q \<longleftrightarrow> clk q \<le> peer_published q + store_expiry s" for q
    by (auto simp: peer_expired_def)
  obtain qs s' where "peer_store_get clk ord (peer_store_put s k ps) k = (Inr qs, s')"
    "set qs = {q \<in> set ps \<union> store_peers s k. \<not> peer_expired clk (store_expiry s) q}"
    by (rule peer_map.get_after_put [OF assms(2,1,3), of clk]) (use assms(4) expired in blast)+
  moreover have "set qs = {q \<in> store_peers s k'. clk q \<le> peer_published q + store_expiry s}"
    if "k' \<noteq> k" "peer_store_get clk ord (peer_store_put s k ps) k' = (Inr qs, s')" for k' qs s'
    using peer_map.get_other_after_put [OF assms(2,1) that] by (simp add: expired)
  ultimately show ?thesis by (simp add: expired)
qed

theorem peer_store_put_get_witness:
  "\<exists>qs s'. peer_store_get (\<lambda>_. 100) rev
       (peer_store_put sample_peer_store (parse_uint64 2) [sample_peer 3 90]) (parse_uint64 2) = (Inr qs, s') \<and>
     set qs = {sample_peer 3 90}"
proof -
  have inv: "store_inv sample_peer_store"
    by (simp add: sample_peer_store_def inv_intros)
  have "store_expiry sample_peer_store = 10" "store_peers sample_peer_store (parse_uint64 2) = {}"
    by (simp_all add: sample_peer_store_def store_peers_put)
  with peer_store_put_get [OF iteration_order_rev inv, of "sample_peer 3 90" "[sample_peer 3 90]"
      "\<lambda>_. 100" "parse_uint64 2"]
  show ?thesis by (auto simp: sample_peer_def)
qed

text \<open>
  Reading everything. \<^verbatim>\<open>GetAll\<close> returns one pair for each key that has a live peer and no
  other, each with exactly the live peers of that key; afterwards every expired peer is
  gone and every live peer is still stored, whatever the iteration orders.
\<close>

theorem peer_store_get_all_live:
  assumes "\<And>k. iteration_order (ord k)" and "iteration_order kord" and "store_inv s"
    and "peer_store_get_all clk ord kord s = (prs, s')"
  shows "distinct (map fst prs) \<and>
    (\<forall>k. k \<in> fst ` set prs \<longleftrightarrow> live_peers (clk k) s k \<noteq> {}) \<and>
    (\<forall>(k, ps) \<in> set prs. set ps = live_peers (clk k) s k \<and> distinct ps) \<and>
    (\<forall>k. store_peers s' k = live_peers (clk k) s k) \<and> store_inv s'"
  by (rule get_all_spec [OF assms])

theorem peer_store_get_all_live_witness:
  "case peer_store_get_all (\<lambda>_ _. 100) (\<lambda>_. rev) rev sample_peer_store of (prs, s') \<Rightarrow>
     map fst prs = [parse_uint64 1] \<and> store_peers s' (parse_uint64 1) = {sample_peer 2 95}"
proof -
  obtain prs s' where all: "peer_store_get_all (\<lambda>_ _. 100) (\<lambda>_. rev) rev sample_peer_store = (prs, s')"
    by fastforce
  have inv: "store_inv sample_peer_store"
    by (simp add: sample_peer_store_def inv_intros)
  have live: "live_peers (\<lambda>_. 100) sample_peer_store (parse_uint64 1) = {sample_peer 2 95}"
    by (auto simp: live_peers_def sample_peer_store_def store_peers_put peer_expired_def sample_peer_def)
  have "map fst prs = [parse_uint64 1]"
    using all by (simp add: peer_store_get_all_def sample_peer_store_def peer_store_put_def peer_store_get_def
        new_peer_store_def add_peer_def sample_peer_def peer_expired_def Let_def) auto
  with peer_store_get_all_live [OF iteration_order_rev iteration_order_rev inv all]
  show ?thesis by (simp add: all live)
qed

end
