(* ===== verification/Routing_Table.thy ===== *)
theory Routing_Table
  imports Key
begin

text \<open>
  The routing table of a node (\<^verbatim>\<open>dht/routing_table.go\<close>): buckets of contacts over ranges of
  keys, in the order in which the contacts were last seen, and their split when a full
  bucket holds the node's own key.

  \<^item> A \<^verbatim>\<open>container/list\<close> is a list of elements; an element is its identity and its value.
    The map \<^verbatim>\<open>elements\<close> holds the same elements, so a pointer into the list is the
    element's identity; \<open>next_elem\<close> is the identity of the next element allocated.
  \<^item> \<open>now\<close> is the clock during the call.  \<open>rpc\<close> is the interface value passed to
    \<^verbatim>\<open>UpdateContact\<close>: \<open>None\<close> is nil, \<open>Some ping\<close> says which contacts answer a ping.
\<close>

record contact =
  contact_id :: key
  contact_address :: string

type_synonym elem = "nat \<times> contact"

record bucket =
  bucket_k :: int
  contacts :: "elem list"
  elements :: "(key \<times> elem) list"
  next_elem :: nat
  last_updated :: int
  bucket_low :: key
  bucket_high :: key

definition new_bucket :: "int \<Rightarrow> int \<Rightarrow> key \<Rightarrow> key \<Rightarrow> bucket option" where
  "new_bucket now k lo hi =
     (if k \<le> 0 then None
      else Some \<lparr>bucket_k = k, contacts = [], elements = [], next_elem = 0, last_updated = now,
                 bucket_low = lo, bucket_high = hi\<rparr>)"

definition in_range :: "bucket \<Rightarrow> key \<Rightarrow> bool" where
  "in_range b k \<longleftrightarrow>
     key_nat (bucket_low b) \<le> key_nat k \<and> key_nat k \<le> key_nat (bucket_high b)"

subsection \<open>The linked list\<close>

definition list_remove :: "elem \<Rightarrow> bucket \<Rightarrow> bucket" where
  "list_remove e b = b\<lparr>contacts := filter (\<lambda>e'. fst e' \<noteq> fst e) (contacts b)\<rparr>"

text \<open>\<^verbatim>\<open>e := b.contacts.PushBack(c); b.elements[c.ID] = e\<close>\<close>

definition push_contact :: "contact \<Rightarrow> bucket \<Rightarrow> bucket" where
  "push_contact c b =
     (let e = (next_elem b, c)
      in b\<lparr>contacts := contacts b @ [e], next_elem := Suc (next_elem b),
           elements := AList.update (contact_id c) e (elements b)\<rparr>)"

subsection \<open>Buckets\<close>

definition update_bucket ::
  "int \<Rightarrow> (contact \<Rightarrow> bool) option \<Rightarrow> bucket \<Rightarrow> contact \<Rightarrow> key \<Rightarrow> (bool \<times> bucket) option" where
  "update_bucket now rpc b0 c self =
     (let b = b0\<lparr>last_updated := now\<rparr> in
      case map_of (elements b) (contact_id c) of
        Some e \<Rightarrow> Some (False, push_contact c (list_remove e b))
      | None \<Rightarrow>
          if int (length (contacts b)) < bucket_k b then Some (False, push_contact c b)
          else if in_range b self then Some (True, b)
          else (case contacts b of
              [] \<Rightarrow> None
            | front # rest \<Rightarrow>
                (case rpc of
                   None \<Rightarrow> None
                 | Some ping \<Rightarrow>
                     if \<not> ping (snd front)
                     then (let b1 = list_remove front b;
                               b2 = b1\<lparr>elements := AList.delete (contact_id (snd front)) (elements b1)\<rparr>
                           in Some (False, push_contact c b2))
                     else Some (False, b\<lparr>contacts := rest @ [front]\<rparr>))))"

text \<open>
  The loop of \<^verbatim>\<open>Split\<close> over the elements, in the order \<open>es\<close> in which the map is walked; the
  result of each \<^verbatim>\<open>UpdateContact\<close>, called with a nil interface, is dropped.
\<close>

fun split_loop ::
  "int \<Rightarrow> nat \<Rightarrow> key \<Rightarrow> (key \<times> elem) list \<Rightarrow> bucket \<Rightarrow> bucket \<Rightarrow> (bucket \<times> bucket) option" where
  "split_loop now mid self [] x y = Some (x, y)"
| "split_loop now mid self ((_, e) # es) x y =
     (let c = snd e in
      if key_nat (contact_id c) \<le> mid
      then (case update_bucket now None x c self of
              None \<Rightarrow> None | Some (_, x') \<Rightarrow> split_loop now mid self es x' y)
      else (case update_bucket now None y c self of
              None \<Rightarrow> None | Some (_, y') \<Rightarrow> split_loop now mid self es x y'))"

definition split_bucket ::
  "int \<Rightarrow> ((key \<times> elem) list \<Rightarrow> (key \<times> elem) list) \<Rightarrow> bucket \<Rightarrow> key \<Rightarrow> (bucket \<times> bucket) option" where
  "split_bucket now ord b self =
     (let l = key_nat (bucket_low b); h = key_nat (bucket_high b); mid = (l + h) div 2
      in case from_big_int mid of None \<Rightarrow> None | Some mid_x \<Rightarrow>
         case from_big_int (mid + 1) of None \<Rightarrow> None | Some mid_y \<Rightarrow>
         case new_bucket now (bucket_k b) (bucket_low b) mid_x of None \<Rightarrow> None | Some x \<Rightarrow>
         case new_bucket now (bucket_k b) mid_y (bucket_high b) of None \<Rightarrow> None | Some y \<Rightarrow>
           split_loop now mid self (ord (elements b)) x y)"

subsection \<open>The table\<close>

record routing_table =
  rt_k :: int
  rt_self :: contact
  rt_buckets :: "bucket list"

text \<open>
  \<^verbatim>\<open>newRoutingTable\<close> fills the first \<open>k\<close> bytes of the highest key: for a \<open>k\<close> over 32 the
  index is out of range, for a \<open>k\<close> below 1 \<^verbatim>\<open>newBucket\<close> panics.
\<close>

definition new_routing_table :: "int \<Rightarrow> contact \<Rightarrow> int \<Rightarrow> routing_table option" where
  "new_routing_table now self k =
     (if k > int key_len then None
      else case new_bucket now k zero_key (mk_key (replicate (nat k) 255 @ replicate (key_len - nat k) 0)) of
             None \<Rightarrow> None
           | Some b \<Rightarrow> Some \<lparr>rt_k = k, rt_self = self, rt_buckets = [b]\<rparr>)"

fun bucket_index :: "bucket list \<Rightarrow> key \<Rightarrow> nat option" where
  "bucket_index [] k = None"
| "bucket_index (b # bs) k = (if in_range b k then Some 0 else map_option Suc (bucket_index bs k))"

text \<open>
  \<^verbatim>\<open>append\<close>, \<^verbatim>\<open>copy\<close> and the assignments of \<open>x\<close> and \<open>y\<close> to the slots \<open>i\<close> and \<open>i + 1\<close>.
\<close>

definition insert_buckets :: "bucket list \<Rightarrow> nat \<Rightarrow> bucket \<Rightarrow> bucket \<Rightarrow> bucket list" where
  "insert_buckets bs i x y =
     (let bs1 = bs[i := x];
          bs2 = bs1 @ [x];
          bs3 = go_copy bs2 (i + 2) (drop (i + 1) bs2)
      in bs3[i + 1 := y])"

text \<open>
  \<^verbatim>\<open>updateContact\<close> calls itself again after a split; nothing in the code bounds how often,
  so the model is a partial function (\<open>None\<close> also stands for a call that never
  returns). \<open>ord n\<close> is the order in which the map is walked by the \<open>n\<close>-th split.
\<close>

partial_function (option) update_contact ::
  "(nat \<Rightarrow> (key \<times> elem) list \<Rightarrow> (key \<times> elem) list) \<Rightarrow> int \<Rightarrow> (contact \<Rightarrow> bool) \<Rightarrow> nat \<Rightarrow>
   routing_table \<Rightarrow> contact \<Rightarrow> routing_table option" where
  "update_contact ord now ping n rt c =
     Option.bind (bucket_index (rt_buckets rt) (contact_id c)) (\<lambda>i.
     Option.bind (update_bucket now (Some ping) (rt_buckets rt ! i) c (contact_id (rt_self rt))) (\<lambda>(split, b).
       let rt1 = rt\<lparr>rt_buckets := (rt_buckets rt)[i := b]\<rparr>
       in if \<not> split then Some rt1
          else Option.bind (split_bucket now (ord n) b (contact_id (rt_self rt))) (\<lambda>(x, y).
            update_contact ord now ping (Suc n)
              (rt1\<lparr>rt_buckets := insert_buckets (rt_buckets rt1) i x y\<rparr>) c)))"

text \<open>
  \<^verbatim>\<open>FindClosestNodes\<close>: \<open>ord i\<close> is the order in which the map of bucket \<open>i\<close> is walked.  The
  sort is by the distance to the target.
\<close>

definition find_closest ::
  "(nat \<Rightarrow> (key \<times> elem) list \<Rightarrow> (key \<times> elem) list) \<Rightarrow> routing_table \<Rightarrow> key \<Rightarrow> key \<Rightarrow> contact list" where
  "find_closest ord rt k exclude =
     (let cs = concat (map (\<lambda>(i, b). filter (\<lambda>c. contact_id c \<noteq> exclude) (map (snd \<circ> snd) (ord i (elements b))))
                 (enumerate 0 (rt_buckets rt)));
          cs1 = sort_key (\<lambda>c. key_xor k (contact_id c)) cs
      in if int (length cs1) > rt_k rt then take (nat (rt_k rt)) cs1 else cs1)"

subsection \<open>The invariant of a bucket\<close>

text \<open>The contacts of a bucket, the one not seen for longest first.\<close>

definition lrs :: "bucket \<Rightarrow> contact list" where
  "lrs b = map snd (contacts b)"

text \<open>
  The list and the map hold the same elements, an element has one identity and a contact one
  element, and no more than \<open>k\<close> contacts, all in the bucket's range, are held.
\<close>

definition bucket_inv :: "bucket \<Rightarrow> bool" where
  "bucket_inv b \<longleftrightarrow>
     0 < bucket_k b \<and> int (length (contacts b)) \<le> bucket_k b \<and>
     distinct (map fst (contacts b)) \<and> (\<forall>e \<in> set (contacts b). fst e < next_elem b) \<and>
     distinct (map contact_id (lrs b)) \<and> distinct (map fst (elements b)) \<and>
     set (elements b) = (\<lambda>e. (contact_id (snd e), e)) ` set (contacts b) \<and>
     (\<forall>c \<in> set (lrs b). in_range b (contact_id c)) \<and> bucket_low b \<le> bucket_high b"

lemma in_range_iff: "in_range b k \<longleftrightarrow> bucket_low b \<le> k \<and> k \<le> bucket_high b"
  by (simp add: in_range_def key_le_nat)

lemma in_range_upd [simp]:
  "in_range (b\<lparr>last_updated := t\<rparr>) = in_range b"
  "in_range (b\<lparr>contacts := es\<rparr>) = in_range b"
  "in_range (b\<lparr>elements := m\<rparr>) = in_range b"
  "in_range (b\<lparr>next_elem := n\<rparr>) = in_range b"
  by (simp_all add: in_range_def fun_eq_iff)

lemma in_range_ops [simp]:
  "in_range (list_remove e b) = in_range b" "in_range (push_contact c b) = in_range b"
  by (simp_all add: list_remove_def push_contact_def Let_def)

lemma bucket_inv_updated [simp]: "bucket_inv (b\<lparr>last_updated := t\<rparr>) = bucket_inv b"
  by (simp add: bucket_inv_def lrs_def)

lemma bucket_invI [inv_intros]:
  assumes "0 < bucket_k b" "int (length (contacts b)) \<le> bucket_k b"
    "distinct (map fst (contacts b))" "\<forall>e \<in> set (contacts b). fst e < next_elem b"
    "distinct (map contact_id (lrs b))" "distinct (map fst (elements b))"
    "set (elements b) = (\<lambda>e. (contact_id (snd e), e)) ` set (contacts b)"
    "\<forall>c \<in> set (lrs b). in_range b (contact_id c)" "bucket_low b \<le> bucket_high b"
  shows "bucket_inv b"
  using assms unfolding bucket_inv_def by iprover

lemma bucket_invD:
  assumes "bucket_inv b"
  shows "0 < bucket_k b" "int (length (contacts b)) \<le> bucket_k b"
    "distinct (map fst (contacts b))" "\<forall>e \<in> set (contacts b). fst e < next_elem b"
    "distinct (map contact_id (lrs b))" "distinct (map fst (elements b))"
    "set (elements b) = (\<lambda>e. (contact_id (snd e), e)) ` set (contacts b)"
    "\<forall>c \<in> set (lrs b). in_range b (contact_id c)" "bucket_low b \<le> bucket_high b"
  using assms unfolding bucket_inv_def by iprover+

lemma bucket_inv_new:
  "new_bucket now k lo hi = Some b \<Longrightarrow> lo \<le> hi \<Longrightarrow> bucket_inv b"
  by (auto simp: new_bucket_def bucket_inv_def lrs_def split: if_splits)

lemma map_of_elements:
  assumes "bucket_inv b"
  shows "map_of (elements b) k = Some e \<longleftrightarrow> e \<in> set (contacts b) \<and> contact_id (snd e) = k"
proof -
  have "map_of (elements b) k = Some e \<longleftrightarrow> (k, e) \<in> set (elements b)"
    by (rule map_of_distinct_iff [OF bucket_invD(6) [OF assms]])
  also have "\<dots> \<longleftrightarrow> e \<in> set (contacts b) \<and> contact_id (snd e) = k"
    unfolding bucket_invD(7) [OF assms] by auto
  finally show ?thesis .
qed

lemma map_of_elements_None:
  assumes "bucket_inv b"
  shows "map_of (elements b) k = None \<longleftrightarrow> k \<notin> contact_id ` set (lrs b)"
  unfolding map_of_eq_None_iff bucket_invD(7) [OF assms] by (force simp: lrs_def)

text \<open>The three ways in which the operations change the list and the map together.\<close>

lemma bucket_inv_push:
  assumes inv: "bucket_inv b" and fresh: "contact_id c \<notin> contact_id ` set (lrs b)"
    and room: "int (length (contacts b)) < bucket_k b" and range: "in_range b (contact_id c)"
  shows "bucket_inv (push_contact c b)" "lrs (push_contact c b) = lrs b @ [c]"
proof -
  note D = bucket_invD [OF inv]
  show lrs: "lrs (push_contact c b) = lrs b @ [c]"
    by (simp add: push_contact_def lrs_def Let_def)
  have new: "\<forall>p \<in> set (elements b). fst p \<noteq> contact_id c"
    unfolding D(7) using fresh by (auto simp: lrs_def image_iff)
  have "set (elements (push_contact c b)) =
      insert (contact_id c, (next_elem b, c)) (set (elements b))"
    using new by (auto simp: push_contact_def Let_def set_update_distinct [OF D(6)])
  also have "\<dots> = (\<lambda>e. (contact_id (snd e), e)) ` set (contacts (push_contact c b))"
    unfolding D(7) by (auto simp: push_contact_def Let_def)
  finally have el: "set (elements (push_contact c b)) =
      (\<lambda>e. (contact_id (snd e), e)) ` set (contacts (push_contact c b))" .
  have frame: "bucket_k (push_contact c b) = bucket_k b" "in_range (push_contact c b) = in_range b"
    "bucket_low (push_contact c b) = bucket_low b" "bucket_high (push_contact c b) = bucket_high b"
    "next_elem (push_contact c b) = Suc (next_elem b)"
    "contacts (push_contact c b) = contacts b @ [(next_elem b, c)]"
    by (simp_all add: push_contact_def Let_def)
  show "bucket_inv (push_contact c b)"
  proof (rule bucket_invI, goal_cases)
    case 3
    show ?case using D(3,4) by (auto simp: frame)
  next
    case 4
    show ?case using D(4) by (auto simp: frame)
  next
    case 5
    show ?case using D(5) fresh by (simp add: lrs)
  next
    case 6
    show ?case using distinct_update [OF D(6)] by (simp add: push_contact_def Let_def)
  next
    case 7
    show ?case by (rule el)
  next
    case 8
    show ?case using D(8) range by (simp add: frame lrs)
  qed (use D(1,2,9) room in \<open>simp_all add: frame\<close>)
qed

lemma list_remove_elem:
  assumes inv: "bucket_inv b" and mem: "e \<in> set (contacts b)"
  shows "lrs (list_remove e b) = filter (\<lambda>c. contact_id c \<noteq> contact_id (snd e)) (lrs b)"
    and "length (contacts (list_remove e b)) < length (contacts b)"
    and "contacts (list_remove e b) =
           filter (\<lambda>e'. contact_id (snd e') \<noteq> contact_id (snd e)) (contacts b)"
proof -
  have "inj_on fst (set (contacts b))" "inj_on (contact_id \<circ> snd) (set (contacts b))"
    using bucket_invD(3,5) [OF inv] unfolding lrs_def map_map distinct_map by iprover+
  then have id: "(fst e' = fst e) = (contact_id (snd e') = contact_id (snd e))"
    if "e' \<in> set (contacts b)" for e'
    using that mem by (metis comp_apply inj_on_def)
  show eq: "contacts (list_remove e b) =
           filter (\<lambda>e'. contact_id (snd e') \<noteq> contact_id (snd e)) (contacts b)"
    unfolding list_remove_def using id by (auto intro!: filter_cong)
  show "lrs (list_remove e b) = filter (\<lambda>c. contact_id c \<noteq> contact_id (snd e)) (lrs b)"
    by (simp add: lrs_def eq filter_map o_def)
  show "length (contacts (list_remove e b)) < length (contacts b)"
    using mem unfolding eq by (auto intro: length_filter_less)
qed

lemma bucket_inv_remove:
  assumes inv: "bucket_inv b" and mem: "e \<in> set (contacts b)"
  shows "bucket_inv ((list_remove e b)\<lparr>elements := AList.delete (contact_id (snd e)) (elements b)\<rparr>)"
    (is "bucket_inv ?b")
proof -
  note D = bucket_invD [OF inv]
  note rem = list_remove_elem [OF inv mem]
  have con: "contacts ?b = filter (\<lambda>e'. contact_id (snd e') \<noteq> contact_id (snd e)) (contacts b)"
    "lrs ?b = filter (\<lambda>c. contact_id c \<noteq> contact_id (snd e)) (lrs b)"
    using rem(1,3) by (simp_all add: lrs_def)
  have frame: "bucket_k ?b = bucket_k b" "in_range ?b = in_range b" "next_elem ?b = next_elem b"
    "bucket_low ?b = bucket_low b" "bucket_high ?b = bucket_high b"
    by (simp_all add: list_remove_def)
  show ?thesis
  proof (rule bucket_invI, goal_cases)
    case 2
    show ?case using D(2) rem(2) by (simp add: frame)
  next
    case 3
    show ?case unfolding con by (rule distinct_map_filter [OF D(3)])
  next
    case 5
    show ?case unfolding con by (rule distinct_map_filter [OF D(5)])
  next
    case 6
    show ?case using distinct_delete [OF D(6)] by simp
  next
    case 7
    have "set (elements ?b) = {p \<in> set (elements b). fst p \<noteq> contact_id (snd e)}"
      by (simp add: set_delete)
    also have "\<dots> = (\<lambda>e. (contact_id (snd e), e)) ` set (contacts ?b)"
      unfolding D(7) con(1) set_filter by (rule tagged_filter)
    finally show ?case .
  next
    case 4
    show ?case unfolding con frame using D(4) by simp
  next
    case 8
    show ?case unfolding con frame using D(8) by simp
  next
    case 1
    show ?case unfolding frame by (rule D(1))
  next
    case 9
    show ?case unfolding frame by (rule D(9))
  qed
qed

lemma push_after_remove:
  assumes inv: "bucket_inv b" and mem: "e \<in> set (contacts b)"
    and same: "contact_id c = contact_id (snd e)"
  shows "bucket_inv (push_contact c (list_remove e b))"
proof -
  let ?d = "(list_remove e b)\<lparr>elements := AList.delete (contact_id (snd e)) (elements b)\<rparr>"
  note D = bucket_invD [OF inv]
  note rem = list_remove_elem [OF inv mem]
  have rng: "in_range b (contact_id c)"
    using D(8) mem same by (auto simp: lrs_def)
  have "bucket_inv (push_contact c ?d)"
  proof (rule bucket_inv_push(1) [OF bucket_inv_remove [OF inv mem]])
    show "contact_id c \<notin> contact_id ` set (lrs ?d)"
      using rem(1) same by (auto simp: lrs_def)
    show "int (length (contacts ?d)) < bucket_k ?d"
      using D(2) rem(2) by (simp add: list_remove_def)
    show "in_range ?d (contact_id c)" using rng by (simp add: list_remove_def)
  qed
  note P = bucket_invD [OF this]
  have els: "set (AList.update (contact_id c) v (elements b)) =
      set (AList.update (contact_id c) v (AList.delete (contact_id (snd e)) (elements b)))" for v
    by (auto simp: same set_update_distinct D(6) distinct_delete set_delete)
  have "push_contact c ?d = (push_contact c (list_remove e b))
      \<lparr>elements := elements (push_contact c ?d)\<rparr>"
    by (simp add: push_contact_def Let_def list_remove_def)
  then show ?thesis
  proof (intro bucket_invI, goal_cases)
    case 6
    show ?case using distinct_update [OF D(6)] by (simp add: push_contact_def Let_def list_remove_def)
  next
    case 7
    show ?case using P(7) els by (simp add: push_contact_def Let_def list_remove_def)
  qed (use P(1-5,8,9) in \<open>simp_all add: push_contact_def Let_def list_remove_def lrs_def\<close>)
qed

subsection \<open>Updating a bucket\<close>

text \<open>
  What \<^verbatim>\<open>UpdateContact\<close> promises, over the list of contacts alone: a contact seen again moves
  to the tail, a new one is appended while there is room; a full bucket asks for a split
  (\<open>None\<close>) if it may, and keeps the least recently seen contact if it answers.
\<close>

definition lrs_update ::
  "nat \<Rightarrow> bool \<Rightarrow> (contact \<Rightarrow> bool) \<Rightarrow> contact list \<Rightarrow> contact \<Rightarrow> contact list option" where
  "lrs_update k may_split ping cs c =
     (if contact_id c \<in> contact_id ` set cs
      then Some (filter (\<lambda>c'. contact_id c' \<noteq> contact_id c) cs @ [c])
      else if length cs < k then Some (cs @ [c])
      else if may_split then None
      else if ping (hd cs) then Some (tl cs @ [hd cs])
      else Some (tl cs @ [c]))"

definition same_range :: "bucket \<Rightarrow> bucket \<Rightarrow> bool" where
  "same_range b b' \<longleftrightarrow>
     bucket_k b' = bucket_k b \<and> bucket_low b' = bucket_low b \<and> bucket_high b' = bucket_high b"

lemma same_range_in_range: "same_range b b' \<Longrightarrow> in_range b' = in_range b"
  by (auto simp: same_range_def in_range_def)

lemma same_range_ops [simp]:
  "same_range b (push_contact c b')  = same_range b b'" "same_range b (list_remove e b') = same_range b b'"
  "same_range b (b'\<lparr>elements := m\<rparr>) = same_range b b'"
  "same_range b (b'\<lparr>contacts := l\<rparr>) = same_range b b'"
  "same_range b (b'\<lparr>last_updated := t\<rparr>) = same_range b b'" "same_range b b"
  by (simp_all add: same_range_def push_contact_def list_remove_def Let_def)

lemma last_updated_ops [simp]:
  "last_updated (push_contact c b) = last_updated b" "last_updated (list_remove e b) = last_updated b"
  by (simp_all add: push_contact_def list_remove_def Let_def)

lemma lrs_updated [simp]:
  "lrs (b\<lparr>last_updated := t\<rparr>) = lrs b" "lrs (b\<lparr>elements := m\<rparr>) = lrs b"
  "lrs (push_contact c b) = lrs b @ [c]"
  by (simp_all add: lrs_def push_contact_def Let_def)

lemma lrs_length: "length (lrs b) = length (contacts b)"
  by (simp add: lrs_def)

lemma bucket_inv_rotate:
  assumes inv: "bucket_inv b" and con: "contacts b = front # rest"
  shows "bucket_inv (b\<lparr>contacts := rest @ [front]\<rparr>)"
  using bucket_invD [OF inv] by (intro bucket_invI) (auto simp: con lrs_def)

lemma filter_first:
  assumes "distinct (map f (x # xs))"
  shows "filter (\<lambda>y. f y \<noteq> f x) (x # xs) = xs"
proof -
  have "y \<in> set xs \<Longrightarrow> f y \<noteq> f x" for y using assms by (auto simp: image_iff)
  then show ?thesis by simp
qed

lemma update_bucket_full:
  assumes inv: "bucket_inv b" and new: "contact_id c \<notin> contact_id ` set (lrs b)"
    and range: "in_range b (contact_id c)" and full: "\<not> int (length (contacts b)) < bucket_k b"
    and away: "\<not> in_range b self"
  obtains b' where
    "update_bucket now (Some ping) b c self = Some (False, b')" "bucket_inv b'" "same_range b b'"
    "last_updated b' = now" "lrs b' = (if ping (hd (lrs b)) then tl (lrs b) @ [hd (lrs b)] else tl (lrs b) @ [c])"
proof -
  let ?b = "b\<lparr>last_updated := now\<rparr>"
  have none: "map_of (elements b) (contact_id c) = None"
    using map_of_elements_None [OF inv] new by simp
  obtain front rest where con: "contacts b = front # rest"
    using full bucket_invD(1) [OF inv] by (cases "contacts b") auto
  have lrs: "lrs b = snd front # map snd rest" by (simp add: lrs_def con)
  show thesis
  proof (cases "ping (snd front)")
    case True
    show thesis
    proof (rule that)
      show "update_bucket now (Some ping) b c self = Some (False, ?b\<lparr>contacts := rest @ [front]\<rparr>)"
        using none full away True by (simp add: update_bucket_def con)
      show "bucket_inv (?b\<lparr>contacts := rest @ [front]\<rparr>)"
        by (rule bucket_inv_rotate) (use inv con in simp_all)
      show "lrs (?b\<lparr>contacts := rest @ [front]\<rparr>) =
          (if ping (hd (lrs b)) then tl (lrs b) @ [hd (lrs b)] else tl (lrs b) @ [c])"
        using True by (simp add: lrs) (simp add: lrs_def)
    qed simp_all
  next
    case False
    have inv': "bucket_inv ?b" and mem: "front \<in> set (contacts ?b)" using inv con by simp_all
    let ?d = "(list_remove front ?b)\<lparr>elements := AList.delete (contact_id (snd front)) (elements ?b)\<rparr>"
    have d: "lrs ?d = tl (lrs b)"
      using list_remove_elem(1) [OF inv' mem] filter_first [of contact_id "snd front" "map snd rest"]
        bucket_invD(5) [OF inv] by (simp add: lrs)
    have inv_d: "bucket_inv ?d" by (rule bucket_inv_remove [OF inv' mem])
    show thesis
    proof (rule that)
      show "update_bucket now (Some ping) b c self = Some (False, push_contact c ?d)"
        using none full away False by (simp add: update_bucket_def con Let_def list_remove_def)
      show "bucket_inv (push_contact c ?d)"
      proof (rule bucket_inv_push(1) [OF inv_d])
        show "contact_id c \<notin> contact_id ` set (lrs ?d)" unfolding d using new by (simp add: lrs)
        show "int (length (contacts ?d)) < bucket_k ?d"
          using list_remove_elem(2) [OF inv' mem] bucket_invD(2) [OF inv]
          by (simp add: list_remove_def)
        show "in_range ?d (contact_id c)" using range by simp
      qed
      show "lrs (push_contact c ?d) =
          (if ping (hd (lrs b)) then tl (lrs b) @ [hd (lrs b)] else tl (lrs b) @ [c])"
        using False d by (simp add: lrs)
    qed simp_all
  qed
qed

lemma update_bucket_found:
  assumes inv: "bucket_inv b" and old: "contact_id c \<in> contact_id ` set (lrs b)"
  obtains b' where
    "update_bucket now rpc b c self = Some (False, b')" "bucket_inv b'" "same_range b b'"
    "last_updated b' = now" "lrs b' = filter (\<lambda>c'. contact_id c' \<noteq> contact_id c) (lrs b) @ [c]"
proof -
  let ?b = "b\<lparr>last_updated := now\<rparr>"
  have inv': "bucket_inv ?b" using inv by simp
  obtain e where e: "map_of (elements ?b) (contact_id c) = Some e"
    using old map_of_elements_None [OF inv] by (cases "map_of (elements b) (contact_id c)") auto
  then have mem: "e \<in> set (contacts ?b)" and id: "contact_id (snd e) = contact_id c"
    using map_of_elements [OF inv'] by blast+
  show thesis
  proof (rule that)
    show "update_bucket now rpc b c self = Some (False, push_contact c (list_remove e ?b))"
      using e by (simp add: update_bucket_def)
    show "bucket_inv (push_contact c (list_remove e ?b))"
      by (rule push_after_remove [OF inv' mem]) (simp add: id)
    show "lrs (push_contact c (list_remove e ?b)) =
        filter (\<lambda>c'. contact_id c' \<noteq> contact_id c) (lrs b) @ [c]"
      using list_remove_elem(1) [OF inv' mem] id by simp
  qed simp_all
qed

lemma update_bucket_room:
  assumes inv: "bucket_inv b" and new: "contact_id c \<notin> contact_id ` set (lrs b)"
    and range: "in_range b (contact_id c)" and room: "int (length (contacts b)) < bucket_k b"
  obtains b' where
    "update_bucket now rpc b c self = Some (False, b')" "bucket_inv b'" "same_range b b'"
    "last_updated b' = now" "lrs b' = lrs b @ [c]"
proof -
  let ?b = "b\<lparr>last_updated := now\<rparr>"
  have none: "map_of (elements b) (contact_id c) = None"
    using map_of_elements_None [OF inv] new by simp
  show thesis
  proof (rule that)
    show "update_bucket now rpc b c self = Some (False, push_contact c ?b)"
      using none room by (simp add: update_bucket_def)
    show "bucket_inv (push_contact c ?b)"
      by (rule bucket_inv_push(1)) (use inv new range room in simp_all)
  qed simp_all
qed

lemma update_bucket_split:
  assumes inv: "bucket_inv b" and new: "contact_id c \<notin> contact_id ` set (lrs b)"
    and full: "\<not> int (length (contacts b)) < bucket_k b" and self: "in_range b self"
  shows "update_bucket now rpc b c self = Some (True, b\<lparr>last_updated := now\<rparr>)"
proof -
  have none: "map_of (elements b) (contact_id c) = None"
    using map_of_elements_None [OF inv] new by simp
  show ?thesis using none full self by (simp add: update_bucket_def)
qed

text \<open>The bucket implements the list.\<close>

lemma update_bucket_refines:
  assumes inv: "bucket_inv b" and range: "in_range b (contact_id c)"
  obtains r b' where
    "update_bucket now (Some ping) b c self = Some (r, b')" "bucket_inv b'" "same_range b b'"
    "last_updated b' = now"
    "lrs_update (nat (bucket_k b)) (in_range b self) ping (lrs b) c = (if r then None else Some (lrs b'))"
    "r \<Longrightarrow> b' = b\<lparr>last_updated := now\<rparr>"
proof -
  have len: "length (lrs b) < nat (bucket_k b) \<longleftrightarrow> int (length (contacts b)) < bucket_k b"
    by (auto simp: lrs_length)
  consider (found) "contact_id c \<in> contact_id ` set (lrs b)"
    | (room) "contact_id c \<notin> contact_id ` set (lrs b)" "int (length (contacts b)) < bucket_k b"
    | (split) "contact_id c \<notin> contact_id ` set (lrs b)" "\<not> int (length (contacts b)) < bucket_k b" "in_range b self"
    | (full) "contact_id c \<notin> contact_id ` set (lrs b)" "\<not> int (length (contacts b)) < bucket_k b" "\<not> in_range b self"
    by blast
  then show thesis
  proof cases
    case found
    obtain b' where b': "update_bucket now (Some ping) b c self = Some (False, b')" "bucket_inv b'"
      "same_range b b'" "last_updated b' = now"
      "lrs b' = filter (\<lambda>c'. contact_id c' \<noteq> contact_id c) (lrs b) @ [c]"
      by (rule update_bucket_found [OF inv found])
    show thesis by (rule that [OF b'(1-4)]) (use found b'(5) in \<open>simp_all add: lrs_update_def\<close>)
  next
    case room
    obtain b' where b': "update_bucket now (Some ping) b c self = Some (False, b')" "bucket_inv b'"
      "same_range b b'" "last_updated b' = now" "lrs b' = lrs b @ [c]"
      by (rule update_bucket_room [OF inv room(1) range room(2)])
    show thesis by (rule that [OF b'(1-4)]) (use room len b'(5) in \<open>simp_all add: lrs_update_def\<close>)
  next
    case split
    show thesis
      by (rule that [OF update_bucket_split [OF inv split]])
        (use split len inv in \<open>simp_all add: lrs_update_def\<close>)
  next
    case full
    obtain b' where b': "update_bucket now (Some ping) b c self = Some (False, b')" "bucket_inv b'"
      "same_range b b'" "last_updated b' = now"
      "lrs b' = (if ping (hd (lrs b)) then tl (lrs b) @ [hd (lrs b)] else tl (lrs b) @ [c])"
      by (rule update_bucket_full [OF inv full(1) range full(2,3)])
    show thesis by (rule that [OF b'(1-4)]) (use full len b'(5) in \<open>simp_all add: lrs_update_def\<close>)
  qed
qed

subsection \<open>Splitting a bucket\<close>

abbreviation entry_contact :: "key \<times> elem \<Rightarrow> contact" where
  "entry_contact p \<equiv> snd (snd p)"

text \<open>
  While the loop runs both halves have room for everything that is left, so the nil
  interface is never called.
\<close>

lemma split_loop_spec:
  assumes "bucket_inv x" "bucket_inv y"
    and "distinct (map contact_id (map entry_contact es))"
    and "\<forall>p \<in> set es. contact_id (entry_contact p) \<notin> contact_id ` (set (lrs x) \<union> set (lrs y))"
    and "\<forall>p \<in> set es. (if key_nat (contact_id (entry_contact p)) \<le> mid
           then in_range x (contact_id (entry_contact p)) else in_range y (contact_id (entry_contact p)))"
    and "int (length (contacts x) + length es) \<le> bucket_k x"
    and "int (length (contacts y) + length es) \<le> bucket_k y"
  obtains x' y' where "split_loop now mid self es x y = Some (x', y')"
    "bucket_inv x'" "bucket_inv y'" "same_range x x'" "same_range y y'"
    "lrs x' = lrs x @ filter (\<lambda>c. key_nat (contact_id c) \<le> mid) (map entry_contact es)"
    "lrs y' = lrs y @ filter (\<lambda>c. \<not> key_nat (contact_id c) \<le> mid) (map entry_contact es)"
  using assms
proof (induction es arbitrary: x y thesis)
  case Nil
  show ?case by (rule Nil(1)) (use Nil(2,3) in simp_all)
next
  case (Cons p es)
  obtain k i c where p: "p = (k, (i, c))" by (metis surj_pair)
  note prems = Cons.prems(2-8) [unfolded p]
  have fresh: "contact_id c \<notin> contact_id ` set (lrs x)" "contact_id c \<notin> contact_id ` set (lrs y)"
    using prems(4) by auto
  have rest: "distinct (map contact_id (map entry_contact es))"
    "\<forall>q \<in> set es. contact_id (entry_contact q) \<noteq> contact_id c"
    using prems(3) by (force simp: image_iff)+
  show ?case
  proof (cases "key_nat (contact_id c) \<le> mid")
    case True
    have rng: "in_range x (contact_id c)" and room: "int (length (contacts x)) < bucket_k x"
      using prems(5,6) True by simp_all
    obtain x1 where x1: "update_bucket now None x c self = Some (False, x1)" "bucket_inv x1"
      "same_range x x1" "last_updated x1 = now" "lrs x1 = lrs x @ [c]"
      by (rule update_bucket_room [OF prems(1) fresh(1) rng room])
    have len: "length (contacts x1) = Suc (length (contacts x))"
      using x1(5) by (metis length_append_singleton lrs_length)
    obtain x' y' where r: "split_loop now mid self es x1 y = Some (x', y')"
      "bucket_inv x'" "bucket_inv y'" "same_range x1 x'" "same_range y y'"
      "lrs x' = lrs x1 @ filter (\<lambda>c. key_nat (contact_id c) \<le> mid) (map entry_contact es)"
      "lrs y' = lrs y @ filter (\<lambda>c. \<not> key_nat (contact_id c) \<le> mid) (map entry_contact es)"
    proof (rule Cons.IH [of x1 y])
      show "\<forall>q \<in> set es. contact_id (entry_contact q) \<notin> contact_id ` (set (lrs x1) \<union> set (lrs y))"
        using prems(4) rest(2) x1(5) by auto
      show "\<forall>q \<in> set es. (if key_nat (contact_id (entry_contact q)) \<le> mid
           then in_range x1 (contact_id (entry_contact q)) else in_range y (contact_id (entry_contact q)))"
        using prems(5) same_range_in_range [OF x1(3)] by simp
      show "int (length (contacts x1) + length es) \<le> bucket_k x1"
        using prems(6) len x1(3) by (simp add: same_range_def)
    qed (use prems(2,7) rest x1(2) in simp_all)
    show ?thesis
      by (rule Cons.prems(1) [of x' y'])
        (use r x1 True in \<open>simp_all add: p same_range_def\<close>)
  next
    case False
    have rng: "in_range y (contact_id c)" and room: "int (length (contacts y)) < bucket_k y"
      using prems(5,7) False by simp_all
    obtain y1 where y1: "update_bucket now None y c self = Some (False, y1)" "bucket_inv y1"
      "same_range y y1" "last_updated y1 = now" "lrs y1 = lrs y @ [c]"
      by (rule update_bucket_room [OF prems(2) fresh(2) rng room])
    have len: "length (contacts y1) = Suc (length (contacts y))"
      using y1(5) by (metis length_append_singleton lrs_length)
    obtain x' y' where r: "split_loop now mid self es x y1 = Some (x', y')"
      "bucket_inv x'" "bucket_inv y'" "same_range x x'" "same_range y1 y'"
      "lrs x' = lrs x @ filter (\<lambda>c. key_nat (contact_id c) \<le> mid) (map entry_contact es)"
      "lrs y' = lrs y1 @ filter (\<lambda>c. \<not> key_nat (contact_id c) \<le> mid) (map entry_contact es)"
    proof (rule Cons.IH [of x y1])
      show "\<forall>q \<in> set es. contact_id (entry_contact q) \<notin> contact_id ` (set (lrs x) \<union> set (lrs y1))"
        using prems(4) rest(2) y1(5) by auto
      show "\<forall>q \<in> set es. (if key_nat (contact_id (entry_contact q)) \<le> mid
           then in_range x (contact_id (entry_contact q)) else in_range y1 (contact_id (entry_contact q)))"
        using prems(5) same_range_in_range [OF y1(3)] by simp
      show "int (length (contacts y1) + length es) \<le> bucket_k y1"
        using prems(7) len y1(3) by (simp add: same_range_def)
    qed (use prems(1,6) rest y1(2) in simp_all)
    show ?thesis
      by (rule Cons.prems(1) [of x' y'])
        (use r y1 False in \<open>simp_all add: p same_range_def\<close>)
  qed
qed

lemma elements_contacts:
  assumes inv: "bucket_inv b"
  shows "mset (map entry_contact (elements b)) = mset (lrs b)"
proof -
  have d: "distinct (elements b)" "distinct (contacts b)"
    using bucket_invD(3,6) [OF inv] by (simp_all add: distinct_map)
  have inj: "inj_on (\<lambda>e. (contact_id (snd e), e)) (set (contacts b))" by (rule inj_onI) simp
  have "mset (elements b) = mset (map (\<lambda>e. (contact_id (snd e), e)) (contacts b))"
    by (rule iffD1 [OF set_eq_iff_mset_eq_distinct])
      (use d inj bucket_invD(7) [OF inv] in \<open>simp_all add: distinct_map\<close>)
  from arg_cong [OF this, of "image_mset entry_contact"] show ?thesis
    by (simp add: lrs_def image_mset.compositionality o_def flip: mset_map)
qed

lemma split_bucket_spec:
  assumes inv: "bucket_inv b" and ord: "iteration_order ord" and wide: "bucket_low b < bucket_high b"
  obtains x y where "split_bucket now ord b self = Some (x, y)" "bucket_inv x" "bucket_inv y"
    "bucket_k x = bucket_k b" "bucket_k y = bucket_k b"
    "bucket_low x = bucket_low b" "bucket_high y = bucket_high b"
    "key_nat (bucket_high x) = (key_nat (bucket_low b) + key_nat (bucket_high b)) div 2"
    "key_nat (bucket_low y) = Suc (key_nat (bucket_high x))"
    "lrs x = filter (in_range x \<circ> contact_id) (map entry_contact (ord (elements b)))"
    "lrs y = filter (in_range y \<circ> contact_id) (map entry_contact (ord (elements b)))"
    "mset (lrs x) + mset (lrs y) = mset (lrs b)"
proof -
  note D = bucket_invD [OF inv]
  let ?l = "key_nat (bucket_low b)" and ?h = "key_nat (bucket_high b)"
  let ?mid = "(?l + ?h) div 2" and ?es = "ord (elements b)"
  have lh: "?l < ?h" using wide by (simp add: key_less_nat)
  then have mid: "?l \<le> ?mid" "Suc ?mid \<le> ?h" by linarith+
  have bound: "?h < 2 ^ 256" by (rule key_nat_bound)
  obtain kx where kx: "from_big_int ?mid = Some kx" "key_nat kx = ?mid"
    using from_big_int_Some [of ?mid] mid bound by auto
  obtain ky where ky: "from_big_int (?mid + 1) = Some ky" "key_nat ky = Suc ?mid"
    using from_big_int_Some [of "?mid + 1"] mid bound by auto
  obtain x where x: "new_bucket now (bucket_k b) (bucket_low b) kx = Some x"
    "bucket_k x = bucket_k b" "bucket_low x = bucket_low b" "bucket_high x = kx" "contacts x = []"
    using D(1) by (simp add: new_bucket_def)
  obtain y where y: "new_bucket now (bucket_k b) ky (bucket_high b) = Some y"
    "bucket_k y = bucket_k b" "bucket_low y = ky" "bucket_high y = bucket_high b" "contacts y = []"
    using D(1) by (simp add: new_bucket_def)
  have mset: "mset (map entry_contact ?es) = mset (lrs b)"
    using elements_contacts [OF inv] iteration_order_mset [OF ord, of "elements b"] by simp
  have set_es: "set (map entry_contact ?es) = set (lrs b)" using mset by (rule mset_eq_setD)
  have len: "length ?es = length (contacts b)"
    using arg_cong [OF mset, of size] by (simp add: lrs_length)
  have dist: "distinct (map contact_id (map entry_contact ?es))"
    using D(5) mset by (metis mset_eq_imp_distinct_iff mset_map)
  have rng: "in_range b (contact_id c)" if "c \<in> set (map entry_contact ?es)" for c
    using D(8) that unfolding set_es by blast
  have half: "in_range x (contact_id c) = (key_nat (contact_id c) \<le> ?mid)"
    "in_range y (contact_id c) = (\<not> key_nat (contact_id c) \<le> ?mid)"
    if "c \<in> set (map entry_contact ?es)" for c
    using rng [OF that] by (auto simp: in_range_def x y kx ky)
  have inv_xy: "bucket_inv x" "bucket_inv y"
    by (rule bucket_inv_new [OF x(1)], use mid kx(2) in \<open>simp add: key_le_nat\<close>)
      (rule bucket_inv_new [OF y(1)], use mid ky(2) in \<open>simp add: key_le_nat\<close>)
  obtain x' y' where r: "split_loop now ?mid self ?es x y = Some (x', y')"
    "bucket_inv x'" "bucket_inv y'" "same_range x x'" "same_range y y'"
    "lrs x' = lrs x @ filter (\<lambda>c. key_nat (contact_id c) \<le> ?mid) (map entry_contact ?es)"
    "lrs y' = lrs y @ filter (\<lambda>c. \<not> key_nat (contact_id c) \<le> ?mid) (map entry_contact ?es)"
  proof (rule split_loop_spec [OF inv_xy dist])
    show "\<forall>p \<in> set ?es. (if key_nat (contact_id (entry_contact p)) \<le> ?mid
        then in_range x (contact_id (entry_contact p)) else in_range y (contact_id (entry_contact p)))"
      using half by auto
  qed (use D(2) len x y in \<open>simp_all add: lrs_def\<close>)
  note R = same_range_in_range [OF r(4)] same_range_in_range [OF r(5)]
  have lrs: "lrs x' = filter (in_range x' \<circ> contact_id) (map entry_contact ?es)"
    "lrs y' = filter (in_range y' \<circ> contact_id) (map entry_contact ?es)"
    unfolding r(6,7) R using half by (auto simp: lrs_def x y intro!: filter_cong)
  show thesis
  proof (rule that)
    show "split_bucket now ord b self = Some (x', y')"
      using kx(1) ky(1) x(1) y(1) r(1) by (simp add: split_bucket_def Let_def)
    have "mset (lrs x') + mset (lrs y') = mset (map entry_contact ?es)"
      unfolding r(6,7) by (simp add: lrs_def x y mset_filter flip: multiset_partition)
    then show "mset (lrs x') + mset (lrs y') = mset (lrs b)" using mset by simp
  qed (use r lrs in \<open>simp_all add: same_range_def x y kx ky\<close>)
qed

subsection \<open>The invariant of the table\<close>

text \<open>The buckets split the keys from \<open>l\<close> up to, not including, \<open>h\<close>.\<close>

fun tiles :: "nat \<Rightarrow> nat \<Rightarrow> bucket list \<Rightarrow> bool" where
  "tiles l h [] \<longleftrightarrow> l = h"
| "tiles l h (b # bs) \<longleftrightarrow> key_nat (bucket_low b) = l \<and> l \<le> key_nat (bucket_high b) \<and>
     tiles (Suc (key_nat (bucket_high b))) h bs"

definition table_contacts :: "routing_table \<Rightarrow> contact list" where
  "table_contacts rt = concat (map lrs (rt_buckets rt))"

text \<open>\<open>hi\<close> is the highest key that has a bucket.\<close>

definition table_inv :: "nat \<Rightarrow> routing_table \<Rightarrow> bool" where
  "table_inv hi rt \<longleftrightarrow>
     0 < rt_k rt \<and> tiles 0 (Suc hi) (rt_buckets rt) \<and>
     (\<forall>b \<in> set (rt_buckets rt). bucket_inv b \<and> bucket_k b = rt_k rt)"

lemma tiles_append: "tiles l h (xs @ ys) \<longleftrightarrow> (\<exists>m. tiles l m xs \<and> tiles m h ys)"
  by (induction xs arbitrary: l) auto

lemma tiles_le: "tiles l h bs \<Longrightarrow> l \<le> h"
  by (induction bs arbitrary: l) fastforce+

lemma tiles_outside:
  "tiles l h bs \<Longrightarrow> b \<in> set bs \<Longrightarrow> in_range b k \<Longrightarrow> l \<le> key_nat k \<and> key_nat k < h"
proof (induction bs arbitrary: l)
  case (Cons a bs)
  then show ?case
    using tiles_le [of "Suc (key_nat (bucket_high a))" h bs] by (fastforce simp: in_range_def)
qed simp

lemma tiles_disjoint:
  assumes "tiles l h (xs @ b # ys)" "in_range b k" "b' \<in> set xs \<union> set ys"
  shows "\<not> in_range b' k"
proof -
  obtain m where "tiles l m xs" "tiles m h (b # ys)" using assms(1) by (auto simp: tiles_append)
  then show ?thesis
    using assms(2,3) tiles_outside [of l m xs b' k]
      tiles_outside [of "Suc (key_nat (bucket_high b))" h ys b' k]
    by (auto simp: in_range_def)
qed

lemma bucket_index_Some:
  "bucket_index bs k = Some i \<Longrightarrow>
    i < length bs \<and> in_range (bs ! i) k \<and> bs = take i bs @ bs ! i # drop (Suc i) bs"
  by (induction bs arbitrary: i) (auto split: if_splits)

lemma bucket_index_tiles:
  "tiles l h bs \<Longrightarrow> l \<le> key_nat k \<Longrightarrow> bucket_index bs k \<noteq> None \<longleftrightarrow> key_nat k < h"
proof (induction bs arbitrary: l)
  case (Cons b bs)
  show ?case
  proof (cases "in_range b k")
    case True
    then show ?thesis using tiles_outside [OF Cons.prems(1), of b k] by simp
  next
    case False
    then show ?thesis
      using Cons.IH [of "Suc (key_nat (bucket_high b))"] Cons.prems by (auto simp: in_range_def)
  qed
qed simp

lemma insert_buckets_eq:
  "i < length bs \<Longrightarrow> insert_buckets bs i x y = take i bs @ x # y # drop (Suc i) bs"
  using go_copy_shift [of "Suc i" "bs[i := x]" x y]
  by (simp add: insert_buckets_def Let_def upd_conv_take_nth_drop)

lemma table_contacts_distinct:
  assumes "table_inv hi rt"
  shows "distinct (map contact_id (table_contacts rt))"
proof -
  have "distinct (map contact_id (concat (map lrs bs))) \<and>
      (\<forall>c \<in> set (concat (map lrs bs)). l \<le> key_nat (contact_id c))"
    if "tiles l h bs" "\<forall>b \<in> set bs. bucket_inv b" for l h bs
    using that
  proof (induction bs arbitrary: l)
    case (Cons b bs)
    let ?m = "Suc (key_nat (bucket_high b))"
    have IH: "distinct (map contact_id (concat (map lrs bs)))"
      "\<forall>c \<in> set (concat (map lrs bs)). ?m \<le> key_nat (contact_id c)"
      using Cons.IH [of ?m] Cons.prems by auto
    have b: "\<forall>c \<in> set (lrs b). in_range b (contact_id c)" "distinct (map contact_id (lrs b))"
      using bucket_invD(5,8) [of b] Cons.prems(2) by simp_all
    have "contact_id ` set (lrs b) \<inter> contact_id ` set (concat (map lrs bs)) = {}"
      using IH(2) b(1) unfolding in_range_def by fastforce
    moreover have "\<forall>c \<in> set (concat (map lrs bs)). l \<le> key_nat (contact_id c)"
      using IH(2) Cons.prems(1) by fastforce
    ultimately show ?case
      using IH(1) b Cons.prems(1) by (auto simp: in_range_def)
  qed simp
  then show ?thesis using assms by (auto simp: table_inv_def table_contacts_def)
qed

text \<open>
  What one update does to the contacts of the table: the contact seen again is kept once, with
  its latest address; a new one is added, or stands for one that did not answer, or is
  dropped in favour of one that did.  The last two happen only in a full bucket away from
  the node's own key.
\<close>

definition full_away :: "routing_table \<Rightarrow> key \<Rightarrow> contact \<Rightarrow> bool" where
  "full_away rt k old \<longleftrightarrow> (\<exists>b \<in> set (rt_buckets rt). in_range b k \<and>
     in_range b (contact_id old) \<and> int (length (lrs b)) = rt_k rt \<and>
     \<not> in_range b (contact_id (rt_self rt)))"

definition learned ::
  "(contact \<Rightarrow> bool) \<Rightarrow> contact \<Rightarrow> routing_table \<Rightarrow> routing_table \<Rightarrow> bool" where
  "learned ping c rt rt' \<longleftrightarrow>
     (let M = mset (table_contacts rt); M' = mset (table_contacts rt') in
      if contact_id c \<in> contact_id ` set_mset M
      then M' = add_mset c (filter_mset (\<lambda>c'. contact_id c' \<noteq> contact_id c) M)
      else M' = add_mset c M \<or>
        (\<exists>old \<in># M. full_away rt' (contact_id c) old \<and>
           M' = (if ping old then M else add_mset c (M - {#old#}))))"

lemma learned_subset:
  assumes "learned ping c rt rt'"
  shows "set (table_contacts rt') \<subseteq> insert c (set (table_contacts rt))"
proof -
  define M M' where "M = mset (table_contacts rt)" "M' = mset (table_contacts rt')"
  have "set_mset M' \<subseteq> insert c (set_mset M)"
    using assms unfolding learned_def Let_def M_M'_def [symmetric]
    by (auto split: if_splits dest: in_diffD)
  then show ?thesis by (simp add: M_M'_def)
qed

subsection \<open>Updating the table\<close>

lemma lrs_update_mset:
  assumes up: "lrs_update k may_split ping cs c = Some cs'" and pos: "0 < k"
  shows "if contact_id c \<in> contact_id ` set cs
         then mset cs' = add_mset c (filter_mset (\<lambda>c'. contact_id c' \<noteq> contact_id c) (mset cs))
         else mset cs' = add_mset c (mset cs) \<or>
           (\<not> may_split \<and> k \<le> length cs \<and> length cs' = length cs \<and>
            (\<exists>old \<in> set cs. mset cs' = (if ping old then mset cs else add_mset c (mset cs - {#old#}))))"
proof (cases "contact_id c \<in> contact_id ` set cs")
  case True
  then show ?thesis using up by (auto simp: lrs_update_def mset_filter)
next
  case new: False
  show ?thesis
  proof (cases "length cs < k")
    case True
    then show ?thesis using new up by (auto simp: lrs_update_def)
  next
    case False
    with pos obtain d ds where cs: "cs = d # ds" by (cases cs) auto
    have cs': "cs' = (if ping d then ds @ [d] else ds @ [c])" and "\<not> may_split"
      using up new False by (auto simp: lrs_update_def cs split: if_splits)
    then show ?thesis using new False by (auto simp: cs)
  qed
qed

lemma filter_mset_id: "\<forall>x \<in># A. P x \<Longrightarrow> filter_mset P A = A"
  by (induction A) auto

text \<open>The bucket of a key holds all contacts of the table that have this key.\<close>

lemma own_bucket:
  assumes inv: "table_inv hi rt" and bs: "rt_buckets rt = xs @ b # ys" and rng: "in_range b k"
  shows "k \<notin> contact_id ` set (concat (map lrs (xs @ ys)))"
proof
  assume "k \<in> contact_id ` set (concat (map lrs (xs @ ys)))"
  then obtain b' c where b': "b' \<in> set xs \<union> set ys" "c \<in> set (lrs b')" "contact_id c = k" by auto
  then have "bucket_inv b'" using inv bs by (auto simp: table_inv_def)
  then have "in_range b' k" using b' bucket_invD(8) by blast
  then show False
    using tiles_disjoint [of 0 "Suc hi" xs b ys k b'] inv b'(1) rng by (simp add: table_inv_def bs)
qed

lemma learned_no_split:
  assumes inv: "table_inv hi rt" and bs: "rt_buckets rt = xs @ b # ys"
    and rng: "in_range b (contact_id c)"
    and b': "bucket_inv b'" "same_range b b'"
    and up: "lrs_update (nat (bucket_k b)) (in_range b (contact_id (rt_self rt))) ping (lrs b) c = Some (lrs b')"
    and rt': "rt' = rt\<lparr>rt_buckets := xs @ b' # ys\<rparr>"
  shows "table_inv hi rt'" "learned ping c rt rt'"
proof -
  have b: "bucket_inv b" "bucket_k b = rt_k rt" using inv bs by (auto simp: table_inv_def)
  show "table_inv hi rt'"
    using inv b' unfolding rt' table_inv_def bs by (auto simp: tiles_append same_range_def)
  let ?A = "mset (concat (map lrs (xs @ ys)))"
  have M: "mset (table_contacts rt) = ?A + mset (lrs b)"
    "mset (table_contacts rt') = ?A + mset (lrs b')"
    by (simp_all add: table_contacts_def bs rt')
  have away: "contact_id c \<notin> contact_id ` set_mset ?A"
    using own_bucket [OF inv bs rng] by simp
  have keep: "filter_mset (\<lambda>c'. contact_id c' \<noteq> contact_id c) ?A = ?A"
    by (rule filter_mset_id) (use away in \<open>metis image_eqI\<close>)
  have len: "length (lrs b) \<le> nat (rt_k rt)"
    using bucket_invD(1,2) [OF b(1)] b(2) by (simp add: lrs_length)
  note step = lrs_update_mset [OF up]
  have pos: "0 < nat (bucket_k b)" using bucket_invD(1) [OF b(1)] by simp
  show "learned ping c rt rt'"
  proof (cases "contact_id c \<in> contact_id ` set (lrs b)")
    case True
    then have "mset (lrs b') = add_mset c (filter_mset (\<lambda>c'. contact_id c' \<noteq> contact_id c) (mset (lrs b)))"
      using step [OF pos] by simp
    then show ?thesis using True keep by (simp add: learned_def M image_Un)
  next
    case False
    then have new: "contact_id c \<notin> contact_id ` set_mset (?A + mset (lrs b))"
      using away by auto
    from step [OF pos] False consider (add) "mset (lrs b') = add_mset c (mset (lrs b))"
      | (full) old where "\<not> in_range b (contact_id (rt_self rt))" "nat (bucket_k b) \<le> length (lrs b)"
         "length (lrs b') = length (lrs b)" "old \<in> set (lrs b)"
         "mset (lrs b') = (if ping old then mset (lrs b) else add_mset c (mset (lrs b) - {#old#}))"
      by auto
    then show ?thesis
    proof cases
      case add
      then show ?thesis using new unfolding learned_def M by simp
    next
      case full
      have "int (length (lrs b')) = rt_k rt"
        using full(2,3) len b(2) bucket_invD(1) [OF b(1)] by linarith
      moreover have "in_range b (contact_id old)" using bucket_invD(8) [OF b(1)] full(4) by blast
      ultimately have "full_away rt' (contact_id c) old"
        unfolding full_away_def rt' using rng full(1) same_range_in_range [OF b'(2)]
        by (intro bexI [of _ b']) simp_all
      moreover have "?A + mset (lrs b') = (if ping old then ?A + mset (lrs b)
          else add_mset c (?A + mset (lrs b) - {#old#}))"
        unfolding full(5) diff_union_single_conv [OF iffD2 [OF set_mset_mset [THEN eqset_imp_iff] full(4)]]
        by (cases "ping old") (simp_all only: if_True if_False union_mset_add_mset_right)
      moreover have "old \<in># ?A + mset (lrs b)" using full(4) by simp
      ultimately show ?thesis
        unfolding learned_def M Let_def if_not_P [OF new] by (intro disjI2 bexI [of _ old] conjI)
    qed
  qed
qed

lemma full_bucket_wide:
  assumes inv: "bucket_inv b" and rng: "in_range b (contact_id c)"
    and new: "contact_id c \<notin> contact_id ` set (lrs b)" and ne: "lrs b \<noteq> []"
  shows "bucket_low b < bucket_high b"
proof (rule ccontr)
  assume "\<not> bucket_low b < bucket_high b"
  then have "in_range b k \<Longrightarrow> k = bucket_low b" for k
    by (auto simp: in_range_iff)
  moreover have "in_range b (contact_id (hd (lrs b)))"
    using bucket_invD(8) [OF inv] ne by simp
  ultimately have "contact_id (hd (lrs b)) = contact_id c" using rng by metis
  then show False using new ne by (metis hd_in_set image_eqI)
qed

lemma update_contact_spec:
  assumes "table_inv hi rt" "key_nat (contact_id c) \<le> hi" "\<And>n. iteration_order (ord n)"
    "\<forall>b \<in> set (rt_buckets rt). in_range b (contact_id c) \<longrightarrow>
       key_nat (bucket_high b) - key_nat (bucket_low b) < w"
  shows "\<exists>rt'. update_contact ord now ping n rt c = Some rt' \<and> table_inv hi rt' \<and>
      rt_k rt' = rt_k rt \<and> rt_self rt' = rt_self rt \<and> learned ping c rt rt'"
  using assms
proof (induction w arbitrary: n rt)
  case 0
  obtain i where "bucket_index (rt_buckets rt) (contact_id c) = Some i"
    using bucket_index_tiles [of 0 "Suc hi" "rt_buckets rt" "contact_id c"] 0(1,2)
    by (auto simp: table_inv_def)
  then show ?case using bucket_index_Some 0(4) nth_mem by blast
next
  case (Suc w)
  let ?self = "contact_id (rt_self rt)"
  obtain i where i: "bucket_index (rt_buckets rt) (contact_id c) = Some i"
    using bucket_index_tiles [of 0 "Suc hi" "rt_buckets rt" "contact_id c"] Suc.prems(1,2)
    by (auto simp: table_inv_def)
  define xs b ys where "xs = take i (rt_buckets rt)" and "b = rt_buckets rt ! i"
    and "ys = drop (Suc i) (rt_buckets rt)"
  have bs: "rt_buckets rt = xs @ b # ys" and i_len: "i < length (rt_buckets rt)"
    and rng: "in_range b (contact_id c)"
    using bucket_index_Some [OF i] by (simp_all add: xs_def b_def ys_def)
  have inv_b: "bucket_inv b" and k_b: "bucket_k b = rt_k rt"
    using Suc.prems(1) bs by (auto simp: table_inv_def)
  obtain r b' where up: "update_bucket now (Some ping) b c ?self = Some (r, b')" "bucket_inv b'"
    "same_range b b'" "last_updated b' = now"
    "lrs_update (nat (bucket_k b)) (in_range b ?self) ping (lrs b) c = (if r then None else Some (lrs b'))"
    "r \<Longrightarrow> b' = b\<lparr>last_updated := now\<rparr>"
    by (rule update_bucket_refines [OF inv_b rng]) blast
  have upd: "(rt_buckets rt)[i := b'] = xs @ b' # ys"
    using i_len by (simp add: upd_conv_take_nth_drop xs_def ys_def)
  show ?case
  proof (cases r)
    case False
    let ?rt' = "rt\<lparr>rt_buckets := xs @ b' # ys\<rparr>"
    have "update_contact ord now ping n rt c = Some ?rt'"
      using i up(1) False upd by (simp add: update_contact.simps b_def Let_def)
    moreover have "table_inv hi ?rt'" "learned ping c rt ?rt'"
      using learned_no_split [OF Suc.prems(1) bs rng up(2,3) _ refl] up(5) False by simp_all
    ultimately show ?thesis by simp
  next
    case True
    have full: "contact_id c \<notin> contact_id ` set (lrs b)" "\<not> length (lrs b) < nat (bucket_k b)"
      using up(5) True by (auto simp: lrs_update_def split: if_splits)
    have "lrs b \<noteq> []" using full(2) bucket_invD(1) [OF inv_b] by auto
    then have wide: "bucket_low b' < bucket_high b'"
      using full_bucket_wide [OF inv_b rng full(1)] up(3) by (simp add: same_range_def)
    obtain x y where xy: "split_bucket now (ord n) b' ?self = Some (x, y)" "bucket_inv x" "bucket_inv y"
      "bucket_k x = bucket_k b'" "bucket_k y = bucket_k b'"
      "bucket_low x = bucket_low b'" "bucket_high y = bucket_high b'"
      "key_nat (bucket_high x) = (key_nat (bucket_low b') + key_nat (bucket_high b')) div 2"
      "key_nat (bucket_low y) = Suc (key_nat (bucket_high x))"
      "lrs x = filter (in_range x \<circ> contact_id) (map entry_contact (ord n (elements b')))"
      "lrs y = filter (in_range y \<circ> contact_id) (map entry_contact (ord n (elements b')))"
      "mset (lrs x) + mset (lrs y) = mset (lrs b')"
      by (rule split_bucket_spec [OF up(2) Suc.prems(3) wide])
    let ?rt2 = "rt\<lparr>rt_buckets := xs @ x # y # ys\<rparr>"
    have ins: "insert_buckets (xs @ b' # ys) i x y = xs @ x # y # ys"
      using insert_buckets_eq [of i "xs @ b' # ys" x y] i_len by (simp add: xs_def)
    have go: "update_contact ord now ping n rt c = update_contact ord now ping (Suc n) ?rt2 c"
      using i up(1) True upd xy(1) ins
      by (subst update_contact.simps) (simp add: b_def Let_def)
    have lo: "bucket_low b' = bucket_low b" "bucket_high b' = bucket_high b" "bucket_k b' = bucket_k b"
      using up(3) by (simp_all add: same_range_def)
    have range: "key_nat (bucket_low b) < key_nat (bucket_high b)"
      using wide by (simp add: lo key_less_nat)
    have inv2: "table_inv hi ?rt2"
      using Suc.prems(1) xy(2-9) range unfolding table_inv_def bs
      by (auto simp: tiles_append lo)
    have width: "\<forall>d \<in> set (rt_buckets ?rt2). in_range d (contact_id c) \<longrightarrow>
        key_nat (bucket_high d) - key_nat (bucket_low d) < w"
    proof (intro ballI impI)
      fix d assume d: "d \<in> set (rt_buckets ?rt2)" "in_range d (contact_id c)"
      have "d \<notin> set xs \<union> set ys"
        using tiles_disjoint [of 0 "Suc hi" xs b ys] rng d(2) Suc.prems(1)
        unfolding table_inv_def bs by blast
      then have "d = x \<or> d = y" using d(1) by auto
      moreover have "key_nat (bucket_high b) - key_nat (bucket_low b) < Suc w"
        using Suc.prems(4) rng bs by simp
      ultimately show "key_nat (bucket_high d) - key_nat (bucket_low d) < w"
        using range xy(6-9) by (auto simp: lo)
    qed
    have same: "mset (table_contacts ?rt2) = mset (table_contacts rt)"
      using xy(12) up(6) True by (simp add: table_contacts_def bs)
    obtain rt' where rt': "update_contact ord now ping (Suc n) ?rt2 c = Some rt'" "table_inv hi rt'"
      "rt_k rt' = rt_k ?rt2" "rt_self rt' = rt_self ?rt2" "learned ping c ?rt2 rt'"
      using Suc.IH [OF inv2 Suc.prems(2,3) width] by blast
    have "learned ping c rt rt'" using rt'(5) unfolding learned_def same .
    then show ?thesis using rt' go by simp
  qed
qed

lemma update_contact_out_of_range:
  assumes "table_inv hi rt" "hi < key_nat (contact_id c)"
  shows "update_contact ord now ping n rt c = None"
  using bucket_index_tiles [of 0 "Suc hi" "rt_buckets rt" "contact_id c"] assms
  by (subst update_contact.simps) (simp add: table_inv_def)

subsection \<open>The closest nodes\<close>

lemma sorted_map_take: "sorted (map f xs) \<Longrightarrow> sorted (map f (take n xs))"
  by (simp add: sorted_wrt_take flip: take_map)

text \<open>
  What the rest of a node relies on: an answer holds the members closest to a key, but for
  an excluded one, closest first.  An answer depends on no order in which maps are walked.
\<close>

abbreviation dist_to :: "key \<Rightarrow> contact \<Rightarrow> key" where
  "dist_to k c \<equiv> key_xor k (contact_id c)"

locale closest_index =
  fixes inv :: "'t \<Rightarrow> bool" and members :: "'t \<Rightarrow> contact list" and cap :: "'t \<Rightarrow> nat"
    and answers :: "'t \<Rightarrow> key \<Rightarrow> key \<Rightarrow> contact list \<Rightarrow> bool"
  assumes members_distinct: "inv t \<Longrightarrow> distinct (map contact_id (members t))"
    and answer_eq: "inv t \<Longrightarrow> answers t k ex cs \<longleftrightarrow>
      cs = take (cap t) (sort_key (dist_to k) (filter (\<lambda>c. contact_id c \<noteq> ex) (members t)))"
begin

lemma answer_length: "inv t \<Longrightarrow> answers t k ex cs \<Longrightarrow>
    length cs = min (cap t) (length (filter (\<lambda>c. contact_id c \<noteq> ex) (members t)))"
  by (simp add: answer_eq min.commute)

lemma answer_sorted:
  assumes "inv t" "answers t k ex cs"
  shows "sorted (map (dist_to k) cs)"
  unfolding answer_eq [THEN iffD1, OF assms] by (rule sorted_map_take) (rule sorted_sort_key)

lemma answer_members: "inv t \<Longrightarrow> answers t k ex cs \<Longrightarrow> c \<in> set cs \<Longrightarrow>
    c \<in> set (members t) \<and> contact_id c \<noteq> ex"
  by (auto simp: answer_eq dest!: in_set_takeD)

lemma answer_distinct:
  assumes "inv t" "answers t k ex cs"
  shows "distinct (map contact_id cs)"
proof -
  let ?cs = "filter (\<lambda>c. contact_id c \<noteq> ex) (members t)"
  have d: "distinct (map contact_id ?cs)"
    by (rule distinct_map_filter [OF members_distinct [OF assms(1)]])
  have m: "mset (map contact_id (sort_key (dist_to k) ?cs)) = mset (map contact_id ?cs)"
    by (simp only: mset_map mset_sort)
  have "distinct (map contact_id (sort_key (dist_to k) ?cs))"
    by (rule iffD2 [OF mset_eq_imp_distinct_iff [OF m] d])
  then show ?thesis
    unfolding answer_eq [THEN iffD1, OF assms] take_map [symmetric] by (rule distinct_take)
qed

lemma answer_closest:
  assumes "inv t" "answers t k ex cs" "c \<in> set cs"
    "d \<in> set (members t)" "contact_id d \<noteq> ex" "d \<notin> set cs"
  shows "dist_to k c < dist_to k d"
proof -
  let ?s = "sort_key (dist_to k) (filter (\<lambda>c. contact_id c \<noteq> ex) (members t))"
  have cs: "cs = take (cap t) ?s" using assms(1,2) by (simp add: answer_eq)
  have "sorted (map (dist_to k) (cs @ drop (cap t) ?s))"
    unfolding cs append_take_drop_id by (rule sorted_sort_key)
  moreover have "d \<in> set (cs @ drop (cap t) ?s)"
    unfolding cs append_take_drop_id using assms(4,5) by simp
  ultimately have "dist_to k c \<le> dist_to k d"
    using assms(3,6) by (simp only: map_append sorted_append set_append Un_iff) auto
  moreover have "contact_id c \<noteq> contact_id d"
    using assms members_distinct [OF assms(1)] answer_members [OF assms(1,2,3)]
    by (metis distinct_map inj_onD)
  ultimately show ?thesis using xor_distance.dist_inject by (simp add: less_le)
qed

end

definition closest_answer :: "routing_table \<Rightarrow> key \<Rightarrow> key \<Rightarrow> contact list \<Rightarrow> bool" where
  "closest_answer rt k ex cs \<longleftrightarrow>
     (\<exists>ord. (\<forall>n. iteration_order (ord n)) \<and> cs = find_closest ord rt k ex)"

lemma mset_concat_map: "mset (concat (map f xs)) = sum_list (map (mset \<circ> f) xs)"
  by (induction xs) auto

lemma shrink_to: "(if int (length xs) > k then take (nat k) xs else xs) = take (nat k) xs"
  by auto

lemma find_closest_eq:
  assumes inv: "table_inv hi rt" and ord: "\<And>n. iteration_order (ord n)"
  shows "find_closest ord rt k ex =
     take (nat (rt_k rt)) (sort_key (dist_to k) (filter (\<lambda>c. contact_id c \<noteq> ex) (table_contacts rt)))"
proof -
  let ?f = "\<lambda>(i, b). filter (\<lambda>c. contact_id c \<noteq> ex) (map entry_contact (ord i (elements b)))"
  let ?g = "\<lambda>b. filter (\<lambda>c. contact_id c \<noteq> ex) (lrs b)"
  let ?bs = "rt_buckets rt"
  let ?cs = "concat (map ?f (enumerate 0 ?bs))"
  have one: "mset (filter (\<lambda>c. contact_id c \<noteq> ex) (map entry_contact (ord i (elements b)))) = mset (?g b)" if "b \<in> set ?bs" for i b
  proof -
    have "mset (map entry_contact (ord i (elements b))) = mset (lrs b)"
      using elements_contacts [of b] iteration_order_mset [OF ord, of i "elements b"] that inv
      by (simp add: table_inv_def)
    then show ?thesis by (simp add: mset_filter)
  qed
  have "map (mset \<circ> ?f) (enumerate 0 ?bs) = map (mset \<circ> ?g \<circ> snd) (enumerate 0 ?bs)"
  proof (rule map_cong [OF refl])
    fix p assume p: "p \<in> set (enumerate 0 ?bs)"
    obtain i b where ib: "p = (i, b)" by fastforce
    have "b \<in> set ?bs" using p unfolding ib by (auto simp: in_set_enumerate_eq)
    then show "(mset \<circ> ?f) p = (mset \<circ> ?g \<circ> snd) p" using one unfolding ib by simp
  qed
  also have "\<dots> = map (mset \<circ> ?g) ?bs" by (simp flip: map_map)
  finally have "mset ?cs = mset (concat (map ?g ?bs))" unfolding mset_concat_map by simp
  also have "concat (map ?g ?bs) = filter (\<lambda>c. contact_id c \<noteq> ex) (table_contacts rt)"
    by (simp add: table_contacts_def filter_concat o_def)
  finally have ms: "mset (sort_key (dist_to k) ?cs) =
      mset (filter (\<lambda>c. contact_id c \<noteq> ex) (table_contacts rt))" by simp
  have inj: "inj_on contact_id (set (filter (\<lambda>c. contact_id c \<noteq> ex) (table_contacts rt)))"
    using distinct_map_filter [OF table_contacts_distinct [OF inv]] by (simp add: distinct_map inj_on_subset)
  have "sort_key (dist_to k) ?cs =
      sort_key (dist_to k) (filter (\<lambda>c. contact_id c \<noteq> ex) (table_contacts rt))"
    by (rule xor_distance.sort_by_distance [OF ms inj]) (rule sorted_sort_key)
  then show ?thesis
    unfolding find_closest_def Let_def shrink_to comp_def by (rule arg_cong)
qed

lemma closest_answer_eq:
  assumes "table_inv hi rt"
  shows "closest_answer rt k ex cs \<longleftrightarrow>
    cs = take (nat (rt_k rt)) (sort_key (dist_to k) (filter (\<lambda>c. contact_id c \<noteq> ex) (table_contacts rt)))"
    (is "_ \<longleftrightarrow> cs = ?r")
proof
  assume "closest_answer rt k ex cs"
  then obtain ord where "\<forall>n. iteration_order (ord n)" "cs = find_closest ord rt k ex"
    unfolding closest_answer_def by iprover
  then show "cs = ?r" using find_closest_eq [OF assms, of ord] by simp
next
  assume "cs = ?r"
  moreover have "find_closest (\<lambda>_ xs. xs) rt k ex = ?r" by (rule find_closest_eq [OF assms]) simp
  ultimately show "closest_answer rt k ex cs"
    unfolding closest_answer_def by (intro exI [of _ "\<lambda>_ xs. xs"]) simp
qed

interpretation table: closest_index "table_inv hi" table_contacts "\<lambda>rt. nat (rt_k rt)" closest_answer
  by unfold_locales (rule table_contacts_distinct closest_answer_eq, assumption)+

subsection \<open>A new table\<close>

definition top_key :: "int \<Rightarrow> key" where
  "top_key k = mk_key (replicate (nat k) 255 @ replicate (key_len - nat k) 0)"

lemma new_routing_table_inv:
  assumes "1 \<le> k" "k \<le> 32"
  obtains rt where "new_routing_table now self k = Some rt" "table_inv (key_nat (top_key k)) rt"
    "rt_k rt = k" "rt_self rt = self" "table_contacts rt = []"
proof -
  have "key_nat zero_key \<le> key_nat (top_key k)" by simp
  then show thesis
    using assms bucket_inv_new [of now k zero_key "top_key k"]
    by (intro that [of "\<lparr>rt_k = k, rt_self = self, rt_buckets = [\<lparr>bucket_k = k, contacts = [],
      elements = [], next_elem = 0, last_updated = now, bucket_low = zero_key,
      bucket_high = top_key k\<rparr>]\<rparr>"])
      (auto simp: new_routing_table_def new_bucket_def table_inv_def table_contacts_def lrs_def
        key_len_def top_key_def key_le_nat)
qed

lemma update_contact_total:
  assumes "table_inv hi rt" and "key_nat (contact_id c) \<le> hi" and "\<forall>n. iteration_order (ord n)"
  shows "\<exists>rt'. update_contact ord now ping n rt c = Some rt' \<and> table_inv hi rt' \<and>
      rt_k rt' = rt_k rt \<and> rt_self rt' = rt_self rt \<and> learned ping c rt rt'"
proof (rule update_contact_spec [OF assms(1,2), of ord "2 ^ 256"])
  show "\<forall>b \<in> set (rt_buckets rt). in_range b (contact_id c) \<longrightarrow>
      key_nat (bucket_high b) - key_nat (bucket_low b) < 2 ^ 256"
    using key_nat_bound by (meson diff_le_self le_less_trans)
qed (use assms(3) in simp)

subsection \<open>Properties\<close>

definition sample_contact :: "nat \<Rightarrow> contact" where
  "sample_contact n = \<lparr>contact_id = parse_uint64 (of_nat n), contact_address = ''a:80''\<rparr>"

definition sample_bucket :: bucket where
  "sample_bucket = push_contact (sample_contact 6) (push_contact (sample_contact 5)
     \<lparr>bucket_k = 2, contacts = [], elements = [], next_elem = 0, last_updated = 0,
      bucket_low = zero_key, bucket_high = parse_uint64 15\<rparr>)"

definition sample_table :: routing_table where
  "sample_table = \<lparr>rt_k = 2, rt_self = sample_contact 1, rt_buckets = [sample_bucket]\<rparr>"

lemma sample_table_inv: "table_inv 15 sample_table"
  by code_simp

lemma sample_bucket_inv: "bucket_inv sample_bucket"
  by code_simp

text \<open>
  C10: learning of a contact. For a contact whose key has a bucket, an update of the routing
  table returns, after however many splits: no call panics, the buckets still partition the
  keys, hold at most k contacts each, all in their range, and every key once. A known contact
  is kept with its latest address. A new one is added, or takes the place of one contact that
  did not answer a ping, or is dropped because such a contact answered; the last two only
  in a full bucket that does not hold the node's own key. No other contact is lost.
\<close>

theorem update_contact_learns:
  assumes "table_inv hi rt" and "key_nat (contact_id c) \<le> hi" and "\<forall>n. iteration_order (ord n)"
  shows "\<exists>rt'. update_contact ord now ping n rt c = Some rt' \<and> table_inv hi rt' \<and>
      rt_k rt' = rt_k rt \<and> rt_self rt' = rt_self rt \<and> learned ping c rt rt'"
  by (rule update_contact_total [OF assms])

lemma update_contact_learns_witness:
  "\<exists>rt'. update_contact (\<lambda>_. rev) 9 (\<lambda>_. False) 0 sample_table ((sample_contact 5)\<lparr>contact_address := ''b''\<rparr>) =
       Some rt' \<and> table_inv 15 rt' \<and>
     mset (table_contacts rt') = {#sample_contact 6, (sample_contact 5)\<lparr>contact_address := ''b''\<rparr>#}"
proof -
  let ?c = "(sample_contact 5)\<lparr>contact_address := ''b''\<rparr>"
  have c: "table_contacts sample_table = [sample_contact 5, sample_contact 6]"
    "contact_id (sample_contact 5) \<noteq> contact_id (sample_contact 6)" by code_simp+
  have "key_nat (contact_id ?c) \<le> 15" "\<forall>n::nat. iteration_order rev"
    by (code_simp, simp)
  from update_contact_learns [OF sample_table_inv this, of 9 "\<lambda>_. False" 0]
  show ?thesis using c(2) by (auto simp: learned_def Let_def c(1) add_mset_commute)
qed

text \<open>
  C11: the answer of a routing table. It holds contacts of the table, none the excluded one
  and none twice, closest first; as many as there are, up to k; and each is strictly closer
  to the target than every contact left out. The order in which maps are walked has no
  influence.
\<close>

theorem find_closest_nodes:
  assumes "table_inv hi rt" and "\<forall>n. iteration_order (ord n)" and "cs = find_closest ord rt k ex"
  shows "sorted (map (dist_to k) cs) \<and> distinct (map contact_id cs) \<and>
     set cs \<subseteq> {c \<in> set (table_contacts rt). contact_id c \<noteq> ex} \<and>
     length cs = min (nat (rt_k rt)) (length (filter (\<lambda>c. contact_id c \<noteq> ex) (table_contacts rt))) \<and>
     (\<forall>c \<in> set cs. \<forall>d \<in> set (table_contacts rt) - set cs. contact_id d \<noteq> ex \<longrightarrow>
        dist_to k c < dist_to k d)"
proof -
  have "closest_answer rt k ex cs" using assms(2,3) by (auto simp: closest_answer_def)
  note a = assms(1) this
  show ?thesis
    using table.answer_sorted [OF a] table.answer_distinct [OF a] table.answer_length [OF a]
      table.answer_members [OF a] table.answer_closest [OF a] by blast
qed

lemma find_closest_nodes_witness:
  "find_closest (\<lambda>_. rev) sample_table (parse_uint64 7) (parse_uint64 5) = [sample_contact 6]"
proof -
  have c: "filter (\<lambda>c. contact_id c \<noteq> parse_uint64 5) (table_contacts sample_table) = [sample_contact 6]"
    by code_simp
  then have m: "{c \<in> set (table_contacts sample_table). contact_id c \<noteq> parse_uint64 5} = {sample_contact 6}"
    by (metis set_filter list.set(1,2))
  have "\<forall>n::nat. iteration_order rev" "nat (rt_k sample_table) = 2"
    by (simp_all add: sample_table_def)
  then show ?thesis
    using find_closest_nodes [OF sample_table_inv, of "\<lambda>_. rev" _ "parse_uint64 7" "parse_uint64 5", OF _ refl]
    unfolding m c by (auto simp: length_Suc_conv)
qed

text \<open>
  C21: updating a bucket implements the list of contacts in the order last seen. The call
  returns, stamps the bucket with the time, and asks for a split exactly when the list
  operation does; otherwise the list of the bucket is the result of the list operation.
\<close>

theorem update_bucket_lrs:
  assumes "bucket_inv b" and "in_range b (contact_id c)"
  shows "\<exists>split b'. update_bucket now (Some ping) b c self = Some (split, b') \<and> bucket_inv b' \<and>
      same_range b b' \<and> last_updated b' = now \<and>
      lrs_update (nat (bucket_k b)) (in_range b self) ping (lrs b) c =
        (if split then None else Some (lrs b'))"
  by (rule update_bucket_refines [OF assms, of now ping self]) blast

lemma update_bucket_lrs_witness:
  "\<exists>b'. update_bucket 7 (Some (\<lambda>c. c = sample_contact 6)) sample_bucket (sample_contact 12) (parse_uint64 99) =
     Some (False, b') \<and> lrs b' = [sample_contact 6, sample_contact 12]"
proof -
  have r: "in_range sample_bucket (contact_id (sample_contact 12))" by code_simp
  have "lrs_update (nat (bucket_k sample_bucket)) (in_range sample_bucket (parse_uint64 99))
      (\<lambda>c. c = sample_contact 6) (lrs sample_bucket) (sample_contact 12) =
      Some [sample_contact 6, sample_contact 12]" by code_simp
  then show ?thesis
    using update_bucket_lrs [OF sample_bucket_inv r, of 7 "\<lambda>c. c = sample_contact 6" "parse_uint64 99"]
    by (auto split: if_splits)
qed

lemma mset_map_reorder: "mset cs = mset (map f xs) \<Longrightarrow> \<exists>ys. mset ys = mset xs \<and> map f ys = cs"
proof (induction cs arbitrary: xs)
  case (Cons c cs)
  have "c \<in> set (map f xs)" using mset_eq_setD [OF Cons.prems] by auto
  then obtain x where x: "x \<in> set xs" "f x = c" by auto
  then obtain as bs where xs: "xs = as @ x # bs" by (meson split_list)
  have "mset cs = mset (map f (as @ bs))" using Cons.prems x(2) by (simp add: xs)
  from Cons.IH [OF this] obtain ys where "mset ys = mset (as @ bs)" "map f ys = cs" by blast
  then show ?case using x(2) xs by (intro exI [of _ "x # ys"]) simp
qed simp

text \<open>
  C22: a split divides the contacts. The halves are adjacent and cover the range of the
  bucket, both keep the invariant, and each contact goes to the half its key is in: none
  is lost, and no update of the loop calls its nil interface.
\<close>

theorem split_divides:
  assumes "bucket_inv b" and "bucket_low b < bucket_high b" and "iteration_order ord"
  shows "\<exists>x y. split_bucket now ord b self = Some (x, y) \<and> bucket_inv x \<and> bucket_inv y \<and>
     bucket_k x = bucket_k b \<and> bucket_k y = bucket_k b \<and>
     bucket_low x = bucket_low b \<and> bucket_high y = bucket_high b \<and>
     key_nat (bucket_low y) = Suc (key_nat (bucket_high x)) \<and>
     set (lrs x) = {c \<in> set (lrs b). contact_id c \<le> bucket_high x} \<and>
     set (lrs y) = {c \<in> set (lrs b). bucket_low y \<le> contact_id c} \<and>
     mset (lrs x) + mset (lrs y) = mset (lrs b)"
proof (rule split_bucket_spec [OF assms(1,3,2), of now self])
  fix x y
  assume xy: "split_bucket now ord b self = Some (x, y)" "bucket_inv x" "bucket_inv y"
    "bucket_k x = bucket_k b" "bucket_k y = bucket_k b"
    "bucket_low x = bucket_low b" "bucket_high y = bucket_high b"
    "key_nat (bucket_low y) = Suc (key_nat (bucket_high x))"
    "lrs x = filter (in_range x \<circ> contact_id) (map entry_contact (ord (elements b)))"
    "lrs y = filter (in_range y \<circ> contact_id) (map entry_contact (ord (elements b)))"
    "mset (lrs x) + mset (lrs y) = mset (lrs b)"
  have es: "set (map entry_contact (ord (elements b))) = set (lrs b)"
    using mset_eq_setD [OF elements_contacts [OF assms(1)]] iteration_order_set [OF assms(3)] by simp
  have "\<forall>c \<in> set (lrs b). bucket_low b \<le> contact_id c \<and> contact_id c \<le> bucket_high b"
    using bucket_invD(8) [OF assms(1)] by (simp add: in_range_iff)
  then have "set (lrs x) = {c \<in> set (lrs b). contact_id c \<le> bucket_high x}"
    "set (lrs y) = {c \<in> set (lrs b). bucket_low y \<le> contact_id c}"
    unfolding xy(9,10) set_filter es by (auto simp: in_range_iff xy(6,7))
  then show ?thesis using xy by blast
qed

lemma split_divides_witness:
  "\<exists>x y. split_bucket 3 rev sample_bucket zero_key = Some (x, y) \<and> bucket_inv x \<and> bucket_inv y \<and>
     set (lrs x) \<union> set (lrs y) = {sample_contact 5, sample_contact 6}"
proof -
  have w: "bucket_low sample_bucket < bucket_high sample_bucket" by code_simp
  have l: "lrs sample_bucket = [sample_contact 5, sample_contact 6]" by code_simp
  obtain x y where xy: "split_bucket 3 rev sample_bucket zero_key = Some (x, y)" "bucket_inv x" "bucket_inv y"
    "mset (lrs x) + mset (lrs y) = mset (lrs sample_bucket)"
    using split_divides [OF sample_bucket_inv w iteration_order_rev, of 3 zero_key] by blast
  have "set (lrs x) \<union> set (lrs y) = set (lrs sample_bucket)"
    using arg_cong [OF xy(4), of set_mset] by simp
  then show ?thesis using xy(1-3) l by auto
qed

text \<open>
  A split forgets which contacts were seen last. In whatever order \<open>cs\<close> one puts the
  contacts of the bucket, there is an order of walking the map for which \<^verbatim>\<open>Split\<close> leaves
  both halves in it, whatever the order in which the contacts were last seen.
\<close>

theorem split_any_order:
  assumes "bucket_inv b" and "bucket_low b < bucket_high b" and "mset cs = mset (lrs b)"
  shows "\<exists>ord x y. iteration_order ord \<and> split_bucket now ord b self = Some (x, y) \<and>
     lrs x = filter (\<lambda>c. in_range x (contact_id c)) cs \<and>
     lrs y = filter (\<lambda>c. in_range y (contact_id c)) cs"
proof -
  have "mset cs = mset (map entry_contact (elements b))"
    using elements_contacts [OF assms(1)] assms(3) by simp
  then obtain es where es: "mset es = mset (elements b)" "map entry_contact es = cs"
    using mset_map_reorder by blast
  define ord where "ord = (\<lambda>xs. if xs = elements b then es else xs)"
  have ord: "iteration_order ord" "ord (elements b) = es"
    using es(1) by (auto simp: ord_def iteration_order_def)
  show ?thesis
    by (rule split_bucket_spec [OF assms(1) ord(1) assms(2), of now self])
      (use ord es(2) in \<open>auto simp: o_def\<close>)
qed

lemma split_any_order_witness:
  "\<exists>ord x y. iteration_order ord \<and> split_bucket 3 ord sample_bucket zero_key = Some (x, y) \<and>
     lrs x = filter (\<lambda>c. in_range x (contact_id c)) [sample_contact 6, sample_contact 5] \<and>
     lrs sample_bucket = [sample_contact 5, sample_contact 6]"
proof -
  have w: "bucket_low sample_bucket < bucket_high sample_bucket" by code_simp
  have l: "lrs sample_bucket = [sample_contact 5, sample_contact 6]" by code_simp
  then have "mset [sample_contact 6, sample_contact 5] = mset (lrs sample_bucket)" by simp
  from split_any_order [OF sample_bucket_inv w this, of 3 zero_key] l show ?thesis by blast
qed

lemma set_bytes_ones: "set_bytes (replicate n 255) = 256 ^ n - 1"
proof (induction n)
  case (Suc n)
  have "set_bytes (replicate (Suc n) 255) = 255 * 256 ^ n + (256 ^ n - 1)"
    by (simp add: set_bytes_Cons Suc)
  also have "\<dots> = 256 ^ Suc n - 1"
    using one_le_power [of "256 :: nat" n] by (simp add: diff_add_assoc flip: add_diff_assoc)
  finally show ?case .
qed simp

lemma key_nat_top_key:
  assumes "0 \<le> k" "k \<le> 32"
  shows "key_nat (top_key k) = (256 ^ nat k - 1) * 256 ^ (32 - nat k)"
proof -
  have "key_bytes (top_key k) = replicate (nat k) 255 @ replicate (32 - nat k) 0"
    using assms by (simp add: top_key_def key_len_def key_bytes_mk_key)
  then show ?thesis
    using set_bytes_zeros [of "32 - nat k" "[]"]
    by (simp add: key_nat_def set_bytes_append set_bytes_ones del: set_bytes_zeros)
qed

text \<open>
  A new routing table covers the keys up to its highest one, and which one that is
  depends on the bucket size: \<^verbatim>\<open>newRoutingTable\<close> sets \<open>k\<close> bytes of the 32. It panics unless
  1 <= k <= 32. With k < 32 the keys above have no bucket, and an update with a contact
  that has such a key panics.
\<close>

theorem new_routing_table_range:
  "(new_routing_table now self k \<noteq> None \<longleftrightarrow> 1 \<le> k \<and> k \<le> 32) \<and>
   (\<forall>rt. new_routing_table now self k = Some rt \<longrightarrow>
      (let hi = (256 ^ nat k - 1) * 256 ^ (32 - nat k) in
       table_inv hi rt \<and> rt_k rt = k \<and> rt_self rt = self \<and> table_contacts rt = [] \<and>
       (hi < key_nat (contact_id c) \<longrightarrow> update_contact ord now' ping n rt c = None)))"
proof (cases "1 \<le> k \<and> k \<le> 32")
  case True
  then obtain rt where rt: "new_routing_table now self k = Some rt"
    "table_inv (key_nat (top_key k)) rt" "rt_k rt = k" "rt_self rt = self" "table_contacts rt = []"
    using new_routing_table_inv [of k now self] by blast
  moreover have "key_nat (top_key k) = (256 ^ nat k - 1) * 256 ^ (32 - nat k)"
    using True by (intro key_nat_top_key) auto
  ultimately show ?thesis
    using True update_contact_out_of_range [OF rt(2), of c ord now' ping n] by (simp add: Let_def)
next
  case False
  then have "new_routing_table now self k = None"
    by (auto simp: new_routing_table_def new_bucket_def key_len_def)
  then show ?thesis using False by simp
qed

lemma new_routing_table_range_witness:
  "\<exists>rt. new_routing_table 0 (sample_contact 1) 20 = Some rt \<and>
     update_contact (\<lambda>_ xs. xs) 0 (\<lambda>_. True) 0 rt
       \<lparr>contact_id = mk_key (replicate 32 255), contact_address = ''c''\<rparr> = None"
proof -
  let ?c = "\<lparr>contact_id = mk_key (replicate 32 255), contact_address = ''c''\<rparr>"
  have "(256 ^ nat 20 - 1) * 256 ^ (32 - nat 20) < key_nat (contact_id ?c)"
    by (simp add: key_nat_def key_bytes_mk_key set_bytes_ones)
  then show ?thesis
    using new_routing_table_range [of 0 "sample_contact 1" 20 ?c "\<lambda>_ xs. xs" 0 "\<lambda>_. True" 0]
    by (auto simp: Let_def)
qed

end
