(* ===== verification/Shortlist.thy ===== *)
theory Shortlist
  imports Routing_Table
begin

text \<open>
  The shortlist of a lookup (\<^verbatim>\<open>shortlist\<close> in \<^verbatim>\<open>dht/node.go\<close>): the contacts closest to the target
  that the lookup knows, closest first, with the sets of keys that were contacted and that
  had peers.  Every operation holds the mutex, so each is one step.

  The capacity is the node's K, which is at least 1: \<^verbatim>\<open>newBucket\<close> panics otherwise.
\<close>

record shortlist =
  sl_k :: nat
  sl_target :: key
  sl_list :: "contact list"
  sl_contacted :: "key set"
  sl_has_peers :: "key set"

definition new_shortlist :: "key \<Rightarrow> nat \<Rightarrow> shortlist" where
  "new_shortlist target k =
     \<lparr>sl_k = k, sl_target = target, sl_list = [], sl_contacted = {}, sl_has_peers = {}\<rparr>"

text \<open>The binary search of \<^verbatim>\<open>sort.Search\<close> between \<open>i\<close> and \<open>j\<close>.\<close>

function go_search :: "(nat \<Rightarrow> bool) \<Rightarrow> nat \<Rightarrow> nat \<Rightarrow> nat" where
  "go_search f i j =
     (if i < j
      then (let h = (i + j) div 2 in if \<not> f h then go_search f (h + 1) j else go_search f i h)
      else i)"
  by pat_completeness auto
termination by (relation "measure (\<lambda>(f, i, j). j - i)") auto

declare go_search.simps [simp del]

definition sl_search :: "key \<Rightarrow> contact list \<Rightarrow> contact \<Rightarrow> nat" where
  "sl_search target l c =
     go_search (\<lambda>i. let d1 = key_xor target (contact_id c);
                        d2 = key_xor target (contact_id (l ! i));
                        r = key_cmp d2 d1
                    in r = 0 \<or> r = 1) 0 (length l)"

definition empty_contact :: contact where
  "empty_contact = \<lparr>contact_id = zero_key, contact_address = ''''\<rparr>"

definition insert_contact :: "key \<Rightarrow> contact \<Rightarrow> contact list \<Rightarrow> contact list" where
  "insert_contact target c l =
     (let i = sl_search target l c in
      if i < length l \<and> l ! i = c then l
      else let l1 = l @ [empty_contact]
           in (go_copy l1 (i + 1) (drop i l1))[i := c])"

definition sl_insert :: "contact list \<Rightarrow> shortlist \<Rightarrow> shortlist" where
  "sl_insert cs s =
     (let l = fold (insert_contact (sl_target s)) cs (sl_list s)
      in s\<lparr>sl_list := (if length l > sl_k s then take (sl_k s) l else l)\<rparr>)"

definition remove_contact :: "key \<Rightarrow> contact \<Rightarrow> contact list \<Rightarrow> contact list" where
  "remove_contact target c l =
     (let i = sl_search target l c in
      if i < length l \<and> l ! i = c then take i l @ drop (i + 1) l else l)"

definition sl_remove :: "contact list \<Rightarrow> shortlist \<Rightarrow> shortlist" where
  "sl_remove cs s =
     fold (\<lambda>c s. s\<lparr>sl_list := remove_contact (sl_target s) c (sl_list s),
                   sl_contacted := sl_contacted s - {contact_id c}\<rparr>) cs s"

definition sl_set_contacted :: "contact list \<Rightarrow> shortlist \<Rightarrow> shortlist" where
  "sl_set_contacted cs s =
     fold (\<lambda>c s. s\<lparr>sl_contacted := insert (contact_id c) (sl_contacted s)\<rparr>) cs s"

definition sl_set_has_peers :: "contact list \<Rightarrow> shortlist \<Rightarrow> shortlist" where
  "sl_set_has_peers cs s =
     fold (\<lambda>c s. s\<lparr>sl_has_peers := insert (contact_id c) (sl_has_peers s)\<rparr>) cs s"

definition sl_len :: "shortlist \<Rightarrow> nat" where
  "sl_len s = length (sl_list s)"

text \<open>\<^verbatim>\<open>Head\<close> of an empty shortlist panics.\<close>

definition sl_head :: "shortlist \<Rightarrow> contact option" where
  "sl_head s = (case sl_list s of [] \<Rightarrow> None | c # _ \<Rightarrow> Some c)"

fun all_contacted :: "key set \<Rightarrow> contact list \<Rightarrow> bool" where
  "all_contacted done [] = True"
| "all_contacted done (c # cs) = (if contact_id c \<notin> done then False else all_contacted done cs)"

definition sl_all_contacted :: "shortlist \<Rightarrow> bool" where
  "sl_all_contacted s = all_contacted (sl_contacted s) (sl_list s)"

text \<open>The loop of \<^verbatim>\<open>PickNotContacted\<close>, with what it has picked so far.\<close>

fun pick_loop :: "int \<Rightarrow> key set \<Rightarrow> contact list \<Rightarrow> contact list \<Rightarrow> contact list" where
  "pick_loop limit done picked [] = picked"
| "pick_loop limit done picked (c # cs) =
     (if int (length picked) \<ge> limit then picked
      else if contact_id c \<in> done then pick_loop limit done picked cs
      else pick_loop limit done (picked @ [c]) cs)"

definition sl_pick_not_contacted :: "int \<Rightarrow> shortlist \<Rightarrow> contact list" where
  "sl_pick_not_contacted limit s = pick_loop limit (sl_contacted s) [] (sl_list s)"

fun closest_without :: "key set \<Rightarrow> contact list \<Rightarrow> error + contact" where
  "closest_without has [] = Inl AllNodesHaveValue"
| "closest_without has (c # cs) = (if contact_id c \<notin> has then Inr c else closest_without has cs)"

definition sl_closest_without_value :: "shortlist \<Rightarrow> error + contact" where
  "sl_closest_without_value s = closest_without (sl_has_peers s) (sl_list s)"

text \<open>\<^verbatim>\<open>make\<close> and \<^verbatim>\<open>copy\<close>\<close>

definition sl_deep_copy :: "shortlist \<Rightarrow> contact list" where
  "sl_deep_copy s = go_copy (replicate (length (sl_list s)) empty_contact) 0 (sl_list s)"

subsection \<open>Searching\<close>

text \<open>For a predicate that once true stays true, the search returns where it becomes true.\<close>

lemma go_search_bounds: "i \<le> j \<Longrightarrow> i \<le> go_search f i j \<and> go_search f i j \<le> j"
proof (induction f i j rule: go_search.induct)
  case (1 f i j)
  show ?case
  proof (cases "i < j")
    case True
    have "i \<le> (i + j) div 2" "(i + j) div 2 + 1 \<le> j" using True by presburger+
    then show ?thesis
      using True 1(1)[OF True refl] 1(2)[OF True refl]
      by (subst (1 2) go_search.simps) (fastforce simp: Let_def)
  next
    case False
    then show ?thesis using 1(3) by (subst (1 2) go_search.simps) auto
  qed
qed

lemma go_search_mono:
  assumes "\<And>x y. x \<le> y \<Longrightarrow> y < j \<Longrightarrow> f x \<Longrightarrow> f y"
  shows "i \<le> m \<Longrightarrow> m < j \<Longrightarrow> f m \<longleftrightarrow> go_search f i j \<le> m"
  using assms
proof (induction f i j rule: go_search.induct)
  case (1 f i j)
  let ?h = "(i + j) div 2"
  have ij: "i < j" using 1(3,4) by simp
  show ?case
  proof (cases "f ?h")
    case True
    have eq: "go_search f i j = go_search f i ?h"
      using ij True by (subst go_search.simps) (simp add: Let_def)
    show ?thesis
    proof (cases "m < ?h")
      case True
      then show ?thesis unfolding eq using 1(2)[OF ij refl] \<open>f ?h\<close> 1(3,5) ij by simp
    next
      case False
      then have "f m" using 1(5)[of ?h m] 1(4) True by simp
      moreover have "go_search f i ?h \<le> ?h" using go_search_bounds [of i ?h f] ij by simp
      ultimately show ?thesis unfolding eq using False by simp
    qed
  next
    case False
    have eq: "go_search f i j = go_search f (?h + 1) j"
      using ij False by (subst go_search.simps) (simp add: Let_def)
    show ?thesis
    proof (cases "?h < m")
      case True
      then show ?thesis unfolding eq using 1(1)[OF ij refl] False 1(4,5) by simp
    next
      case F: False
      have "?h < j" using ij by presburger
      with F have "\<not> f m" using 1(5)[of m ?h] False by auto
      moreover have "?h + 1 \<le> go_search f (?h + 1) j"
        using go_search_bounds [of "?h + 1" j f] ij by simp
      ultimately show ?thesis unfolding eq using F by simp
    qed
  qed
qed

abbreviation by_dist :: "key \<Rightarrow> contact list \<Rightarrow> bool" where
  "by_dist t l \<equiv> sorted (map (dist_to t) l)"

lemma sl_search_le: "sl_search t l c \<le> length l"
  using go_search_bounds [of 0 "length l"] by (simp add: sl_search_def)

lemma sl_search_iff:
  assumes "by_dist t l" and "m < length l"
  shows "dist_to t c \<le> dist_to t (l ! m) \<longleftrightarrow> sl_search t l c \<le> m"
proof -
  let ?f = "\<lambda>i. let d1 = key_xor t (contact_id c); d2 = key_xor t (contact_id (l ! i)); r = key_cmp d2 d1
            in r = 0 \<or> r = 1"
  have f: "?f i \<longleftrightarrow> dist_to t c \<le> dist_to t (l ! i)" for i
    by (auto simp: Let_def key_cmp_nat key_le_nat)
  have "?f m \<longleftrightarrow> go_search ?f 0 (length l) \<le> m"
  proof (rule go_search_mono)
    show "?f y" if "x \<le> y" "y < length l" "?f x" for x y
      using sorted_nth_mono [OF assms(1), of x y] that unfolding f by simp
  qed (use assms(2) in simp_all)
  then show ?thesis unfolding f [of m] sl_search_def .
qed

lemma insert_contact_eq:
  "insert_contact t c l =
     (if sl_search t l c < length l \<and> l ! sl_search t l c = c then l
      else take (sl_search t l c) l @ c # drop (sl_search t l c) l)"
  using go_copy_shift [OF sl_search_le [of t l c], of empty_contact c]
  by (simp add: insert_contact_def Let_def)

text \<open>
  The search cuts a sorted list into the contacts closer than \<open>c\<close> and the others, and the
  operations on one contact are operations on the two parts.
\<close>

lemma search_cut:
  assumes "by_dist t l"
  obtains xs ys where "l = xs @ ys" "\<forall>d \<in> set xs. dist_to t d < dist_to t c"
    "\<forall>d \<in> set ys. dist_to t c \<le> dist_to t d"
    "insert_contact t c l = (case ys of [] \<Rightarrow> l @ [c] | y # ys' \<Rightarrow> if y = c then l else xs @ c # ys)"
    "remove_contact t c l = (case ys of [] \<Rightarrow> l | y # ys' \<Rightarrow> if y = c then xs @ ys' else l)"
proof (rule that)
  let ?i = "sl_search t l c"
  have le: "?i \<le> length l" by (rule sl_search_le)
  show l: "l = take ?i l @ drop ?i l" by simp
  show "\<forall>d \<in> set (take ?i l). dist_to t d < dist_to t c"
  proof
    fix d assume "d \<in> set (take ?i l)"
    then obtain m where "m < ?i" "m < length l" "d = l ! m" by (auto simp: in_set_conv_nth)
    then show "dist_to t d < dist_to t c"
      using sl_search_iff [OF assms, of m c] by (simp add: not_le [symmetric])
  qed
  show "\<forall>d \<in> set (drop ?i l). dist_to t c \<le> dist_to t d"
  proof
    fix d assume "d \<in> set (drop ?i l)"
    then obtain m where "?i \<le> m" "m < length l" "d = l ! m"
      using le by (auto simp: in_set_conv_nth) (metis add.commute le_add1 less_diff_conv nth_drop le)
    then show "dist_to t c \<le> dist_to t d" using sl_search_iff [OF assms, of m c] by simp
  qed
  have drop: "drop ?i l = (if ?i < length l then l ! ?i # drop (Suc ?i) l else [])"
    by (simp add: Cons_nth_drop_Suc)
  show "insert_contact t c l = (case drop ?i l of [] \<Rightarrow> l @ [c]
      | y # ys' \<Rightarrow> if y = c then l else take ?i l @ c # drop ?i l)"
    unfolding insert_contact_eq by (simp add: drop)
  show "remove_contact t c l = (case drop ?i l of [] \<Rightarrow> l
      | y # ys' \<Rightarrow> if y = c then take ?i l @ ys' else l)"
    by (simp add: remove_contact_def Let_def drop)
qed

text \<open>Order is kept whatever contacts are inserted.\<close>

lemma insert_contact_sorted:
  assumes "by_dist t l"
  shows "by_dist t (insert_contact t c l)"
proof (rule search_cut [OF assms, of c])
  fix xs ys
  assume l: "l = xs @ ys" "\<forall>d \<in> set xs. dist_to t d < dist_to t c"
    "\<forall>d \<in> set ys. dist_to t c \<le> dist_to t d"
    and ins: "insert_contact t c l = (case ys of [] \<Rightarrow> l @ [c] | y # ys' \<Rightarrow> if y = c then l else xs @ c # ys)"
  have "by_dist t (xs @ ys)" using assms l(1) by simp
  then have "by_dist t (xs @ c # ys)"
    using l(2,3) by (auto simp: sorted_append intro: less_imp_le)
  then show ?thesis using assms l(1) ins by (auto split: list.splits)
qed

lemma insert_contact_set: "by_dist t l \<Longrightarrow> set (insert_contact t c l) = insert c (set l)"
  by (rule search_cut [of t l c], assumption) (auto split: list.splits)

lemma insert_contact_length: "by_dist t l \<Longrightarrow> length (insert_contact t c l) \<in> {length l, Suc (length l)}"
  by (rule search_cut [of t l c], assumption) (auto split: list.splits)

lemma fold_insert_sorted: "by_dist t l \<Longrightarrow> by_dist t (fold (insert_contact t) cs l)"
  by (induction cs arbitrary: l) (simp_all add: insert_contact_sorted)

lemma fold_insert_set: "by_dist t l \<Longrightarrow> set (fold (insert_contact t) cs l) = set l \<union> set cs"
  by (induction cs arbitrary: l) (simp_all add: insert_contact_sorted insert_contact_set)

lemma remove_contact_sorted:
  assumes "by_dist t l"
  shows "by_dist t (remove_contact t c l)"
proof (rule search_cut [OF assms, of c])
  fix xs ys
  assume l: "l = xs @ ys"
    and rem: "remove_contact t c l = (case ys of [] \<Rightarrow> l | y # ys' \<Rightarrow> if y = c then xs @ ys' else l)"
  then show ?thesis using assms by (auto simp: sorted_append split: list.splits)
qed

lemma remove_contact_subset: "by_dist t l \<Longrightarrow> set (remove_contact t c l) \<subseteq> set l"
  by (rule search_cut [of t l c], assumption) (auto split: list.splits)

lemma remove_contact_length: "by_dist t l \<Longrightarrow> length (remove_contact t c l) \<le> length l"
  by (rule search_cut [of t l c], assumption) (auto split: list.splits)

text \<open>
  One address for each key: then a contact is in the list exactly when the search finds it.
\<close>

definition addressed :: "(key \<Rightarrow> string) \<Rightarrow> contact set \<Rightarrow> bool" where
  "addressed A C \<longleftrightarrow> (\<forall>c \<in> C. contact_address c = A (contact_id c))"

lemma addressed_eq: "addressed A C \<Longrightarrow> c \<in> C \<Longrightarrow> d \<in> C \<Longrightarrow> contact_id c = contact_id d \<longleftrightarrow> c = d"
  by (auto simp: addressed_def intro: contact.equality)

lemma addressed_inj: "addressed A C \<Longrightarrow> inj_on contact_id C"
  by (auto simp: inj_on_def addressed_eq)

lemma addressed_subset: "addressed A C \<Longrightarrow> D \<subseteq> C \<Longrightarrow> addressed A D"
  by (auto simp: addressed_def)

lemma addressed_simps [simp]:
  "addressed A {}"
  "addressed A (insert c C) \<longleftrightarrow> contact_address c = A (contact_id c) \<and> addressed A C"
  "addressed A (C \<union> D) \<longleftrightarrow> addressed A C \<and> addressed A D"
  by (auto simp: addressed_def)

lemma search_cut_found:
  assumes "l = xs @ ys" "\<forall>d \<in> set xs. dist_to t d < dist_to t c"
    "\<forall>d \<in> set ys. dist_to t c \<le> dist_to t d" "by_dist t l" "addressed A (insert c (set l))"
  shows "c \<in> set l \<longleftrightarrow> ys \<noteq> [] \<and> hd ys = c"
proof
  assume "c \<in> set l"
  then have c: "c \<in> set ys" using assms(1,2) by auto
  then obtain y ys' where ys: "ys = y # ys'" by (cases ys) auto
  have "dist_to t y \<le> dist_to t c" using assms(1,4) c by (auto simp: ys sorted_append)
  moreover have "dist_to t c \<le> dist_to t y" using assms(3) by (simp add: ys)
  ultimately have id: "contact_id y = contact_id c" by simp
  have "y \<in> insert c (set l)" unfolding assms(1) by (simp add: ys)
  then have "y = c" by (rule iffD1 [OF addressed_eq [OF assms(5) _ insertI1] id])
  then show "ys \<noteq> [] \<and> hd ys = c" by (simp add: ys)
next
  assume "ys \<noteq> [] \<and> hd ys = c"
  then have "c \<in> set ys" by (metis hd_in_set)
  then show "c \<in> set l" unfolding assms(1) by simp
qed

lemma insert_contact_distinct:
  assumes "by_dist t l" "addressed A (insert c (set l))" "distinct l"
  shows "distinct (insert_contact t c l)"
proof (rule search_cut [OF assms(1), of c])
  fix xs ys
  assume cut: "l = xs @ ys" "\<forall>d \<in> set xs. dist_to t d < dist_to t c"
    "\<forall>d \<in> set ys. dist_to t c \<le> dist_to t d"
    and ins: "insert_contact t c l = (case ys of [] \<Rightarrow> l @ [c] | y # ys' \<Rightarrow> if y = c then l else xs @ c # ys)"
  show ?thesis
    using search_cut_found [OF cut assms(1,2)] assms(3) cut(1) ins by (auto split: list.splits)
qed

lemma fold_insert_distinct:
  "by_dist t l \<Longrightarrow> addressed A (set l \<union> set cs) \<Longrightarrow> distinct l \<Longrightarrow>
   distinct (fold (insert_contact t) cs l)"
proof (induction cs arbitrary: l)
  case (Cons c cs)
  have "addressed A (insert c (set l))" using Cons.prems(2) by simp
  then have "distinct (insert_contact t c l)"
    by (rule insert_contact_distinct [OF Cons.prems(1) _ Cons.prems(3)])
  then show ?case
    using Cons.IH [of "insert_contact t c l"] Cons.prems
    by (simp add: insert_contact_set insert_contact_sorted)
qed simp

lemma sort_distinct_set:
  assumes "by_dist t l" "distinct l" "set l = set xs" "inj_on contact_id (set xs)"
  shows "l = sort_key (dist_to t) (remdups xs)"
proof (rule xor_distance.sort_by_distance)
  show "mset l = mset (remdups xs)"
    using assms(2,3) by (simp add: set_eq_iff_mset_eq_distinct [symmetric])
qed (use assms in simp_all)

lemma remove_contact_filter:
  assumes "by_dist t l" "addressed A (insert c (set l))" "distinct l"
  shows "remove_contact t c l = filter (\<lambda>d. d \<noteq> c) l"
proof (rule search_cut [OF assms(1), of c])
  fix xs ys
  assume cut: "l = xs @ ys" "\<forall>d \<in> set xs. dist_to t d < dist_to t c"
    "\<forall>d \<in> set ys. dist_to t c \<le> dist_to t d"
    and rem: "remove_contact t c l = (case ys of [] \<Rightarrow> l | y # ys' \<Rightarrow> if y = c then xs @ ys' else l)"
  note found = search_cut_found [OF cut assms(1,2)]
  show ?thesis
  proof (cases "c \<in> set l")
    case True
    then obtain ys' where ys: "ys = c # ys'" using found by (cases ys) auto
    then have "c \<notin> set xs" "c \<notin> set ys'" using assms(3) cut(1) by auto
    then have "filter (\<lambda>d. d \<noteq> c) xs = xs" "filter (\<lambda>d. d \<noteq> c) ys' = ys'"
      by (auto intro!: filter_True)
    then show ?thesis using rem by (simp add: cut(1) ys)
  next
    case False
    then have "filter (\<lambda>d. d \<noteq> c) l = l" by (auto intro!: filter_True)
    then show ?thesis using rem False found by (auto split: list.splits)
  qed
qed

subsection \<open>The operations\<close>

text \<open>
  With one address for each key a shortlist holds a set of contacts, closest first, and every
  operation is an operation on that set.
\<close>

definition sl_inv :: "(key \<Rightarrow> string) \<Rightarrow> shortlist \<Rightarrow> bool" where
  "sl_inv A s \<longleftrightarrow> 0 < sl_k s \<and> length (sl_list s) \<le> sl_k s \<and> by_dist (sl_target s) (sl_list s) \<and>
     distinct (sl_list s) \<and> addressed A (set (sl_list s))"

lemma sl_invD:
  assumes "sl_inv A s"
  shows "0 < sl_k s" "length (sl_list s) \<le> sl_k s" "by_dist (sl_target s) (sl_list s)"
    "distinct (sl_list s)" "addressed A (set (sl_list s))"
  using assms by (simp_all add: sl_inv_def)

lemma sl_inv_new: "0 < k \<Longrightarrow> sl_inv A (new_shortlist t k)"
  by (simp add: sl_inv_def new_shortlist_def)

lemma sl_inv_frame [simp]:
  "sl_inv A (s\<lparr>sl_contacted := C\<rparr>) = sl_inv A s" "sl_inv A (s\<lparr>sl_has_peers := P\<rparr>) = sl_inv A s"
  by (simp_all add: sl_inv_def)

lemma sl_insert_frame [simp]:
  "sl_k (sl_insert cs s) = sl_k s" "sl_target (sl_insert cs s) = sl_target s"
  "sl_contacted (sl_insert cs s) = sl_contacted s" "sl_has_peers (sl_insert cs s) = sl_has_peers s"
  by (simp_all add: sl_insert_def Let_def)

lemma sl_insert_list:
  "sl_list (sl_insert cs s) = take (sl_k s) (fold (insert_contact (sl_target s)) cs (sl_list s))"
  by (simp add: sl_insert_def Let_def)

lemma sl_insert_sort:
  assumes inv: "sl_inv A s" and new: "addressed A (set cs)"
  shows "fold (insert_contact (sl_target s)) cs (sl_list s) =
     sort_key (dist_to (sl_target s)) (remdups (sl_list s @ cs))"
proof (rule sort_distinct_set)
  note D = sl_invD [OF inv]
  show "distinct (fold (insert_contact (sl_target s)) cs (sl_list s))"
    by (rule fold_insert_distinct [OF D(3) _ D(4), of A]) (use D(5) new in simp)
  show "inj_on contact_id (set (sl_list s @ cs))"
    by (rule addressed_inj [of A]) (use D(5) new in simp)
  show "set (fold (insert_contact (sl_target s)) cs (sl_list s)) = set (sl_list s @ cs)"
    using fold_insert_set [OF D(3)] by simp
qed (rule fold_insert_sorted [OF sl_invD(3) [OF inv]])

lemma sl_insert_inv:
  assumes inv: "sl_inv A s" and new: "addressed A (set cs)"
  shows "sl_inv A (sl_insert cs s)"
proof -
  note D = sl_invD [OF inv]
  let ?l = "fold (insert_contact (sl_target s)) cs (sl_list s)"
  have "distinct ?l" "addressed A (set ?l)"
    using sl_insert_sort [OF assms] D(5) new by simp_all
  moreover have "by_dist (sl_target s) ?l" by (rule fold_insert_sorted [OF D(3)])
  ultimately show ?thesis
    using D(1) unfolding sl_inv_def sl_insert_list sl_insert_frame
    by (auto intro: sorted_map_take addressed_subset dest: in_set_takeD)
qed

lemma sl_set_contacted_eq:
  "sl_set_contacted cs s = s\<lparr>sl_contacted := sl_contacted s \<union> contact_id ` set cs\<rparr>"
  unfolding sl_set_contacted_def by (induction cs arbitrary: s) (auto simp: Un_commute)

lemma sl_set_has_peers_eq:
  "sl_set_has_peers cs s = s\<lparr>sl_has_peers := sl_has_peers s \<union> contact_id ` set cs\<rparr>"
  unfolding sl_set_has_peers_def by (induction cs arbitrary: s) (auto simp: Un_commute)

lemma sl_remove_frame [simp]:
  "sl_k (sl_remove cs s) = sl_k s" "sl_target (sl_remove cs s) = sl_target s"
  "sl_contacted (sl_remove cs s) = sl_contacted s - contact_id ` set cs"
  "sl_has_peers (sl_remove cs s) = sl_has_peers s"
  unfolding sl_remove_def by (induction cs arbitrary: s) auto

lemma sl_remove_Cons: "sl_remove (c # cs) s = sl_remove cs (sl_remove [c] s)"
  by (simp add: sl_remove_def)

lemma sl_remove_list:
  assumes "sl_inv A s" and "addressed A (set cs)"
  shows "sl_list (sl_remove cs s) = filter (\<lambda>c. c \<notin> set cs) (sl_list s)"
  using assms
proof (induction cs arbitrary: s)
  case Nil
  then show ?case by (simp add: sl_remove_def)
next
  case (Cons c cs)
  note D = sl_invD [OF Cons.prems(1)]
  let ?s = "sl_remove [c] s"
  have one: "sl_list ?s = filter (\<lambda>d. d \<noteq> c) (sl_list s)"
    using remove_contact_filter [OF D(3) _ D(4), of A c] D(5) Cons.prems(2)
    by (simp add: sl_remove_def)
  have "sl_inv A ?s"
    unfolding sl_inv_def sl_remove_frame one
    using D by (auto simp: addressed_def intro: sorted_filter le_trans [OF length_filter_le])
  then have "sl_list (sl_remove cs ?s) = filter (\<lambda>d. d \<notin> set cs) (sl_list ?s)"
    using Cons.IH Cons.prems(2) by simp
  then show ?case unfolding sl_remove_Cons [of c cs] one by (simp add: conj_commute)
qed

lemma sl_remove_inv:
  assumes inv: "sl_inv A s" and "addressed A (set cs)"
  shows "sl_inv A (sl_remove cs s)"
  unfolding sl_inv_def sl_remove_frame sl_remove_list [OF assms]
  using sl_invD [OF inv]
  by (auto simp: addressed_def intro: sorted_filter le_trans [OF length_filter_le])

lemma sl_all_contacted_iff:
  "sl_all_contacted s \<longleftrightarrow> contact_id ` set (sl_list s) \<subseteq> sl_contacted s"
proof -
  have "all_contacted D l \<longleftrightarrow> contact_id ` set l \<subseteq> D" for D l
    by (induction l) auto
  then show ?thesis by (simp add: sl_all_contacted_def)
qed

lemma sl_pick_eq:
  "sl_pick_not_contacted limit s =
     take (nat limit) (filter (\<lambda>c. contact_id c \<notin> sl_contacted s) (sl_list s))"
proof -
  have "pick_loop limit D p l = p @ take (nat limit - length p) (filter (\<lambda>c. contact_id c \<notin> D) l)"
    for D p l
  proof (induction l arbitrary: p)
    case (Cons c l)
    show ?case
    proof (cases "int (length p) \<ge> limit")
      case True
      then show ?thesis by simp
    next
      case False
      then have "nat limit - length p = Suc (nat limit - Suc (length p))" by linarith
      then show ?thesis using False by (simp add: Cons)
    qed
  qed simp
  then show ?thesis by (simp add: sl_pick_not_contacted_def)
qed

lemma sl_closest_without_eq:
  "sl_closest_without_value s =
     (case filter (\<lambda>c. contact_id c \<notin> sl_has_peers s) (sl_list s) of
        [] \<Rightarrow> Inl AllNodesHaveValue | c # _ \<Rightarrow> Inr c)"
proof -
  have "closest_without H l = (case filter (\<lambda>c. contact_id c \<notin> H) l of
        [] \<Rightarrow> Inl AllNodesHaveValue | c # _ \<Rightarrow> Inr c)" for H l
    by (induction l) auto
  then show ?thesis by (simp add: sl_closest_without_value_def)
qed

lemma sl_deep_copy_eq [simp]: "sl_deep_copy s = sl_list s"
  by (simp add: sl_deep_copy_def go_copy_def Let_def)

subsection \<open>Properties\<close>

definition sample_address :: "key \<Rightarrow> string" where
  "sample_address k = ''a:80''"

definition sample_shortlist :: shortlist where
  "sample_shortlist = sl_insert (map sample_contact [9, 4, 6, 4]) (new_shortlist (parse_uint64 7) 3)"

lemma sample_shortlist_inv: "sl_inv sample_address sample_shortlist"
  unfolding sample_shortlist_def
  by (rule sl_insert_inv [OF sl_inv_new]) (simp_all add: sample_address_def sample_contact_def)

text \<open>
  C23: \<^verbatim>\<open>Insert\<close> keeps the contacts closest to the target. If each key has one address, the
  list is afterwards the first \<open>k\<close> of all contacts, old and new, sorted by distance
  without repetition; so no contact left out is closer than one kept.
\<close>

theorem shortlist_insert_closest:
  assumes "sl_inv A s" and "addressed A (set cs)"
  shows "sl_inv A (sl_insert cs s) \<and>
     sl_list (sl_insert cs s) = take (sl_k s) (sort_key (dist_to (sl_target s)) (remdups (sl_list s @ cs))) \<and>
     sl_contacted (sl_insert cs s) = sl_contacted s \<and>
     (\<forall>c \<in> set (sl_list (sl_insert cs s)). \<forall>d \<in> set (sl_list s) \<union> set cs.
        d \<notin> set (sl_list (sl_insert cs s)) \<longrightarrow> dist_to (sl_target s) c \<le> dist_to (sl_target s) d)"
proof -
  let ?s = "sort_key (dist_to (sl_target s)) (remdups (sl_list s @ cs))"
  have eq: "sl_list (sl_insert cs s) = take (sl_k s) ?s"
    unfolding sl_insert_list sl_insert_sort [OF assms] ..
  have "by_dist (sl_target s) (take (sl_k s) ?s @ drop (sl_k s) ?s)"
    unfolding append_take_drop_id by (rule sorted_sort_key)
  then have le: "\<forall>c \<in> set (take (sl_k s) ?s). \<forall>d \<in> set (drop (sl_k s) ?s).
      dist_to (sl_target s) c \<le> dist_to (sl_target s) d"
    unfolding map_append sorted_append by simp
  have "set (take (sl_k s) ?s @ drop (sl_k s) ?s) = set (sl_list s) \<union> set cs"
    unfolding append_take_drop_id by simp
  then have "\<forall>c \<in> set (take (sl_k s) ?s). \<forall>d \<in> set (sl_list s) \<union> set cs.
      d \<notin> set (take (sl_k s) ?s) \<longrightarrow> dist_to (sl_target s) c \<le> dist_to (sl_target s) d"
    using le unfolding set_append by blast
  then show ?thesis
    unfolding eq using sl_insert_inv [OF assms] by (intro conjI refl) simp_all
qed

lemma shortlist_insert_closest_witness:
  "sl_list (sl_insert [sample_contact 5, sample_contact 6] sample_shortlist) =
     map sample_contact [6, 5, 4]"
proof -
  have "addressed sample_address (set [sample_contact 5, sample_contact 6])"
    by (simp add: sample_address_def sample_contact_def)
  from shortlist_insert_closest [OF sample_shortlist_inv this]
  have "sl_list (sl_insert [sample_contact 5, sample_contact 6] sample_shortlist) =
      take (sl_k sample_shortlist) (sort_key (dist_to (sl_target sample_shortlist))
        (remdups (sl_list sample_shortlist @ [sample_contact 5, sample_contact 6])))" by simp
  also have "\<dots> = map sample_contact [6, 5, 4]" by code_simp
  finally show ?thesis .
qed

text \<open>
  \<^verbatim>\<open>Remove\<close> takes exactly the given contacts off the list and forgets that they were
  contacted, and keeps the order of the rest.
\<close>

theorem shortlist_remove:
  assumes "sl_inv A s" and "addressed A (set cs)"
  shows "sl_inv A (sl_remove cs s) \<and>
     sl_list (sl_remove cs s) = filter (\<lambda>c. c \<notin> set cs) (sl_list s) \<and>
     sl_contacted (sl_remove cs s) = sl_contacted s - contact_id ` set cs"
  using sl_remove_inv [OF assms] sl_remove_list [OF assms] by simp

lemma shortlist_remove_witness:
  "sl_list (sl_remove [sample_contact 4, sample_contact 8] sample_shortlist) = map sample_contact [6, 9]"
proof -
  have "addressed sample_address (set [sample_contact 4, sample_contact 8])"
    by (simp add: sample_address_def sample_contact_def)
  from shortlist_remove [OF sample_shortlist_inv this]
  have "sl_list (sl_remove [sample_contact 4, sample_contact 8] sample_shortlist) =
      filter (\<lambda>c. c \<notin> set [sample_contact 4, sample_contact 8]) (sl_list sample_shortlist)" by simp
  also have "\<dots> = map sample_contact [6, 9]" by code_simp
  finally show ?thesis .
qed

text \<open>
  What a lookup asks of the shortlist. \<^verbatim>\<open>PickNotContacted\<close> returns the first contacts
  that were not contacted, at most \<open>limit\<close> of them (none for a negative limit);
  \<^verbatim>\<open>AllContacted\<close> says that there is none; \<^verbatim>\<open>PickClosestWithoutValue\<close> returns the first
  contact that had no peers, or an error when all had; \<^verbatim>\<open>DeepCopy\<close> returns the list.
\<close>

theorem shortlist_queries:
  "sl_pick_not_contacted limit s =
     take (nat limit) (filter (\<lambda>c. contact_id c \<notin> sl_contacted s) (sl_list s)) \<and>
   (sl_all_contacted s \<longleftrightarrow> filter (\<lambda>c. contact_id c \<notin> sl_contacted s) (sl_list s) = []) \<and>
   sl_closest_without_value s =
     (case filter (\<lambda>c. contact_id c \<notin> sl_has_peers s) (sl_list s) of
        [] \<Rightarrow> Inl AllNodesHaveValue | c # _ \<Rightarrow> Inr c) \<and>
   sl_deep_copy s = sl_list s \<and> (sl_head s = None \<longleftrightarrow> sl_len s = 0)"
  using sl_pick_eq sl_closest_without_eq
  by (auto simp: sl_all_contacted_iff filter_empty_conv sl_head_def sl_len_def split: list.splits)

text \<open>
  One key with two addresses defeats the check for duplicates in \<^verbatim>\<open>Insert\<close>: the search
  finds the first contact at the distance, and only that one is compared. Whatever the
  target, inserting \<open>c\<close>, \<open>d\<close> and again \<open>c\<close> leaves \<open>c\<close> in the list twice.
\<close>

theorem shortlist_insert_duplicate:
  assumes "contact_id c = contact_id d" and "c \<noteq> d" and "3 \<le> k"
  shows "sl_list (sl_insert [c, d, c] (new_shortlist t k)) = [c, d, c]"
proof -
  have nil: "insert_contact t c [] = [c]"
    by (simp add: insert_contact_eq sl_search_def go_search.simps)
  have hd: "insert_contact t y (x # l) = y # x # l"
    if "contact_id x = contact_id y" "x \<noteq> y" "by_dist t (x # l)" for x y l
  proof (rule search_cut [OF that(3), of y])
    fix xs ys
    assume l: "x # l = xs @ ys" "\<forall>e \<in> set xs. dist_to t e < dist_to t y"
      and ins: "insert_contact t y (x # l) =
        (case ys of [] \<Rightarrow> (x # l) @ [y] | z # zs \<Rightarrow> if z = y then x # l else xs @ y # ys)"
    have "xs = []" using l that(1) by (cases xs) auto
    then show ?thesis using l(1) ins that(2) by (auto split: list.splits)
  qed
  show ?thesis
    using assms nil hd [of c d "[]"] hd [of d c "[c]"] by (simp add: sl_insert_list new_shortlist_def)
qed

lemma shortlist_insert_duplicate_witness:
  "sl_list (sl_insert [sample_contact 1, (sample_contact 1)\<lparr>contact_address := ''b''\<rparr>, sample_contact 1]
     (new_shortlist zero_key 20)) =
   [sample_contact 1, (sample_contact 1)\<lparr>contact_address := ''b''\<rparr>, sample_contact 1]"
  by (rule shortlist_insert_duplicate) (simp_all add: sample_contact_def)

end
