(* ===== verification/Lookup.thy ===== *)
theory Lookup
  imports Shortlist Peer_Store
begin

text \<open>
  The iterative lookup (\<^verbatim>\<open>lookup\<close> in \<^verbatim>\<open>dht/node.go\<close>), as a state machine.  A round picks
  contacts and sends each a query from a goroutine of its own; the goroutines and the loop
  share the shortlist, each call on it is atomic.  One event is one such call:

  \<^item> \<open>Launch\<close>: the loop marks the next picked contact as contacted and starts its query.
  \<^item> \<open>Reply c a\<close>: the query to \<open>c\<close> ends with the answer \<open>a\<close>; \<open>Unreachable\<close> is any error.
  \<^item> \<open>Finish c late\<close>: after a reply the goroutine offers itself on \<^verbatim>\<open>done\<close>; when nobody
    receives yet (\<open>late\<close>), it inserts \<open>c\<close> again.  After an error the offer has no effect.
  \<^item> \<open>End_round\<close>: \<^verbatim>\<open>wg.Wait\<close> returns, which it does when every query has finished.

  The answers, their order and the interleaving are free.
\<close>

datatype lookup_kind = FindNodeLookup | FindPeersLookup

datatype answer = Unreachable | Nodes "contact list" | Peers "peer list"

datatype event = Launch | Reply contact answer | Finish contact bool | End_round

text \<open>
  \<open>FoundPeers ps dst\<close> also says to which contact, if any, the peers are sent for caching.
\<close>

datatype outcome =
    FoundPeers "peer list" "contact option"
  | NotFound "contact list"
  | Failed error

record lookup =
  lk_kind :: lookup_kind
  lk_alpha :: int
  lk_closest :: shortlist
  lk_peers :: "peer list option"
  lk_closest_node :: contact
  lk_limit :: int
  lk_todo :: "contact list"      \<comment> \<open>the rest of \<^verbatim>\<open>toContact\<close>\<close>
  lk_running :: "contact list"   \<comment> \<open>queries without an answer\<close>
  lk_replied :: "contact list"   \<comment> \<open>goroutines before their \<^verbatim>\<open>select\<close>\<close>

datatype status = Running lookup | Returned outcome

definition max_int :: int where
  "max_int = 2 ^ 63 - 1"

text \<open>The head of the loop: pick contacts for a round.\<close>

definition begin_round :: "lookup \<Rightarrow> lookup" where
  "begin_round s = s\<lparr>lk_todo := sl_pick_not_contacted (lk_limit s) (lk_closest s)\<rparr>"

text \<open>
  The start, from what \<^verbatim>\<open>FindClosestNodes\<close> returned.  A negative \<open>alpha\<close> is a slice bound out
  of range; with \<open>alpha = 0\<close> the list stays empty and \<^verbatim>\<open>closest.list[0]\<close> panics.
\<close>

definition lookup_start :: "lookup_kind \<Rightarrow> int \<Rightarrow> nat \<Rightarrow> key \<Rightarrow> contact list \<Rightarrow> status option" where
  "lookup_start lk alpha K k initial =
     (let closest = new_shortlist k K in
      if length initial = 0 then Some (Returned (Failed NoCloseNodes))
      else if int (length initial) > alpha \<and> alpha < 0 then None
      else let initial = (if int (length initial) > alpha then take (nat alpha) initial else initial);
               closest = sl_insert initial closest
           in case sl_list closest of [] \<Rightarrow> None
              | c # _ \<Rightarrow> Some (Running (begin_round
                  \<lparr>lk_kind = lk, lk_alpha = alpha, lk_closest = closest, lk_peers = None,
                   lk_closest_node = c, lk_limit = alpha, lk_todo = [], lk_running = [],
                   lk_replied = []\<rparr>)))"

text \<open>The end of a round.  The outer \<open>None\<close> is a panic of \<^verbatim>\<open>Head\<close>.\<close>

definition end_round :: "lookup \<Rightarrow> status option" where
  "end_round s =
     (case lk_peers s of
        Some p \<Rightarrow> Some (Returned (FoundPeers p
          (case sl_closest_without_value (lk_closest s) of Inl _ \<Rightarrow> None | Inr c \<Rightarrow> Some c)))
      | None \<Rightarrow>
          if sl_len (lk_closest s) = 0 then Some (Returned (Failed AllContactsUnreachable))
          else case sl_head (lk_closest s) of None \<Rightarrow> None | Some h \<Rightarrow>
            if lk_closest_node s \<noteq> h
            then Some (Running (begin_round (s\<lparr>lk_closest_node := h, lk_limit := lk_alpha s\<rparr>)))
            else if sl_all_contacted (lk_closest s)
            then Some (Returned (NotFound (sl_deep_copy (lk_closest s))))
            else Some (Running (begin_round (s\<lparr>lk_limit := max_int\<rparr>))))"

fun on_reply :: "contact \<Rightarrow> answer \<Rightarrow> lookup \<Rightarrow> lookup" where
  "on_reply c Unreachable s = s\<lparr>lk_closest := sl_remove [c] (lk_closest s)\<rparr>"
| "on_reply c (Nodes cs) s =
     s\<lparr>lk_closest := sl_insert cs (lk_closest s), lk_replied := lk_replied s @ [c]\<rparr>"
| "on_reply c (Peers ps) s =
     s\<lparr>lk_peers := Some ps, lk_closest := sl_set_has_peers [c] (lk_closest s),
       lk_replied := lk_replied s @ [c]\<rparr>"

text \<open>\<open>None\<close>: the event cannot happen in the state.\<close>

fun lookup_step :: "lookup \<Rightarrow> event \<Rightarrow> status option" where
  "lookup_step s Launch =
     (case lk_todo s of [] \<Rightarrow> None
      | c # cs \<Rightarrow> Some (Running (s\<lparr>lk_todo := cs, lk_running := lk_running s @ [c],
          lk_closest := sl_set_contacted [c] (lk_closest s)\<rparr>)))"
| "lookup_step s (Reply c a) =
     (if c \<notin> set (lk_running s) \<or> (lk_kind s = FindNodeLookup \<and> (case a of Peers _ \<Rightarrow> True | _ \<Rightarrow> False)) then None
      else Some (Running (on_reply c a (s\<lparr>lk_running := remove1 c (lk_running s)\<rparr>))))"
| "lookup_step s (Finish c late) =
     (if c \<notin> set (lk_replied s) then None
      else Some (Running (s\<lparr>lk_replied := remove1 c (lk_replied s),
        lk_closest := (if late then sl_insert [c] (lk_closest s) else lk_closest s)\<rparr>)))"
| "lookup_step s End_round =
     (if lk_todo s \<noteq> [] \<or> lk_running s \<noteq> [] \<or> lk_replied s \<noteq> [] then None else end_round s)"

fun lookup_run :: "status \<Rightarrow> event list \<Rightarrow> status option" where
  "lookup_run st [] = Some st"
| "lookup_run (Running s) (e # es) =
     (case lookup_step s e of None \<Rightarrow> None | Some st \<Rightarrow> lookup_run st es)"
| "lookup_run (Returned r) (e # es) = None"

subsection \<open>The invariant\<close>

abbreviation ids :: "contact list \<Rightarrow> key set" where
  "ids cs \<equiv> contact_id ` set cs"

text \<open>The queries of a round, in whatever stage.\<close>

definition lk_round :: "lookup \<Rightarrow> contact list" where
  "lk_round s = lk_todo s @ lk_running s @ lk_replied s"

text \<open>The keys whose contacts have replied and are still considered.\<close>

definition ok_keys :: "lookup \<Rightarrow> key set" where
  "ok_keys s = sl_contacted (lk_closest s) - ids (lk_running s)"

definition lookup_inv :: "(key \<Rightarrow> string) \<Rightarrow> lookup \<Rightarrow> bool" where
  "lookup_inv A s \<longleftrightarrow>
     sl_inv A (lk_closest s) \<and> 1 \<le> lk_alpha s \<and> 1 \<le> lk_limit s \<and>
     addressed A (set (lk_round s)) \<and> distinct (map contact_id (lk_round s)) \<and>
     ids (lk_todo s) \<inter> sl_contacted (lk_closest s) = {} \<and>
     ids (lk_running s) \<subseteq> sl_contacted (lk_closest s) \<and>
     ids (lk_replied s) \<subseteq> sl_contacted (lk_closest s)"

text \<open>Every node names other nodes with their own address.\<close>

fun consistent :: "(key \<Rightarrow> string) \<Rightarrow> event \<Rightarrow> bool" where
  "consistent A (Reply c (Nodes cs)) \<longleftrightarrow> addressed A (set cs)"
| "consistent A _ \<longleftrightarrow> True"

lemma lookup_invD:
  assumes "lookup_inv A s"
  shows "sl_inv A (lk_closest s)" "1 \<le> lk_alpha s" "1 \<le> lk_limit s"
    "addressed A (set (lk_round s))" "distinct (map contact_id (lk_round s))"
    "ids (lk_todo s) \<inter> sl_contacted (lk_closest s) = {}"
    "ids (lk_running s) \<subseteq> sl_contacted (lk_closest s)"
    "ids (lk_replied s) \<subseteq> sl_contacted (lk_closest s)"
  using assms by (simp_all add: lookup_inv_def)

lemma lk_round_set: "set (lk_round s) = set (lk_todo s) \<union> set (lk_running s) \<union> set (lk_replied s)"
  by (auto simp: lk_round_def)

text \<open>A round that begins.\<close>

lemma lookup_inv_begin:
  assumes "sl_inv A (lk_closest s)" "1 \<le> lk_alpha s" "1 \<le> lk_limit s"
    "lk_running s = []" "lk_replied s = []"
  shows "lookup_inv A (begin_round s)"
proof -
  note D = sl_invD [OF assms(1)]
  let ?new = "filter (\<lambda>c. contact_id c \<notin> sl_contacted (lk_closest s)) (sl_list (lk_closest s))"
  have todo: "lk_todo (begin_round s) = take (nat (lk_limit s)) ?new"
    by (simp add: begin_round_def sl_pick_eq)
  then have sub: "set (lk_todo (begin_round s)) \<subseteq> set ?new" by (simp only: set_take_subset)
  have "distinct (map contact_id ?new)"
    using D(4) addressed_inj [OF D(5)] by (auto simp: distinct_map intro: inj_on_subset)
  then have "distinct (map contact_id (lk_todo (begin_round s)))"
    unfolding todo take_map [symmetric] by (rule distinct_take)
  moreover have "addressed A (set (lk_todo (begin_round s)))"
    by (rule addressed_subset [OF D(5)]) (use sub in auto)
  moreover have "ids (lk_todo (begin_round s)) \<inter> sl_contacted (lk_closest s) = {}"
    using sub by auto
  ultimately show ?thesis
    using assms by (simp add: lookup_inv_def lk_round_def begin_round_def)
qed

lemma lookup_inv_launch:
  assumes inv: "lookup_inv A s" and step: "lookup_step s Launch = Some (Running s')"
  obtains c where "lookup_inv A s'" "lk_todo s = c # lk_todo s'" "lk_running s' = lk_running s @ [c]"
    "lk_replied s' = lk_replied s" "sl_list (lk_closest s') = sl_list (lk_closest s)"
    "sl_contacted (lk_closest s') = insert (contact_id c) (sl_contacted (lk_closest s))"
    "ok_keys s' = ok_keys s"
proof -
  obtain c cs where todo: "lk_todo s = c # cs"
    and s': "s' = s\<lparr>lk_todo := cs, lk_running := lk_running s @ [c],
      lk_closest := sl_set_contacted [c] (lk_closest s)\<rparr>"
    using step by (auto split: list.splits)
  note D = lookup_invD [OF inv]
  have new: "contact_id c \<notin> sl_contacted (lk_closest s)" using D(6) todo by auto
  show thesis
  proof (rule that)
    show "lookup_inv A s'"
      using D new unfolding lookup_inv_def s' lk_round_def todo
      by (auto simp: sl_set_contacted_eq)
    show "ok_keys s' = ok_keys s"
      using new by (auto simp: ok_keys_def s' sl_set_contacted_eq)
  qed (simp_all add: s' todo sl_set_contacted_eq)
qed

lemma distinct_submset:
  assumes "mset xs \<subseteq># mset ys" "distinct ys"
  shows "distinct xs"
proof -
  obtain zs where "mset ys = mset (xs @ zs)"
    using assms(1) by (metis ex_mset mset_append mset_subset_eq_exists_conv)
  then have "distinct (xs @ zs)" using assms(2) by (metis mset_eq_imp_distinct_iff)
  then show ?thesis by simp
qed

text \<open>Taking \<open>c\<close> out of a part of the round and putting it at most into another.\<close>

lemma lookup_inv_round:
  assumes inv: "lookup_inv A s" and sub: "mset (lk_round s') \<subseteq># mset (lk_round s)"
  shows "addressed A (set (lk_round s'))" "distinct (map contact_id (lk_round s'))"
proof -
  show "addressed A (set (lk_round s'))"
    by (rule addressed_subset [OF lookup_invD(4) [OF inv]]) (use set_mset_mono [OF sub] in simp)
  have "mset (map contact_id (lk_round s')) \<subseteq># mset (map contact_id (lk_round s))"
    using image_mset_subseteq_mono [OF sub] by simp
  then show "distinct (map contact_id (lk_round s'))"
    by (rule distinct_submset) (rule lookup_invD(5) [OF inv])
qed

lemma mset_remove1_split: "c \<in> set xs \<Longrightarrow> mset xs = add_mset c (mset (remove1 c xs))"
  by simp

lemma ids_remove1:
  assumes "distinct (map contact_id xs)" "c \<in> set xs"
  shows "ids (remove1 c xs) = ids xs - {contact_id c}"
proof -
  have "distinct xs" "inj_on contact_id (set xs)" using assms(1) by (auto simp: distinct_map)
  then show ?thesis using assms(2) by (auto simp: set_remove1_eq inj_on_def)
qed

lemma lookup_inv_reply:
  assumes inv: "lookup_inv A s" and con: "consistent A (Reply c a)"
    and step: "lookup_step s (Reply c a) = Some (Running s')"
  shows "lookup_inv A s'" "c \<in> set (lk_running s)" "lk_running s' = remove1 c (lk_running s)"
    "lk_todo s' = lk_todo s" "contact_id c \<in> sl_contacted (lk_closest s)"
    "contact_id c \<notin> ok_keys s"
    "ok_keys s' = (if a = Unreachable then ok_keys s else insert (contact_id c) (ok_keys s))"
    "lk_replied s' = (if a = Unreachable then lk_replied s else lk_replied s @ [c])"
    "a = Unreachable \<Longrightarrow> sl_list (lk_closest s') = filter (\<lambda>d. d \<noteq> c) (sl_list (lk_closest s)) \<and>
       sl_contacted (lk_closest s') = sl_contacted (lk_closest s) - {contact_id c}"
proof -
  note D = lookup_invD [OF inv]
  show run: "c \<in> set (lk_running s)" using step by (simp split: if_splits)
  let ?s = "s\<lparr>lk_running := remove1 c (lk_running s)\<rparr>"
  have s': "s' = on_reply c a ?s" using step by (simp split: if_splits)
  show running: "lk_running s' = remove1 c (lk_running s)" and todo: "lk_todo s' = lk_todo s"
    and replied: "lk_replied s' = (if a = Unreachable then lk_replied s else lk_replied s @ [c])"
    unfolding s' by (cases a; simp)+
  have dist: "distinct (map contact_id (lk_running s))" "contact_id c \<notin> ids (lk_replied s)"
    "contact_id c \<notin> ids (lk_todo s)"
    using D(5) run by (auto simp: lk_round_def)
  have addr: "addressed A {c}"
    by (rule addressed_subset [OF D(4)]) (use run in \<open>simp add: lk_round_set\<close>)
  note ids = ids_remove1 [OF dist(1) run]
  show cont: "contact_id c \<in> sl_contacted (lk_closest s)" using D(7) run by auto
  show notok: "contact_id c \<notin> ok_keys s" using run by (auto simp: ok_keys_def)
  have lists: "a = Unreachable \<Longrightarrow> sl_list (lk_closest s') = filter (\<lambda>d. d \<noteq> c) (sl_list (lk_closest s))"
    using sl_remove_list [OF D(1), of "[c]"] addr by (simp add: s')
  have contacted: "sl_contacted (lk_closest s') =
      (if a = Unreachable then sl_contacted (lk_closest s) - {contact_id c} else sl_contacted (lk_closest s))"
    unfolding s' by (cases a) (simp_all add: sl_set_has_peers_eq)
  show "a = Unreachable \<Longrightarrow> sl_list (lk_closest s') = filter (\<lambda>d. d \<noteq> c) (sl_list (lk_closest s)) \<and>
       sl_contacted (lk_closest s') = sl_contacted (lk_closest s) - {contact_id c}"
    using lists contacted by simp
  show "ok_keys s' = (if a = Unreachable then ok_keys s else insert (contact_id c) (ok_keys s))"
    using cont imageI [OF run, of contact_id] by (auto simp: ok_keys_def contacted running ids)
  have closest: "sl_inv A (lk_closest s')"
    using sl_remove_inv [OF D(1), of "[c]"] sl_insert_inv [OF D(1)] D(1) addr con
    unfolding s' by (cases a) (simp_all add: sl_set_has_peers_eq)
  have sub: "mset (lk_round s') \<subseteq># mset (lk_round s)"
    using run by (simp add: lk_round_def todo running replied ac_simps)
  have const: "lk_alpha s' = lk_alpha s" "lk_limit s' = lk_limit s" unfolding s' by (cases a; simp)+
  have "ids (lk_replied s) \<subseteq> sl_contacted (lk_closest s) - {contact_id c}"
    using D(8) dist(2) by (simp add: subset_Diff_insert)
  then have "ids (lk_replied s') \<subseteq> sl_contacted (lk_closest s')"
    using cont by (simp add: replied contacted subset_Diff_insert)
  moreover have "ids (lk_running s') \<subseteq> sl_contacted (lk_closest s')"
    using D(7) unfolding running ids contacted by auto
  moreover have "ids (lk_todo s') \<inter> sl_contacted (lk_closest s') = {}"
    using D(6) unfolding todo contacted by auto
  ultimately show "lookup_inv A s'"
    unfolding lookup_inv_def const
    using closest D(2,3) lookup_inv_round [OF inv sub] by simp
qed

lemma lookup_inv_finish:
  assumes inv: "lookup_inv A s" and step: "lookup_step s (Finish c late) = Some (Running s')"
  shows "lookup_inv A s'" "c \<in> set (lk_replied s)" "lk_replied s' = remove1 c (lk_replied s)"
    "lk_todo s' = lk_todo s" "lk_running s' = lk_running s" "ok_keys s' = ok_keys s"
    "lk_closest s' = (if late then sl_insert [c] (lk_closest s) else lk_closest s)"
proof -
  note D = lookup_invD [OF inv]
  show mem: "c \<in> set (lk_replied s)" using step by (simp split: if_splits)
  have s': "s' = s\<lparr>lk_replied := remove1 c (lk_replied s),
        lk_closest := (if late then sl_insert [c] (lk_closest s) else lk_closest s)\<rparr>"
    using mem step by simp
  show frame: "lk_replied s' = remove1 c (lk_replied s)" "lk_todo s' = lk_todo s"
    "lk_running s' = lk_running s"
    and closest: "lk_closest s' = (if late then sl_insert [c] (lk_closest s) else lk_closest s)"
    by (simp_all add: s')
  have contacted: "sl_contacted (lk_closest s') = sl_contacted (lk_closest s)" by (simp add: closest)
  show "ok_keys s' = ok_keys s" by (simp add: ok_keys_def frame contacted)
  have addr: "addressed A (set [c])"
    by (rule addressed_subset [OF D(4)]) (use mem in \<open>simp add: lk_round_set\<close>)
  have sub: "mset (lk_round s') \<subseteq># mset (lk_round s)"
    using mem by (simp add: lk_round_def frame ac_simps)
  have const: "lk_alpha s' = lk_alpha s" "lk_limit s' = lk_limit s" by (simp_all add: s')
  have "sl_inv A (lk_closest s')" using D(1) sl_insert_inv [OF D(1) addr] by (simp add: closest)
  moreover have "ids (lk_replied s') \<subseteq> sl_contacted (lk_closest s')"
    using D(8) unfolding contacted frame by (meson image_mono set_remove1_subset subset_trans)
  ultimately show "lookup_inv A s'"
    unfolding lookup_inv_def const contacted frame(2,3)
    using D(2,3,6,7) lookup_inv_round [OF inv sub] contacted by simp
qed

text \<open>The end of a round that begins another one.\<close>

lemma end_round_cases:
  assumes inv: "lookup_inv A s" and step: "lookup_step s End_round = Some (Running s')"
  obtains h limit where "s' = begin_round (s\<lparr>lk_closest_node := h, lk_limit := limit\<rparr>)"
    "lk_todo s = []" "lk_running s = []" "lk_replied s = []" "lk_peers s = None"
    "sl_head (lk_closest s) = Some h" "1 \<le> limit"
    "(lk_closest_node s \<noteq> h \<and> limit = lk_alpha s) \<or>
     (lk_closest_node s = h \<and> limit = max_int \<and> \<not> sl_all_contacted (lk_closest s))"
proof -
  have idle: "lk_todo s = []" "lk_running s = []" "lk_replied s = []" and er: "end_round s = Some (Running s')"
    using step by (simp_all split: if_splits)
  have p: "lk_peers s = None" and len: "sl_len (lk_closest s) \<noteq> 0"
    using er by (auto simp: end_round_def split: option.splits if_splits)
  then obtain h where h: "sl_head (lk_closest s) = Some h"
    by (cases "sl_list (lk_closest s)") (auto simp: sl_len_def sl_head_def)
  show thesis
  proof (cases "lk_closest_node s = h")
    case True
    then have "\<not> sl_all_contacted (lk_closest s)" "s' = begin_round (s\<lparr>lk_limit := max_int\<rparr>)"
      using er p len h by (auto simp: end_round_def split: if_splits)
    moreover have same: "s\<lparr>lk_closest_node := h\<rparr> = s" using True by (cases s) simp
    ultimately show thesis
      using idle p h True
      by (intro that [where h = h and limit = max_int]) (simp_all only: same, simp_all add: max_int_def)
  next
    case False
    then have "s' = begin_round (s\<lparr>lk_closest_node := h, lk_limit := lk_alpha s\<rparr>)"
      using er p len h by (simp add: end_round_def)
    then show thesis
      using that [where h = h and limit = "lk_alpha s"] idle p h False lookup_invD(2) [OF inv] by simp
  qed
qed

lemma lookup_step_inv:
  assumes inv: "lookup_inv A s" and con: "consistent A e" and step: "lookup_step s e = Some (Running s')"
  shows "lookup_inv A s'"
proof (cases e)
  case Launch
  show ?thesis by (rule lookup_inv_launch [OF inv step [unfolded Launch]])
next
  case (Reply c a)
  then show ?thesis using lookup_inv_reply(1) [OF inv] con step by simp
next
  case (Finish c late)
  then show ?thesis using lookup_inv_finish(1) [OF inv] step by simp
next
  case End_round
  show ?thesis
  proof (rule end_round_cases [OF inv step [unfolded End_round]])
    fix h limit
    assume s': "s' = begin_round (s\<lparr>lk_closest_node := h, lk_limit := limit\<rparr>)"
      and "lk_running s = []" "lk_replied s = []" "1 \<le> limit"
    then show ?thesis
      unfolding s' using lookup_invD(1,2) [OF inv] by (intro lookup_inv_begin) simp_all
  qed
qed

subsection \<open>Termination\<close>

text \<open>Contacts on the shortlist that no query of the round is for.\<close>

definition lk_idle :: "lookup \<Rightarrow> contact set" where
  "lk_idle s = {c \<in> set (sl_list (lk_closest s)). contact_id c \<notin> sl_contacted (lk_closest s) \<and>
     c \<notin> set (lk_todo s)}"

definition lk_work :: "lookup \<Rightarrow> nat" where
  "lk_work s = 3 * card (lk_idle s) + 2 * length (lk_todo s) + length (lk_running s)"

definition lk_moved :: "lookup \<Rightarrow> nat" where
  "lk_moved s = (if sl_head (lk_closest s) = Some (lk_closest_node s) then 0 else 1)"

text \<open>
  What decreases, most significant first: the keys that have not replied; the replies whose
  goroutine has not ended; the queries still to make; whether the head has changed.
\<close>

definition lookup_order :: "(lookup \<times> lookup) set" where
  "lookup_order = measures [\<lambda>s. card (- ok_keys s), \<lambda>s. length (lk_replied s), lk_work, lk_moved]"

lemma wf_lookup_order: "wf lookup_order"
  by (simp add: lookup_order_def)

lemma finite_idle: "finite (lk_idle s)"
  by (rule finite_subset [of _ "set (sl_list (lk_closest s))"]) (auto simp: lk_idle_def)

lemma length_remove1_less: "c \<in> set xs \<Longrightarrow> length (remove1 c xs) < length xs"
  using length_pos_if_in_set [of c xs] by (simp add: length_remove1)

lemma lookup_step_decreases:
  assumes inv: "lookup_inv A s" and con: "consistent A e" and step: "lookup_step s e = Some (Running s')"
  shows "(s', s) \<in> lookup_order"
proof (cases e)
  case Launch
  show ?thesis
  proof (rule lookup_inv_launch [OF inv step [unfolded Launch]])
    fix c
    assume s': "lk_todo s = c # lk_todo s'" "lk_running s' = lk_running s @ [c]"
      "lk_replied s' = lk_replied s" "sl_list (lk_closest s') = sl_list (lk_closest s)"
      "sl_contacted (lk_closest s') = insert (contact_id c) (sl_contacted (lk_closest s))"
      "ok_keys s' = ok_keys s"
    have "lk_idle s' \<subseteq> lk_idle s" unfolding lk_idle_def s'(1,4,5) by auto
    then have "card (lk_idle s') \<le> card (lk_idle s)" by (rule card_mono [OF finite_idle])
    then have "lk_work s' < lk_work s" by (simp add: lk_work_def s'(1,2))
    then show ?thesis by (simp add: lookup_order_def s'(3,6))
  qed
next
  case (Reply c a)
  note R = lookup_inv_reply [OF inv con [unfolded Reply] step [unfolded Reply]]
  show ?thesis
  proof (cases "a = Unreachable")
    case True
    have c: "contact_address c = A (contact_id c)"
      using lookup_invD(4) [OF inv] R(2) by (auto simp: addressed_def lk_round_set)
    have list: "\<forall>d \<in> set (sl_list (lk_closest s)). contact_id d = contact_id c \<longrightarrow> d = c"
      using sl_invD(5) [OF lookup_invD(1) [OF inv]] c by (auto simp: addressed_def intro: contact.equality)
    have "lk_idle s' \<subseteq> lk_idle s"
      unfolding lk_idle_def R(4) using R(9) [OF True] list by auto
    then have "card (lk_idle s') \<le> card (lk_idle s)" by (rule card_mono [OF finite_idle])
    moreover have "length (lk_running s') < length (lk_running s)"
      unfolding R(3) by (rule length_remove1_less [OF R(2)])
    ultimately have "lk_work s' < lk_work s" by (simp add: lk_work_def R(4))
    then show ?thesis using R(7,8) True by (simp add: lookup_order_def)
  next
    case False
    have "card (- ok_keys s') < card (- ok_keys s)"
      using R(6,7) False by (intro psubset_card_mono) auto
    then show ?thesis by (simp add: lookup_order_def)
  qed
next
  case (Finish c late)
  note F = lookup_inv_finish [OF inv step [unfolded Finish]]
  have "length (lk_replied s') < length (lk_replied s)"
    unfolding F(3) by (rule length_remove1_less [OF F(2)])
  then show ?thesis by (simp add: lookup_order_def F(6))
next
  case End_round
  show ?thesis
  proof (rule end_round_cases [OF inv step [unfolded End_round]])
    fix h limit
    let ?r = "s\<lparr>lk_closest_node := h, lk_limit := limit\<rparr>"
    let ?new = "filter (\<lambda>c. contact_id c \<notin> sl_contacted (lk_closest s)) (sl_list (lk_closest s))"
    assume s': "s' = begin_round ?r"
      and idle: "lk_todo s = []" "lk_running s = []" "lk_replied s = []"
      and h: "sl_head (lk_closest s) = Some h" "1 \<le> limit"
      "(lk_closest_node s \<noteq> h \<and> limit = lk_alpha s) \<or>
       (lk_closest_node s = h \<and> limit = max_int \<and> \<not> sl_all_contacted (lk_closest s))"
    have todo: "lk_todo s' = take (nat limit) ?new" by (simp add: s' begin_round_def sl_pick_eq)
    have same: "lk_closest s' = lk_closest s" "lk_running s' = []" "lk_replied s' = []" "lk_closest_node s' = h"
      by (simp_all add: s' begin_round_def idle)
    have ok: "ok_keys s' = ok_keys s" by (simp add: ok_keys_def same idle)
    show ?thesis
    proof (cases "?new = []")
      case True
      then have "sl_all_contacted (lk_closest s)" by (auto simp: sl_all_contacted_iff filter_empty_conv)
      then have "lk_moved s' < lk_moved s" using h by (auto simp: lk_moved_def same)
      moreover have "lk_idle s' = lk_idle s" "lk_todo s' = []"
        using True by (simp_all add: lk_idle_def same idle todo)
      ultimately show ?thesis
        by (simp add: lookup_order_def ok same idle lk_work_def)
    next
      case False
      have ne: "lk_todo s' \<noteq> []" using False h(2) by (simp add: todo)
      have dist: "distinct (lk_todo s')"
        using sl_invD(4) [OF lookup_invD(1) [OF inv]] by (simp add: todo)
      have "set (lk_todo s') \<subseteq> set ?new" unfolding todo by (rule set_take_subset)
      then have split: "lk_idle s = lk_idle s' \<union> set (lk_todo s')" "lk_idle s' \<inter> set (lk_todo s') = {}"
        by (auto simp: lk_idle_def same idle)
      have "card (lk_idle s) = card (lk_idle s') + length (lk_todo s')"
        unfolding split(1) using card_Un_disjoint [OF finite_idle _ split(2)] distinct_card [OF dist] by simp
      then have "lk_work s' < lk_work s" using ne by (cases "lk_todo s'") (simp_all add: lk_work_def same idle)
      then show ?thesis by (simp add: lookup_order_def ok same idle)
    qed
  qed
qed

subsection \<open>Progress\<close>

lemma end_round_no_panic: "end_round s \<noteq> None"
  by (auto simp: end_round_def sl_len_def sl_head_def split: option.splits list.splits)

lemma lookup_step_progress: "\<exists>e. lookup_step s e \<noteq> None \<and> consistent A e"
proof (cases "lk_todo s")
  case todo: Nil
  show ?thesis
  proof (cases "lk_running s")
    case running: Nil
    show ?thesis
    proof (cases "lk_replied s")
      case Nil
      then show ?thesis
        using todo running end_round_no_panic by (intro exI [of _ End_round]) simp
    next
      case (Cons c cs)
      then show ?thesis by (intro exI [of _ "Finish c False"]) simp
    qed
  next
    case (Cons c cs)
    then show ?thesis by (intro exI [of _ "Reply c Unreachable"]) simp
  qed
next
  case (Cons c cs)
  then show ?thesis by (intro exI [of _ Launch]) simp
qed

text \<open>The start of a lookup.\<close>

lemma lookup_start_inv:
  assumes st: "lookup_start lk alpha K k initial = Some (Running s)"
    and K: "0 < K" and addr: "addressed A (set initial)"
  shows "lookup_inv A s" "lk_peers s = None" "lk_running s = []" "lk_replied s = []"
    "sl_target (lk_closest s) = k" "sl_k (lk_closest s) = K" "sl_contacted (lk_closest s) = {}"
    "sl_list (lk_closest s) = sl_list (sl_insert (take (nat alpha) initial) (new_shortlist k K))"
    "initial \<noteq> []" "1 \<le> alpha"
proof -
  let ?i = "if int (length initial) > alpha then take (nat alpha) initial else initial"
  let ?c = "sl_insert ?i (new_shortlist k K)"
  have ne: "initial \<noteq> []" and nn: "\<not> (int (length initial) > alpha \<and> alpha < 0)"
    using st by (auto simp: lookup_start_def Let_def split: if_splits)
  show "initial \<noteq> []" by (rule ne)
  obtain c cs where c: "sl_list ?c = c # cs"
    using st ne nn by (auto simp: lookup_start_def Let_def split: list.splits)
  have s: "s = begin_round \<lparr>lk_kind = lk, lk_alpha = alpha, lk_closest = ?c, lk_peers = None,
      lk_closest_node = c, lk_limit = alpha, lk_todo = [], lk_running = [], lk_replied = []\<rparr>"
    using st ne nn c by (simp add: lookup_start_def Let_def)
  have i: "?i = take (nat alpha) initial" by auto
  show alpha: "1 \<le> alpha"
  proof (rule ccontr)
    assume "\<not> 1 \<le> alpha"
    then have "?i = []" using nn ne by (auto simp: i)
    then show False using c by (simp add: sl_insert_list new_shortlist_def)
  qed
  have "addressed A (set ?i)"
    by (rule addressed_subset [OF addr]) (auto dest: in_set_takeD)
  then have "sl_inv A ?c" by (rule sl_insert_inv [OF sl_inv_new [OF K]])
  then show "lookup_inv A s" unfolding s using alpha by (intro lookup_inv_begin) simp_all
  show "sl_list (lk_closest s) = sl_list (sl_insert (take (nat alpha) initial) (new_shortlist k K))"
    unfolding s i by (simp add: begin_round_def)
qed (use st in \<open>auto simp: lookup_start_def Let_def begin_round_def new_shortlist_def split: if_splits list.splits\<close>)

subsection \<open>Runs\<close>

lemma lookup_run_snoc:
  "lookup_run st (evs @ [e]) =
     (case lookup_run st evs of Some (Running s) \<Rightarrow> lookup_step s e | _ \<Rightarrow> None)"
proof (induction evs arbitrary: st)
  case Nil
  then show ?case by (cases st) (auto split: option.splits)
next
  case (Cons d evs)
  then show ?case by (cases st) (auto split: option.splits)
qed

text \<open>A run that returns goes through running states up to the event that returns.\<close>

lemma lookup_run_induct [consumes 1, case_names start step]:
  assumes run: "lookup_run (Running s0) evs = Some (Running s)"
    and start: "P [] s0"
    and step: "\<And>evs s e s'. P evs s \<Longrightarrow> lookup_run (Running s0) evs = Some (Running s) \<Longrightarrow>
       lookup_step s e = Some (Running s') \<Longrightarrow> P (evs @ [e]) s'"
  shows "P evs s"
  using run
proof (induction evs arbitrary: s rule: rev_induct)
  case Nil
  then show ?case using start by simp
next
  case (snoc e evs)
  then obtain t where t: "lookup_run (Running s0) evs = Some (Running t)" "lookup_step t e = Some (Running s)"
    by (auto simp: lookup_run_snoc split: option.splits status.splits)
  show ?case by (rule step [OF snoc.IH [OF t(1)] t])
qed

lemma lookup_run_Returned:
  assumes "lookup_run (Running s0) evs = Some (Returned r)"
  obtains evs' s where "evs = evs' @ [End_round]" "lookup_run (Running s0) evs' = Some (Running s)"
    "end_round s = Some (Returned r)" "lk_todo s = []" "lk_running s = []" "lk_replied s = []"
proof (cases evs rule: rev_cases)
  case Nil
  then show thesis using assms by simp
next
  case (snoc evs' e)
  then obtain s where s: "lookup_run (Running s0) evs' = Some (Running s)" "lookup_step s e = Some (Returned r)"
    using assms by (auto simp: lookup_run_snoc split: option.splits status.splits)
  have "e = End_round" using s(2) by (cases e) (auto split: list.splits if_splits)
  then show thesis using that snoc s by (auto split: if_splits)
qed

text \<open>The contacts that answered, in the order of their answers, and what they named.\<close>

fun answered :: "event list \<Rightarrow> contact list" where
  "answered [] = []"
| "answered (Reply c a # es) = (if a = Unreachable then answered es else c # answered es)"
| "answered (_ # es) = answered es"

fun named :: "event list \<Rightarrow> contact list" where
  "named [] = []"
| "named (Reply c (Nodes cs) # es) = cs @ named es"
| "named (_ # es) = named es"

fun peer_replies :: "event list \<Rightarrow> (contact \<times> peer list) list" where
  "peer_replies [] = []"
| "peer_replies (Reply c (Peers ps) # es) = (c, ps) # peer_replies es"
| "peer_replies (_ # es) = peer_replies es"

lemma answered_append [simp]: "answered (es @ fs) = answered es @ answered fs"
  by (induction es rule: answered.induct) auto

lemma named_append [simp]: "named (es @ fs) = named es @ named fs"
  by (induction es rule: named.induct) auto

lemma peer_replies_append [simp]: "peer_replies (es @ fs) = peer_replies es @ peer_replies fs"
  by (induction es rule: peer_replies.induct) auto

lemma peer_replies_reply: "(c, ps) \<in> set (peer_replies es) \<longleftrightarrow> Reply c (Peers ps) \<in> set es"
  by (induction es rule: peer_replies.induct) auto

lemma answered_reply: "c \<in> set (answered es) \<longleftrightarrow> (\<exists>a. a \<noteq> Unreachable \<and> Reply c a \<in> set es)"
  by (induction es rule: answered.induct) auto

definition trace_inv :: "(key \<Rightarrow> string) \<Rightarrow> lookup \<Rightarrow> event list \<Rightarrow> lookup \<Rightarrow> bool" where
  "trace_inv A s0 evs s \<longleftrightarrow>
     lookup_inv A s \<and> sl_target (lk_closest s) = sl_target (lk_closest s0) \<and>
     sl_k (lk_closest s) = sl_k (lk_closest s0) \<and>
     ok_keys s = ids (answered evs) \<and> distinct (map contact_id (answered evs)) \<and>
     addressed A (set (answered evs)) \<and>
     lk_peers s = (if peer_replies evs = [] then None else Some (snd (last (peer_replies evs)))) \<and>
     sl_has_peers (lk_closest s) = contact_id ` fst ` set (peer_replies evs)"

lemma begin_round_frame [simp]:
  "lk_closest (begin_round s) = lk_closest s" "lk_peers (begin_round s) = lk_peers s"
  "lk_running (begin_round s) = lk_running s" "lk_replied (begin_round s) = lk_replied s"
  by (simp_all add: begin_round_def)

lemma trace_inv_step:
  assumes T: "trace_inv A s0 evs s" and con: "consistent A e" and step: "lookup_step s e = Some (Running s')"
  shows "trace_inv A s0 (evs @ [e]) s'"
proof -
  have inv: "lookup_inv A s" using T by (simp add: trace_inv_def)
  note inv' = lookup_step_inv [OF inv con step]
  show ?thesis
  proof (cases e)
    case Launch
    show ?thesis
    proof (rule lookup_inv_launch [OF inv step [unfolded Launch]])
      assume "ok_keys s' = ok_keys s"
      moreover obtain c cs where "s' = s\<lparr>lk_todo := cs, lk_running := lk_running s @ [c],
          lk_closest := sl_set_contacted [c] (lk_closest s)\<rparr>"
        using step Launch by (auto split: list.splits)
      ultimately show ?thesis
        using T inv' by (simp add: trace_inv_def sl_set_contacted_eq Launch)
    qed
  next
    case (Reply c a)
    note R = lookup_inv_reply [OF inv con [unfolded Reply] step [unfolded Reply]]
    have s': "s' = on_reply c a (s\<lparr>lk_running := remove1 c (lk_running s)\<rparr>)"
      using step Reply by (simp split: if_splits)
    have addr: "contact_address c = A (contact_id c)"
      using lookup_invD(4) [OF inv] R(2) by (auto simp: addressed_def lk_round_set)
    have frame: "sl_target (lk_closest s') = sl_target (lk_closest s)" "sl_k (lk_closest s') = sl_k (lk_closest s)"
      unfolding s' by (cases a; simp add: sl_set_has_peers_eq)+
    have peers: "lk_peers s' = (case a of Peers ps \<Rightarrow> Some ps | _ \<Rightarrow> lk_peers s)"
      unfolding s' by (cases a) simp_all
    have has: "sl_has_peers (lk_closest s') =
        (case a of Peers ps \<Rightarrow> insert (contact_id c) (sl_has_peers (lk_closest s)) | _ \<Rightarrow> sl_has_peers (lk_closest s))"
      unfolding s' by (cases a) (simp_all add: sl_set_has_peers_eq)
    show ?thesis
      using T inv' R(6,7) addr unfolding trace_inv_def frame peers has Reply
      by (cases a) auto
  next
    case (Finish c late)
    note F = lookup_inv_finish [OF inv step [unfolded Finish]]
    have "lk_peers s' = lk_peers s" using step Finish by (auto split: if_splits)
    then show ?thesis
      using T inv' F(6,7) unfolding trace_inv_def Finish by auto
  next
    case End_round
    show ?thesis
    proof (rule end_round_cases [OF inv step [unfolded End_round]])
      fix h limit
      assume s': "s' = begin_round (s\<lparr>lk_closest_node := h, lk_limit := limit\<rparr>)"
      have "ok_keys s' = ok_keys s" by (simp add: s' ok_keys_def)
      then show ?thesis
        using T inv' unfolding trace_inv_def End_round by (auto simp: s')
    qed
  qed
qed

lemma trace_inv_run:
  assumes "lookup_run (Running s0) evs = Some (Running s)" and "\<forall>e \<in> set evs. consistent A e"
    and "trace_inv A s0 [] s0"
  shows "trace_inv A s0 evs s"
proof -
  have "(\<forall>e \<in> set evs. consistent A e) \<longrightarrow> trace_inv A s0 evs s"
    using assms(1)
  proof (induction rule: lookup_run_induct)
    case start
    then show ?case using assms(3) by simp
  next
    case (step evs s e s')
    then show ?case using trace_inv_step [of A s0 evs s e s'] by simp
  qed
  then show ?thesis using assms(2) by simp
qed

lemma trace_inv_start:
  assumes "lookup_start lk alpha K k initial = Some (Running s)" "0 < K" "addressed A (set initial)"
  shows "trace_inv A s [] s"
proof -
  have "sl_has_peers (lk_closest s) = {}"
    using assms(1) by (auto simp: lookup_start_def Let_def new_shortlist_def split: if_splits list.splits)
  then show ?thesis
    using lookup_start_inv [OF assms] by (simp add: trace_inv_def ok_keys_def)
qed

text \<open>
  Without failures the shortlist holds the closest of all contacts heard of: cutting the
  list before further insertions changes nothing.
\<close>

fun ins :: "key \<Rightarrow> contact \<Rightarrow> contact list \<Rightarrow> contact list" where
  "ins t c [] = [c]"
| "ins t c (y # ys) =
     (if dist_to t y < dist_to t c then y # ins t c ys else if y = c then y # ys else c # y # ys)"

lemma ins_append: "\<forall>d \<in> set xs. dist_to t d < dist_to t c \<Longrightarrow> ins t c (xs @ ys) = xs @ ins t c ys"
  by (induction xs) auto

lemma insert_contact_ins:
  assumes "by_dist t l"
  shows "insert_contact t c l = ins t c l"
proof (rule search_cut [OF assms, of c])
  fix xs ys
  assume l: "l = xs @ ys" "\<forall>d \<in> set xs. dist_to t d < dist_to t c"
    "\<forall>d \<in> set ys. dist_to t c \<le> dist_to t d"
    "insert_contact t c l = (case ys of [] \<Rightarrow> l @ [c] | y # ys' \<Rightarrow> if y = c then l else xs @ c # ys)"
  have "ins t c l = xs @ ins t c ys" unfolding l(1) by (rule ins_append [OF l(2)])
  then show ?thesis using l(1,3,4) by (cases ys) (auto simp: not_less)
qed

lemma take_ins: "take k (ins t c (take k l)) = take k (ins t c l)"
proof (induction l arbitrary: k)
  case (Cons y ys)
  then show ?case by (cases k) (auto simp: take_Cons')
qed simp

lemma take_fold_insert:
  assumes "by_dist t l"
  shows "take k (fold (insert_contact t) cs (take k l)) = take k (fold (insert_contact t) cs l)"
  using assms
proof (induction cs arbitrary: l)
  case (Cons c cs)
  have cut: "by_dist t (take k m)" if "by_dist t m" for m using that by (rule sorted_map_take)
  have one: "take k (insert_contact t c (take k l)) = take k (insert_contact t c l)"
    using Cons.prems by (simp add: insert_contact_ins cut take_ins)
  have "take k (fold (insert_contact t) cs (insert_contact t c (take k l))) =
      take k (fold (insert_contact t) cs (take k (insert_contact t c (take k l))))"
    using Cons.IH [OF insert_contact_sorted [OF cut [OF Cons.prems]], of c] by simp
  also have "\<dots> = take k (fold (insert_contact t) cs (insert_contact t c l))"
    unfolding one by (rule Cons.IH [OF insert_contact_sorted [OF Cons.prems]])
  finally show ?case by simp
qed simp

lemma insert_contact_present:
  assumes "by_dist t l" "addressed A (insert c (set l))" "c \<in> set l"
  shows "insert_contact t c l = l"
proof (rule search_cut [OF assms(1), of c])
  fix xs ys
  assume cut: "l = xs @ ys" "\<forall>d \<in> set xs. dist_to t d < dist_to t c"
    "\<forall>d \<in> set ys. dist_to t c \<le> dist_to t d"
    and ins: "insert_contact t c l = (case ys of [] \<Rightarrow> l @ [c] | y # ys' \<Rightarrow> if y = c then l else xs @ c # ys)"
  show ?thesis
    using search_cut_found [OF cut assms(1,2)] assms(3) ins by (auto split: list.splits)
qed

text \<open>What has been heard of: the initial contacts and those named in answers.\<close>

definition heard_inv :: "(key \<Rightarrow> string) \<Rightarrow> contact list \<Rightarrow> lookup \<Rightarrow> bool" where
  "heard_inv A hs s \<longleftrightarrow> lookup_inv A s \<and> addressed A (set hs) \<and> set (lk_round s) \<subseteq> set hs \<and>
     sl_list (lk_closest s) =
       take (sl_k (lk_closest s)) (fold (insert_contact (sl_target (lk_closest s))) hs [])"

lemma heard_begin:
  assumes "lookup_inv A (begin_round s)" "addressed A (set hs)" "lk_running s = []" "lk_replied s = []"
    "sl_list (lk_closest s) =
       take (sl_k (lk_closest s)) (fold (insert_contact (sl_target (lk_closest s))) hs [])"
  shows "heard_inv A hs (begin_round s)"
proof -
  have "set (lk_todo (begin_round s)) \<subseteq> set (sl_list (lk_closest s))"
    by (auto simp: begin_round_def sl_pick_eq dest: in_set_takeD)
  also have "\<dots> \<subseteq> set hs"
    using fold_insert_set [of "sl_target (lk_closest s)" "[]" hs] unfolding assms(5)
    by (auto dest: in_set_takeD)
  finally show ?thesis using assms by (simp add: heard_inv_def lk_round_set)
qed

lemma heard_step:
  assumes H: "heard_inv A hs s" and con: "consistent A e" and step: "lookup_step s e = Some (Running s')"
    and ok: "\<forall>c. e \<noteq> Reply c Unreachable"
  shows "heard_inv A (hs @ named [e]) s'"
proof -
  have inv: "lookup_inv A s" and hs: "addressed A (set hs)" "set (lk_round s) \<subseteq> set hs"
    and list: "sl_list (lk_closest s) =
       take (sl_k (lk_closest s)) (fold (insert_contact (sl_target (lk_closest s))) hs [])"
    using H by (simp_all add: heard_inv_def)
  let ?t = "sl_target (lk_closest s)" and ?k = "sl_k (lk_closest s)"
  let ?L = "fold (insert_contact ?t) hs []"
  have sorted: "by_dist ?t ?L" and setL: "set ?L = set hs"
    using fold_insert_sorted [of ?t "[]" hs] fold_insert_set [of ?t "[]" hs] by simp_all
  note inv' = lookup_step_inv [OF inv con step]
  have insert: "sl_list (sl_insert cs (lk_closest s)) = take ?k (fold (insert_contact ?t) (hs @ cs) [])" for cs
    unfolding sl_insert_list list by (simp add: take_fold_insert [OF sorted])
  show ?thesis
  proof (cases e)
    case Launch
    show ?thesis
      using step hs list inv' unfolding Launch
      by (auto simp: heard_inv_def lk_round_set sl_set_contacted_eq split: list.splits)
  next
    case (Reply c a)
    note R = lookup_inv_reply [OF inv con [unfolded Reply] step [unfolded Reply]]
    have s': "s' = on_reply c a (s\<lparr>lk_running := remove1 c (lk_running s)\<rparr>)"
      using step Reply by (simp split: if_splits)
    have "set (lk_round s') \<subseteq> set (lk_round s)"
      using R(2,3,4,8) set_remove1_subset [of c "lk_running s"] by (auto simp: lk_round_set)
    then have round: "set (lk_round s') \<subseteq> set hs" using hs(2) by simp
    show ?thesis
    proof (cases a)
      case (Nodes cs)
      have "addressed A (set cs)" using con by (simp add: Reply Nodes)
      then show ?thesis
        using inv' hs(1) round insert [of cs] unfolding heard_inv_def Reply Nodes s' by auto
    qed (use ok Reply inv' hs(1) round list in \<open>simp_all add: heard_inv_def s' sl_set_has_peers_eq\<close>)
  next
    case (Finish c late)
    note F = lookup_inv_finish [OF inv step [unfolded Finish]]
    have c: "c \<in> set hs" using F(2) hs(2) by (auto simp: lk_round_set)
    have "insert_contact ?t c ?L = ?L"
      by (rule insert_contact_present [OF sorted, of A]) (use c hs(1) setL in \<open>auto simp: addressed_def\<close>)
    then have "sl_list (lk_closest s') = sl_list (lk_closest s)"
      unfolding F(7) using insert [of "[c]"] list by simp
    moreover have "set (lk_round s') \<subseteq> set (lk_round s)"
      unfolding lk_round_set F(3,4,5) using set_remove1_subset [of c "lk_replied s"] by auto
    ultimately show ?thesis using inv' hs list by (auto simp: heard_inv_def Finish F(7))
  next
    case End_round
    show ?thesis
    proof (rule end_round_cases [OF inv step [unfolded End_round]])
      fix h limit
      assume s': "s' = begin_round (s\<lparr>lk_closest_node := h, lk_limit := limit\<rparr>)"
        and idle: "lk_running s = []" "lk_replied s = []"
      show ?thesis
        unfolding s' End_round using inv' hs list idle by (intro heard_begin) (simp_all add: s')
    qed
  qed
qed

lemma heard_run:
  assumes "lookup_run (Running s0) evs = Some (Running s)"
    and "\<forall>e \<in> set evs. consistent A e" and "\<forall>c. Reply c Unreachable \<notin> set evs"
    and "heard_inv A hs s0"
  shows "heard_inv A (hs @ named evs) s"
proof -
  have "(\<forall>e \<in> set evs. consistent A e) \<and> (\<forall>c. Reply c Unreachable \<notin> set evs) \<longrightarrow>
      heard_inv A (hs @ named evs) s"
    using assms(1)
  proof (induction rule: lookup_run_induct)
    case start
    then show ?case using assms(4) by simp
  next
    case (step evs s e s')
    then show ?case using heard_step [of A "hs @ named evs" s e s'] by auto
  qed
  then show ?thesis using assms(2,3) by simp
qed

subsection \<open>Properties\<close>

lemma kind_run:
  assumes "lookup_run (Running s0) evs = Some (Running s)"
  shows "lk_kind s = lk_kind s0 \<and> (lk_kind s0 = FindNodeLookup \<longrightarrow> peer_replies evs = [])"
  using assms
proof (induction rule: lookup_run_induct)
  case (step evs s e s')
  have "lk_kind s' = lk_kind s \<and> (lk_kind s = FindNodeLookup \<longrightarrow> peer_replies [e] = [])"
  proof (cases e)
    case (Reply c a)
    then show ?thesis using step(3) by (cases a) (auto split: if_splits)
  qed (use step(3) in \<open>auto simp: end_round_def begin_round_def split: list.splits if_splits option.splits sum.splits\<close>)
  then show ?case using step(1) by simp
qed simp

text \<open>A run that returns a list: the state in which its last round ends.\<close>

lemma end_round_NotFound:
  assumes "end_round s = Some (Returned (NotFound cs))"
  shows "cs = sl_list (lk_closest s)" "cs \<noteq> []" "lk_peers s = None" "sl_all_contacted (lk_closest s)"
  using assms by (auto simp: end_round_def sl_len_def sl_deep_copy_eq split: option.splits if_splits sum.splits)

lemma end_round_FoundPeers:
  assumes "end_round s = Some (Returned (FoundPeers ps dst))"
  shows "lk_peers s = Some ps"
    "dst = (case sl_closest_without_value (lk_closest s) of Inl _ \<Rightarrow> None | Inr c \<Rightarrow> Some c)"
  using assms by (auto simp: end_round_def split: option.splits if_splits)

lemma end_round_Failed:
  "end_round s = Some (Returned (Failed e)) \<Longrightarrow> e = AllContactsUnreachable"
  by (auto simp: end_round_def split: option.splits if_splits)

text \<open>A scheduler and the network choose the events; \<open>drive\<close> runs at most \<open>n\<close> of them.\<close>

fun drive :: "(nat \<Rightarrow> lookup \<Rightarrow> event) \<Rightarrow> nat \<Rightarrow> nat \<Rightarrow> status \<Rightarrow> status option" where
  "drive sched i 0 st = Some st"
| "drive sched i (Suc n) (Returned r) = Some (Returned r)"
| "drive sched i (Suc n) (Running s) =
     (case lookup_step s (sched i s) of None \<Rightarrow> None | Some st \<Rightarrow> drive sched (Suc i) n st)"

lemma drive_returns:
  assumes "\<forall>i s. consistent A (sched i s) \<and> lookup_step s (sched i s) \<noteq> None" and "lookup_inv A s"
  shows "\<exists>n r. drive sched i n (Running s) = Some (Returned r)"
  using assms(2)
proof (induction s arbitrary: i rule: wf_induct_rule [OF wf_lookup_order])
  case (1 s)
  obtain st where st: "lookup_step s (sched i s) = Some st" using assms(1) by blast
  show ?case
  proof (cases st)
    case (Returned r)
    then show ?thesis using st by (intro exI [of _ "Suc 0"]) simp
  next
    case (Running s')
    have con: "consistent A (sched i s)" using assms(1) by blast
    note step = st [unfolded Running]
    obtain n r where "drive sched (Suc i) n (Running s') = Some (Returned r)"
      using "1.IH" [OF lookup_step_decreases [OF "1.prems" con step] lookup_step_inv [OF "1.prems" con step]]
      by blast
    then show ?thesis using step by (intro exI [of _ "Suc n"]) simp
  qed
qed

text \<open>A network of three nodes, the last of which is down.\<close>

definition sample_net :: "nat \<Rightarrow> lookup \<Rightarrow> event" where
  "sample_net i s =
     (case lk_todo s of _ # _ \<Rightarrow> Launch
      | [] \<Rightarrow> (case lk_running s of
          c # _ \<Rightarrow> Reply c (if c = sample_contact 6 then Unreachable
            else Nodes [sample_contact 5, sample_contact 6, sample_contact 9])
        | [] \<Rightarrow> (case lk_replied s of c # _ \<Rightarrow> Finish c True | [] \<Rightarrow> End_round)))"

definition sample_start :: status where
  "sample_start = the (lookup_start FindNodeLookup 3 20 (parse_uint64 7) [sample_contact 9])"

lemma sample_start: "lookup_start FindNodeLookup 3 20 (parse_uint64 7) [sample_contact 9] = Some sample_start"
  by code_simp

text \<open>
  C1: a lookup returns. If every node is named with one address, then whatever the queried
  nodes answer, in whatever order the answers come and the goroutines run, a lookup that
  has started and whose queries all end comes to an end.
\<close>

theorem lookup_returns:
  assumes "lookup_start lk alpha K k initial = Some st" and "0 < K" and "addressed A (set initial)"
    and "\<forall>i s. consistent A (sched i s) \<and> lookup_step s (sched i s) \<noteq> None"
  shows "\<exists>n r. drive sched 0 n st = Some (Returned r)"
proof (cases st)
  case (Running s)
  then show ?thesis
    using drive_returns [OF assms(4) lookup_start_inv(1) [OF assms(1) [unfolded Running] assms(2,3)]] by simp
next
  case (Returned r)
  then show ?thesis by (intro exI [of _ "Suc 0"]) simp
qed

lemma lookup_returns_witness:
  "(\<exists>n r. drive sample_net 0 n sample_start = Some (Returned r)) \<and>
   drive sample_net 0 20 sample_start = Some (Returned (NotFound (map sample_contact [5, 9])))"
proof -
  have "addressed sample_address (set [sample_contact 9])"
    by (simp add: sample_address_def sample_contact_def)
  moreover have "\<forall>i s. consistent sample_address (sample_net i s) \<and> lookup_step s (sample_net i s) \<noteq> None"
    using end_round_no_panic
    by (auto simp: sample_net_def sample_address_def sample_contact_def split: list.splits)
  moreover have "drive sample_net 0 20 sample_start = Some (Returned (NotFound (map sample_contact [5, 9])))"
    by code_simp
  ultimately show ?thesis
    using lookup_returns [OF sample_start, of sample_address sample_net] by simp
qed

lemma lookup_not_found:
  assumes inv: "lookup_inv A s" and idle: "lk_running s = []" and er: "end_round s = Some (Returned (NotFound cs))"
    and ok: "ok_keys s = ids (answered evs)" and addr: "addressed A (set (answered evs))" and none: "peer_replies evs = []"
  shows "cs \<noteq> []" and "by_dist (sl_target (lk_closest s)) cs" and "distinct (map contact_id cs)"
    and "length cs \<le> sl_k (lk_closest s)" and "\<forall>c \<in> set cs. \<exists>ns. Reply c (Nodes ns) \<in> set evs"
proof -
  note N = end_round_NotFound [OF er] and D = sl_invD [OF lookup_invD(1) [OF inv]]
  show "cs \<noteq> []" "by_dist (sl_target (lk_closest s)) cs" "length cs \<le> sl_k (lk_closest s)"
    using N(1,2) D(2,3) by simp_all
  show "distinct (map contact_id cs)"
    using D(4) addressed_inj [OF D(5)] by (simp add: N(1) distinct_map)
  show "\<forall>c \<in> set cs. \<exists>ns. Reply c (Nodes ns) \<in> set evs"
  proof
    fix c assume c: "c \<in> set cs"
    then have "contact_id c \<in> ok_keys s"
      using N(1,4) idle by (auto simp: sl_all_contacted_iff ok_keys_def)
    then obtain d where d: "d \<in> set (answered evs)" "contact_id c = contact_id d"
      unfolding ok by auto
    have "contact_address c = contact_address d"
      using addr d c D(5) N(1) by (auto simp: addressed_def)
    then have "c = d" using d(2) by (intro contact.equality) simp_all
    then obtain a where "Reply c a \<in> set evs" "a \<noteq> Unreachable" using d(1) by (auto simp: answered_reply)
    then show "\<exists>ns. Reply c (Nodes ns) \<in> set evs"
      using peer_replies_reply [of c _ evs] none by (cases a) auto
  qed
qed

lemma cache_without_peers:
  assumes "end_round s = Some (Returned (FoundPeers ps (Some d)))"
    and "sl_has_peers (lk_closest s) = contact_id ` fst ` set (peer_replies evs)"
  shows "Reply d (Peers ps') \<notin> set evs"
proof
  assume "Reply d (Peers ps') \<in> set evs"
  then have "(d, ps') \<in> set (peer_replies evs)" unfolding peer_replies_reply by simp
  then have "contact_id d \<in> sl_has_peers (lk_closest s)" unfolding assms(2) by force
  moreover obtain ds where
    "filter (\<lambda>c. contact_id c \<notin> sl_has_peers (lk_closest s)) (sl_list (lk_closest s)) = d # ds"
    using end_round_FoundPeers(2) [OF assms(1)] by (auto simp: sl_closest_without_eq split: list.splits)
  then have "d \<in> set (filter (\<lambda>c. contact_id c \<notin> sl_has_peers (lk_closest s)) (sl_list (lk_closest s)))"
    by simp
  then have "contact_id d \<notin> sl_has_peers (lk_closest s)" by simp
  ultimately show False by simp
qed


definition sample_trace :: "event list" where
  "sample_trace = [Launch, Reply (sample_contact 9) (Nodes [sample_contact 5, sample_contact 6]),
     Finish (sample_contact 9) True, End_round, Launch, Launch, Reply (sample_contact 6) Unreachable,
     Reply (sample_contact 5) (Nodes [sample_contact 9]), Finish (sample_contact 5) False, End_round, End_round]"




text \<open>
  A node that answers is asked once. The keys of the contacts that answered are pairwise
  different at every moment of a lookup, so its queries are at most as many as the nodes
  that answer plus the failures.
\<close>

theorem lookup_asks_once:
  assumes "lookup_start lk alpha K k initial = Some st" and "lookup_run st evs = Some (Running s)"
    and "0 < K" and "addressed A (set initial)" and "\<forall>e \<in> set evs. consistent A e"
  shows "distinct (map contact_id (answered evs)) \<and>
     ids (answered evs) \<inter> ids (lk_todo s @ lk_running s) = {}"
proof (cases st)
  case (Returned r)
  then show ?thesis using assms(2) by (cases evs) simp_all
next
  case (Running s0)
  have T: "trace_inv A s0 evs s"
    by (rule trace_inv_run [OF assms(2) [unfolded Running] assms(5)
      trace_inv_start [OF assms(1) [unfolded Running] assms(3,4)]])
  then have "lookup_inv A s" and ok: "ids (answered evs) = ok_keys s" and d: "distinct (map contact_id (answered evs))"
    by (simp_all add: trace_inv_def)
  then have "ids (lk_todo s) \<inter> sl_contacted (lk_closest s) = {}" by (simp add: lookup_inv_def)
  then show ?thesis using d unfolding ok by (auto simp: ok_keys_def)
qed

lemma lookup_asks_once_witness:
  "\<exists>s. lookup_run sample_start (take 9 sample_trace) = Some (Running s) \<and>
     distinct (map contact_id (answered (take 9 sample_trace)))"
proof -
  have "case lookup_run sample_start (take 9 sample_trace) of Some (Running s) \<Rightarrow> True | _ \<Rightarrow> False"
    by code_simp
  then obtain s where run: "lookup_run sample_start (take 9 sample_trace) = Some (Running s)"
    by (auto split: option.splits status.splits)
  have "addressed sample_address (set [sample_contact 9])"
    "\<forall>e \<in> set (take 9 sample_trace). consistent sample_address e"
    by (simp_all add: sample_address_def sample_contact_def sample_trace_def)
  from lookup_asks_once [OF sample_start run _ this] run show ?thesis by simp
qed

text \<open>
  A lookup starts or fails for every positive alpha; with an alpha of 0 or less, which
  the configuration accepts, it panics as soon as the routing table names a contact.
\<close>

theorem lookup_start_alpha:
  assumes "0 < K"
  shows "lookup_start lk alpha K k initial = None \<longleftrightarrow> initial \<noteq> [] \<and> alpha \<le> 0"
proof -
  let ?i = "if int (length initial) > alpha then take (nat alpha) initial else initial"
  have i: "?i = take (nat alpha) initial" by auto
  have "sl_list (sl_insert ?i (new_shortlist k K)) = [] \<longleftrightarrow> fold (insert_contact k) ?i [] = []"
    using assms by (simp add: sl_insert_list new_shortlist_def)
  also have "\<dots> \<longleftrightarrow> ?i = []"
  proof -
    have "set (fold (insert_contact k) ?i []) = set ?i" using fold_insert_set [of k "[]" ?i] by simp
    then show ?thesis by (simp only: flip: set_empty)
  qed
  also have "\<dots> \<longleftrightarrow> initial = [] \<or> alpha \<le> 0" unfolding i by auto
  finally have empty: "sl_list (sl_insert ?i (new_shortlist k K)) = [] \<longleftrightarrow> initial = [] \<or> alpha \<le> 0" .
  show ?thesis
  proof (cases "initial = [] \<or> alpha < 0 \<and> int (length initial) > alpha")
    case True
    then show ?thesis by (auto simp: lookup_start_def)
  next
    case False
    then have "lookup_start lk alpha K k initial = None \<longleftrightarrow> sl_list (sl_insert ?i (new_shortlist k K)) = []"
      by (cases "sl_list (sl_insert ?i (new_shortlist k K))") (simp_all add: lookup_start_def Let_def)
    then show ?thesis using empty False by simp
  qed
qed

lemma lookup_start_alpha_witness:
  "lookup_start FindPeersLookup 0 20 zero_key [sample_contact 9] = None"
  using lookup_start_alpha [of 20 FindPeersLookup 0 zero_key "[sample_contact 9]"] by simp

lemma lookup_run_append:
  "lookup_run st (es @ fs) = Option.bind (lookup_run st es) (\<lambda>st'. lookup_run st' fs)"
proof (induction es arbitrary: st)
  case (Cons e es)
  then show ?case by (cases st) (auto split: option.splits)
qed simp

text \<open>The contact \<open>9\<close> names two addresses for the key \<open>5\<close>.\<close>

definition two_addresses :: "contact list" where
  "two_addresses = [(sample_contact 5)\<lparr>contact_address := ''b''\<rparr>, sample_contact 5]"

definition livelock_state :: status where
  "livelock_state = the (lookup_run sample_start
     ([Launch, Reply (sample_contact 9) (Nodes two_addresses), Finish (sample_contact 9) False, End_round] @
      [Launch, Launch, Reply (sample_contact 5) (Nodes []), Finish (sample_contact 5) False,
       Reply (hd two_addresses) Unreachable, End_round]))"

definition livelock_round :: "event list" where
  "livelock_round = [Launch, Launch, Reply (sample_contact 5) (Nodes []), Finish (sample_contact 5) False,
     Reply (hd two_addresses) Unreachable, End_round]"

lemma livelock_once: "lookup_run livelock_state livelock_round = Some livelock_state"
  by code_simp

text \<open>
  C37: a key with two addresses can keep a lookup going for ever. One contact of the key
  answers, the other is down. \<^verbatim>\<open>Remove\<close> finds the first at the distance of the second, so it
  leaves the second on the list, but it deletes their common key from the contacted set:
  the round ends in the state in which it began, and can be repeated any number of times.
\<close>

theorem lookup_livelock:
  "\<exists>evs. lookup_run sample_start evs = Some livelock_state \<and>
     lookup_run livelock_state (concat (replicate n livelock_round)) = Some livelock_state"
proof -
  have "lookup_run sample_start
     ([Launch, Reply (sample_contact 9) (Nodes two_addresses), Finish (sample_contact 9) False, End_round] @
      [Launch, Launch, Reply (sample_contact 5) (Nodes []), Finish (sample_contact 5) False,
       Reply (hd two_addresses) Unreachable, End_round]) = Some livelock_state"
    by code_simp
  moreover have "lookup_run livelock_state (concat (replicate n livelock_round)) = Some livelock_state"
    by (induction n) (simp_all add: lookup_run_append livelock_once)
  ultimately show ?thesis by blast
qed

text \<open>
  A lookup can report that all contacts are unreachable although one has answered. A
  node that answers can be pushed off a full shortlist by the closer nodes it names; when
  those are down, the list is empty at the end of the round.
\<close>

theorem lookup_forgets_reachable:
  "\<exists>st evs. lookup_start lk 3 1 (parse_uint64 7) [sample_contact 9] = Some st \<and>
     lookup_run st evs = Some (Returned (Failed AllContactsUnreachable)) \<and>
     Reply (sample_contact 9) (Nodes [sample_contact 5]) \<in> set evs"
proof -
  let ?evs = "[Launch, Reply (sample_contact 9) (Nodes [sample_contact 5]), Finish (sample_contact 9) False,
    End_round, Launch, Reply (sample_contact 5) Unreachable, End_round]"
  have "(case lookup_start lk 3 1 (parse_uint64 7) [sample_contact 9] of None \<Rightarrow> None | Some st \<Rightarrow>
      lookup_run st ?evs) = Some (Returned (Failed AllContactsUnreachable))"
    by (cases lk) (simp_all only:, code_simp+)
  then obtain st where "lookup_start lk 3 1 (parse_uint64 7) [sample_contact 9] = Some st"
    "lookup_run st ?evs = Some (Returned (Failed AllContactsUnreachable))"
    by (auto split: option.splits)
  then show ?thesis by (intro exI [of _ st] exI [of _ ?evs]) simp
qed

end
