(* ===== verification/Go_Sort.thy ===== *)
theory Go_Sort
  imports Inu_Prelude
begin

text \<open>
  The stable sort of Go's library (\<^verbatim>\<open>slices.SortStableFunc\<close>): insertion sort on blocks of 20,
  then rounds of in-place merges of neighbouring blocks.  \<open>lt x y\<close> stands for
  \<^verbatim>\<open>cmp(x, y) < 0\<close>.  The algorithm is modelled, not its specification, because
  \<^verbatim>\<open>handleKeyGet\<close> calls it with a comparison that is no order: \<open>lt x y\<close> depends on \<open>x\<close> alone.
  The lemmas show that the result is nevertheless a partition, in which the first part is reversed.
\<close>

subsection \<open>Insertion sort\<close>

text \<open>The inner loop: the element at \<open>j\<close> moves down to \<open>a\<close> at most.\<close>

fun sift :: "('a \<Rightarrow> 'a \<Rightarrow> bool) \<Rightarrow> nat \<Rightarrow> nat \<Rightarrow> 'a list \<Rightarrow> 'a list" where
  "sift lt a 0 d = d"
| "sift lt a (Suc j) d =
     (if a < Suc j \<and> lt (d ! Suc j) (d ! j)
      then sift lt a j (d[Suc j := d ! j, j := d ! Suc j]) else d)"

definition insertion_sort :: "('a \<Rightarrow> 'a \<Rightarrow> bool) \<Rightarrow> nat \<Rightarrow> nat \<Rightarrow> 'a list \<Rightarrow> 'a list" where
  "insertion_sort lt a b d = fold (sift lt a) [Suc a ..< b] d"

function sort_blocks :: "('a \<Rightarrow> 'a \<Rightarrow> bool) \<Rightarrow> nat \<Rightarrow> nat \<Rightarrow> 'a list \<Rightarrow> 'a list" where
  "sort_blocks lt bs a d =
     (if 0 < bs \<and> a + bs \<le> length d then sort_blocks lt bs (a + bs) (insertion_sort lt a (a + bs) d)
      else insertion_sort lt a (length d) d)"
  by pat_completeness auto

lemma length_sift [simp]: "length (sift lt a j d) = length d"
  by (induction lt a j d rule: sift.induct) auto

lemma length_insertion_sort [simp]: "length (insertion_sort lt a b d) = length d"
proof -
  have "length (fold (sift lt a) js d) = length d" for js by (induction js arbitrary: d) auto
  then show ?thesis by (simp add: insertion_sort_def)
qed

termination sort_blocks
  by (relation "measure (\<lambda>(lt, bs, a, d). length d - a)") auto

subsection \<open>Merging\<close>

text \<open>
  \<^verbatim>\<open>symMerge\<close> of the sorted ranges from \<open>a\<close> to \<open>m\<close> and from \<open>m\<close> to \<open>b\<close>.  The library calls it
  with \<open>a < m < b\<close> only, which the first test makes explicit.
  \<open>rotate_range a m b\<close> exchanges the blocks from \<open>a\<close> to \<open>m\<close> and from \<open>m\<close> to \<open>b\<close>.
\<close>

definition rotate_range :: "nat \<Rightarrow> nat \<Rightarrow> nat \<Rightarrow> 'a list \<Rightarrow> 'a list" where
  "rotate_range a m b d =
     take a d @ take (b - m) (drop m d) @ take (m - a) (drop a d) @ drop b d"

text \<open>The binary searches: the first position from \<open>i\<close> where \<open>f\<close> fails, for a falling \<open>f\<close>.\<close>

function first_false :: "(nat \<Rightarrow> bool) \<Rightarrow> nat \<Rightarrow> nat \<Rightarrow> nat" where
  "first_false f i j =
     (if i < j then (let h = (i + j) div 2 in if f h then first_false f (h + 1) j else first_false f i h)
      else i)"
  by pat_completeness auto
termination by (relation "measure (\<lambda>(f, i, j). j - i)") auto

declare first_false.simps [simp del]

text \<open>The position at which the general case of the merge cuts the first range.\<close>

definition merge_start :: "('a \<Rightarrow> 'a \<Rightarrow> bool) \<Rightarrow> nat \<Rightarrow> nat \<Rightarrow> nat \<Rightarrow> 'a list \<Rightarrow> nat" where
  "merge_start lt a m b d =
     (let mid = (a + b) div 2;
          n = mid + m;
          start = (if m > mid then n - b else a);
          r = (if m > mid then mid else m);
          p = n - 1
      in first_false (\<lambda>c. \<not> lt (d ! (p - c)) (d ! c)) start r)"

function sym_merge :: "('a \<Rightarrow> 'a \<Rightarrow> bool) \<Rightarrow> nat \<Rightarrow> nat \<Rightarrow> nat \<Rightarrow> 'a list \<Rightarrow> 'a list" where
  "sym_merge lt a m b d =
     (if \<not> (a < m \<and> m < b) then d
      else if m - a = 1
      then (let i = first_false (\<lambda>h. lt (d ! h) (d ! a)) m b in rotate_range a m i d)
      else if b - m = 1
      then (let i = first_false (\<lambda>h. \<not> lt (d ! m) (d ! h)) a m in rotate_range i m (m + 1) d)
      else (let start = merge_start lt a m b d;
                stop = (a + b) div 2 + m - start;
                d = (if start < m \<and> m < stop then rotate_range start m stop d else d);
                d = (if a < start \<and> start < (a + b) div 2
                     then sym_merge lt a start ((a + b) div 2) d else d)
            in if (a + b) div 2 < stop \<and> stop < b then sym_merge lt ((a + b) div 2) stop b d else d))"
  by pat_completeness auto
termination
proof (relation "measure (\<lambda>(lt, a, m, b, d). b - a)", goal_cases)
  case (2 lt a m b d)
  then have "(a + b) div 2 < b" by linarith
  then show ?case using 2 by simp
next
  case (3 lt a m b d)
  then have "a < (a + b) div 2" by linarith
  then show ?case using 3 by simp
qed simp

declare sym_merge.simps [simp del]

lemma first_false_bounds: "i \<le> j \<Longrightarrow> i \<le> first_false f i j \<and> first_false f i j \<le> j"
proof (induction f i j rule: first_false.induct)
  case (1 f i j)
  show ?case
  proof (cases "i < j")
    case True
    have "i \<le> (i + j) div 2" "(i + j) div 2 + 1 \<le> j" using True by presburger+
    then show ?thesis
      using True 1(1)[OF True refl] 1(2)[OF True refl]
      by (subst (1 2) first_false.simps) (fastforce simp: Let_def)
  next
    case False
    then show ?thesis using 1(3) by (subst (1 2) first_false.simps) auto
  qed
qed

lemma first_false_mono:
  assumes "\<And>x y. i \<le> x \<Longrightarrow> x \<le> y \<Longrightarrow> y < j \<Longrightarrow> f y \<Longrightarrow> f x"
  shows "i \<le> c \<Longrightarrow> c < j \<Longrightarrow> f c \<longleftrightarrow> c < first_false f i j"
  using assms
proof (induction f i j rule: first_false.induct)
  case (1 f i j)
  let ?h = "(i + j) div 2"
  have ij: "i < j" using 1(3,4) by simp
  have h: "i \<le> ?h" "?h < j" using ij by presburger+
  show ?case
  proof (cases "f ?h")
    case True
    have eq: "first_false f i j = first_false f (?h + 1) j"
      using ij True by (subst first_false.simps) (simp add: Let_def)
    show ?thesis
    proof (cases "?h < c")
      case True
      then show ?thesis unfolding eq using 1(1)[OF ij refl \<open>f ?h\<close>] 1(4,5) h by simp
    next
      case False
      then have "f c" using 1(5)[of c ?h] 1(3) True h by simp
      moreover have "?h + 1 \<le> first_false f (?h + 1) j"
        using first_false_bounds [of "?h + 1" j f] h by simp
      ultimately show ?thesis unfolding eq using False by simp
    qed
  next
    case False
    have eq: "first_false f i j = first_false f i ?h"
      using ij False by (subst first_false.simps) (simp add: Let_def)
    show ?thesis
    proof (cases "c < ?h")
      case True
      then show ?thesis unfolding eq using 1(2)[OF ij refl False] 1(3,5) h by simp
    next
      case F: False
      then have "\<not> f c" using 1(5)[of ?h c] False h 1(4) by auto
      moreover have "first_false f i ?h \<le> ?h" using first_false_bounds [of i ?h f] h by simp
      ultimately show ?thesis unfolding eq using F by simp
    qed
  qed
qed

lemma rotate_range_append:
  "rotate_range (length A) (length A + length X) (length A + length X + length Y) (A @ X @ Y @ B) =
     A @ Y @ X @ B"
  by (simp add: rotate_range_def)

lemma length_rotate_range [simp]:
  "a \<le> m \<Longrightarrow> m \<le> b \<Longrightarrow> b \<le> length d \<Longrightarrow> length (rotate_range a m b d) = length d"
  by (simp add: rotate_range_def)

text \<open>The merge rounds, with \<open>n\<close> the number of elements, and the whole sort.\<close>

function merge_pass :: "('a \<Rightarrow> 'a \<Rightarrow> bool) \<Rightarrow> nat \<Rightarrow> nat \<Rightarrow> nat \<Rightarrow> 'a list \<Rightarrow> 'a list" where
  "merge_pass lt bs n a d =
     (if 0 < bs \<and> a + 2 * bs \<le> n
      then merge_pass lt bs n (a + 2 * bs) (sym_merge lt a (a + bs) (a + 2 * bs) d)
      else if a + bs < n then sym_merge lt a (a + bs) n d
      else d)"
  by pat_completeness auto
termination by (relation "measure (\<lambda>(lt, bs, n, a, d). n - a)") auto

function merge_rounds :: "('a \<Rightarrow> 'a \<Rightarrow> bool) \<Rightarrow> nat \<Rightarrow> nat \<Rightarrow> 'a list \<Rightarrow> 'a list" where
  "merge_rounds lt bs n d =
     (if 0 < bs \<and> bs < n then merge_rounds lt (2 * bs) n (merge_pass lt bs n 0 d) else d)"
  by pat_completeness auto
termination by (relation "measure (\<lambda>(lt, bs, n, d). n - bs)") auto

definition stable_sort :: "('a \<Rightarrow> 'a \<Rightarrow> bool) \<Rightarrow> 'a list \<Rightarrow> 'a list" where
  "stable_sort lt d = merge_rounds lt 20 (length d) (sort_blocks lt 20 0 d)"

declare sort_blocks.simps [simp del] merge_pass.simps [simp del] merge_rounds.simps [simp del]

subsection \<open>The order of the comparison does not matter\<close>

text \<open>\<open>lt x y\<close> is \<open>P x\<close>: what precedes is decided by the element on the right alone.\<close>

lemma first_false_eq:
  assumes "\<And>c. i \<le> c \<Longrightarrow> c < j \<Longrightarrow> f c \<longleftrightarrow> c < t" and "i \<le> j"
  shows "first_false f i j = max i (min j t)"
proof -
  let ?r = "first_false f i j"
  have b: "i \<le> ?r" "?r \<le> j" using first_false_bounds [OF assms(2)] by blast+
  have m: "f c \<longleftrightarrow> c < ?r" if "i \<le> c" "c < j" for c
    by (rule first_false_mono) (use assms(1) that in auto)
  show ?thesis
  proof (cases "?r = i")
    case True
    then have "i < j \<Longrightarrow> \<not> i < t" using m [of i] assms(1) [of i] by simp
    then show ?thesis using True assms(2) by linarith
  next
    case False
    then have "?r - 1 < t" using m [of "?r - 1"] assms(1) [of "?r - 1"] b by simp
    moreover have "?r < j \<Longrightarrow> \<not> ?r < t" using m [of ?r] assms(1) [of ?r] b by simp
    ultimately show ?thesis using False b by linarith
  qed
qed

lemma sift_partition:
  "sift (\<lambda>x y. P x) (length A) (length A + length Z) (A @ Z @ x # B) =
     (if P x then A @ x # Z @ B else A @ Z @ x # B)"
proof (induction Z arbitrary: B rule: rev_induct)
  case Nil
  show ?case by (cases "length A") simp_all
next
  case (snoc z Z)
  let ?d = "A @ (Z @ [z]) @ x # B"
  have at: "?d ! Suc (length A + length Z) = x" "?d ! (length A + length Z) = z"
    by (simp_all add: nth_append)
  have swap: "?d[Suc (length A + length Z) := z, length A + length Z := x] = A @ Z @ x # z # B"
    by (simp add: list_update_append)
  have "sift (\<lambda>x y. P x) (length A) (Suc (length A + length Z)) ?d =
      (if P x then sift (\<lambda>x y. P x) (length A) (length A + length Z) (A @ Z @ x # z # B) else ?d)"
    unfolding sift.simps at swap by simp
  then show ?case using snoc [of "z # B"] by simp
qed

lemma sift_all:
  "fold (sift (\<lambda>x y. P x) (length A)) [length A + length Z ..< length A + length Z + length Y]
     (A @ Z @ Y @ B) = A @ rev (filter P Y) @ Z @ filter (\<lambda>x. \<not> P x) Y @ B"
proof (induction Y arbitrary: Z)
  case (Cons y Y)
  let ?js = "\<lambda>Z. [length A + length Z ..< length A + length Z + length Y]"
  have upt: "[length A + length Z ..< length A + length Z + length (y # Y)] =
      (length A + length Z) # ?js (y # Z)" "?js (Z @ [y]) = ?js (y # Z)"
    by (simp_all add: upt_conv_Cons del: upt_Suc)
  have "fold (sift (\<lambda>x y. P x) (length A)) [length A + length Z ..< length A + length Z + length (y # Y)]
      (A @ Z @ (y # Y) @ B) =
      fold (sift (\<lambda>x y. P x) (length A)) (?js (y # Z))
        (if P y then A @ (y # Z) @ Y @ B else A @ (Z @ [y]) @ Y @ B)"
    unfolding upt(1) using sift_partition [of P A Z y "Y @ B"] by simp
  also have "\<dots> = A @ rev (filter P (y # Y)) @ Z @ filter (\<lambda>x. \<not> P x) (y # Y) @ B"
    using Cons [of "y # Z"] Cons [of "Z @ [y]"] unfolding upt(2) by (cases "P y") simp_all
  finally show ?case .
qed simp

text \<open>The elements with \<open>P\<close> come first, in reversed order; the others keep their order.\<close>

lemma insertion_sort_partition:
  "insertion_sort (\<lambda>x y. P x) (length A) (length A + length X) (A @ X @ B) =
     A @ rev (filter P X) @ filter (\<lambda>x. \<not> P x) X @ B"
proof (cases X)
  case (Cons x Y)
  have "[Suc (length A) ..< length A + length X] = [length A + length [x] ..< length A + length [x] + length Y]"
    by (simp add: Cons)
  then show ?thesis
    using sift_all [of P A "[x]" Y B] by (simp add: insertion_sort_def Cons)
qed (simp add: insertion_sort_def)

lemma nth_middle:
  assumes "m = length A + length X" "m \<le> h" "h < m + length Y"
  shows "(A @ X @ Y @ B) ! h = Y ! (h - m)"
proof -
  obtain k where "h = m + k" using assms(2) le_Suc_ex by blast
  then show ?thesis using assms by (simp add: nth_append)
qed

lemma partitioned_nth:
  assumes "\<forall>x \<in> set M. P x" "\<forall>x \<in> set N. \<not> P x" "k < length M + length N"
  shows "P ((M @ N) ! k) \<longleftrightarrow> k < length M"
  using assms by (auto simp: nth_append)

lemma merge_start_partition:
  assumes "\<forall>x \<in> set M. P x" "\<forall>x \<in> set N. \<not> P x"
    and a: "a = length A" and m: "m = a + length X" and b: "b = m + length M + length N"
    and ne: "a < m" "m < b"
  defines "mid \<equiv> (a + b) div 2"
  shows "merge_start (\<lambda>x y. P x) a m b (A @ X @ M @ N @ B) =
     max (if m > mid then mid + m - b else a) (min (min mid m) (mid - length M))"
proof -
  let ?d = "A @ X @ M @ N @ B"
  let ?s = "if m > mid then mid + m - b else a" and ?r = "if m > mid then mid else m"
  have mid: "a \<le> mid" "mid < b" "2 * mid \<le> a + b" "a + b \<le> 2 * mid + 1"
    unfolding mid_def using ne by linarith+
  have le: "?s \<le> ?r" using mid ne by auto
  have f: "\<not> P (?d ! (mid + m - 1 - c)) \<longleftrightarrow> c < mid - length M" if c: "?s \<le> c" "c < ?r" for c
  proof -
    have rng: "m \<le> mid + m - 1 - c" "mid + m - 1 - c < m + length (M @ N)"
      using c mid ne b by (auto split: if_splits)
    have "?d ! (mid + m - 1 - c) = (M @ N) ! (mid - 1 - c)"
      using nth_middle [OF _ rng, of A X B] m a c by (simp split: if_splits)
    moreover have "mid - 1 - c < length M + length N" using rng by simp
    moreover have "c < mid" using c by (auto split: if_splits)
    ultimately show ?thesis using partitioned_nth [OF assms(1,2), of "mid - 1 - c"] by auto
  qed
  have "merge_start (\<lambda>x y. P x) a m b ?d = max ?s (min ?r (mid - length M))"
    unfolding merge_start_def Let_def mid_def [symmetric] by (rule first_false_eq [OF f le])
  also have "?r = min mid m" by auto
  finally show ?thesis .
qed

lemma merge_cut:
  fixes a m b mid start s t x k n :: nat
  assumes "start = max (if m > mid then mid + m - b else a) (min (min mid m) (mid - k))"
    "start = a + s" "mid = start + t" "m = a + x" "b = m + k + n" "a < m" "m < b" "a < mid" "mid < b"
  shows "(s = 0 \<or> k \<le> t) \<and> (t \<le> k \<or> (s = x \<and> k \<le> t))"
  using assms by (simp add: max_def min_def split: if_splits) linarith+

lemma sym_merge_partition:
  assumes "\<forall>x \<in> set M. P x" "\<forall>x \<in> set N. \<not> P x"
    and "a = length A" "m = a + length X" "b = m + length M + length N"
  shows "sym_merge (\<lambda>x y. P x) a m b (A @ X @ M @ N @ B) = A @ M @ X @ N @ B"
  using assms
proof (induction "b - a" arbitrary: A X M N B a m b rule: less_induct)
  case less
  let ?lt = "\<lambda>x y. P x" and ?d = "A @ X @ M @ N @ B"
  note a = less.prems(3) and m = less.prems(4) and b = less.prems(5)
  show ?case
  proof (cases "a < m \<and> m < b")
    case False
    then have "X = [] \<or> M @ N = []" using m b by auto
    then show ?thesis using False by (subst sym_merge.simps) auto
  next
    case True
    then have ne: "a < m" "m < b" by blast+
    consider (one) "m - a = 1" | (single) "m - a \<noteq> 1" "b - m = 1" | (many) "m - a \<noteq> 1" "b - m \<noteq> 1" by blast
    then show ?thesis
    proof cases
      case one
      have f: "P (?d ! h) \<longleftrightarrow> h < m + length M" if h: "m \<le> h" "h < b" for h
      proof -
        have "?d ! h = (M @ N) ! (h - m)"
          using nth_middle [of m A X h "M @ N" B] h a m b by simp
        then show ?thesis using partitioned_nth [OF less.prems(1,2), of "h - m"] h b by auto
      qed
      have "first_false (\<lambda>h. P (?d ! h)) m b = max m (min b (m + length M))"
        by (rule first_false_eq [OF f]) (use ne in auto)
      then have i: "first_false (\<lambda>h. P (?d ! h)) m b = length A + length X + length M"
        using a m b by simp
      have "sym_merge ?lt a m b ?d = rotate_range a m (length A + length X + length M) ?d"
        using ne one by (subst sym_merge.simps) (simp add: Let_def i)
      then show ?thesis using rotate_range_append [of A X M "N @ B"] a m by simp
    next
      case single
      have "length M + length N = 1" using single b by simp
      then consider (l) x where "M = [x]" "N = []" | (r) x where "M = []" "N = [x]"
        by (cases M; cases N) auto
      then show ?thesis
      proof cases
        case l
        have x: "?d ! m = x" "P x" using l a m less.prems(1) by (simp_all add: nth_append)
        have i: "first_false (\<lambda>h. \<not> P (?d ! m)) a m = a"
          using first_false_eq [of a m "\<lambda>h. \<not> P (?d ! m)" 0] x ne by simp
        have "sym_merge ?lt a m b ?d = rotate_range a m (m + 1) ?d"
          using ne single by (subst sym_merge.simps) (simp add: Let_def i)
        then show ?thesis using rotate_range_append [of A X M "N @ B"] a m l by simp
      next
        case r
        have x: "?d ! m = x" "\<not> P x" using r a m less.prems(2) by (simp_all add: nth_append)
        have i: "first_false (\<lambda>h. \<not> P (?d ! m)) a m = m"
          using first_false_eq [of a m "\<lambda>h. \<not> P (?d ! m)" m] x ne by simp
        have "sym_merge ?lt a m b ?d = rotate_range m m (m + 1) ?d"
          using ne single by (subst sym_merge.simps) (simp add: Let_def i)
        then show ?thesis
          using rotate_range_append [of "A @ X" "[]" "[x]" B] a m r by simp
      qed
    next
      case many
      define mid where "mid = (a + b) div 2"
      define start where "start = merge_start ?lt a m b ?d"
      have mid: "a < mid" "mid < b" "2 * mid \<le> a + b" "a + b \<le> 2 * mid + 1"
        unfolding mid_def using ne many by linarith+
      have start: "start = max (if m > mid then mid + m - b else a) (min (min mid m) (mid - length M))"
        unfolding start_def mid_def by (rule merge_start_partition [OF less.prems ne])
      have rng: "a \<le> start" "start \<le> m" "start \<le> mid" "mid + m - start \<le> b"
        unfolding start using mid ne by (auto split: if_splits)
      define s where "s = start - a"
      define t where "t = mid - start"
      have st: "start = a + s" "mid = start + t" "mid + m - start = m + t"
        using rng s_def t_def by simp_all
      define X1 X2 M1 M2 N1 N2 where "X1 = take s X" and "X2 = drop s X"
        and "M1 = take t M" and "M2 = drop t M"
        and "N1 = take (t - length M) N" and "N2 = drop (t - length M) N"
      note defs = X1_def X2_def M1_def M2_def N1_def N2_def
      have parts: "X = X1 @ X2" "M = M1 @ M2" "N = N1 @ N2" by (simp_all add: defs)
      have len: "length X1 = s" "length M1 + length N1 = t" "M2 = [] \<or> N1 = []"
        using rng st a m b by (auto simp: defs)
      have p1: "\<forall>x \<in> set M1. P x" "\<forall>x \<in> set N1. \<not> P x" "\<forall>x \<in> set M2. P x" "\<forall>x \<in> set N2. \<not> P x"
        using less.prems(1,2) unfolding parts by simp_all
      have "s = 0 \<or> length M \<le> t" "t \<le> length M \<or> (s = length X \<and> length M \<le> t)"
        using merge_cut [OF start st(1,2) m b ne mid(1,2)] by blast+
      then have "X1 = [] \<or> M2 = []" "N1 = [] \<or> (X2 = [] \<and> M2 = [])" by (auto simp: defs)
      then have final: "M1 @ X1 @ N1 @ M2 @ X2 @ N2 = M @ X @ N" unfolding parts by auto
      let ?stop = "m + t"
      have stop: "?stop = mid + length X2" using st a m rng(2) by (simp add: defs)
      have d: "?d = (A @ X1) @ X2 @ (M1 @ N1) @ (M2 @ N2 @ B)" using len(3) unfolding parts by auto
      let ?d1 = "A @ X1 @ M1 @ N1 @ X2 @ M2 @ N2 @ B"
      have rot: "(if start < m \<and> m < ?stop then rotate_range start m ?stop ?d else ?d) = ?d1"
      proof (cases "start < m \<and> m < ?stop")
        case True
        have "length X1 + length X2 = length X" by (simp add: parts(1))
        then have pos: "start = length (A @ X1)" "m = length (A @ X1) + length X2"
          "?stop = length (A @ X1) + length X2 + length (M1 @ N1)"
          using st(1) a m len by simp_all
        have "rotate_range start m ?stop ?d = (A @ X1) @ (M1 @ N1) @ X2 @ (M2 @ N2 @ B)"
          using rotate_range_append [of "A @ X1" X2 "M1 @ N1" "M2 @ N2 @ B"] unfolding d pos(3)
          by (simp only: pos(1,2))
        then show ?thesis using True by simp
      next
        case False
        then have "X2 = [] \<or> M1 @ N1 = []" using st a m len by (auto simp: defs)
        then show ?thesis using False unfolding d by auto
      qed
      let ?d2 = "A @ M1 @ X1 @ N1 @ X2 @ M2 @ N2 @ B"
      have left: "(if a < start \<and> start < mid then sym_merge ?lt a start mid ?d1 else ?d1) = ?d2"
      proof (cases "a < start \<and> start < mid")
        case True
        have "sym_merge ?lt a start mid (A @ X1 @ M1 @ N1 @ (X2 @ M2 @ N2 @ B)) =
            A @ M1 @ X1 @ N1 @ (X2 @ M2 @ N2 @ B)"
        proof (rule less.hyps [OF _ p1(1,2) a])
          show "mid - a < b - a" using mid(1,2) by linarith
          show "start = a + length X1" "mid = start + length M1 + length N1" using st len by simp_all
        qed
        then show ?thesis using True by simp
      next
        case False
        then have "X1 = [] \<or> M1 @ N1 = []" using st len by auto
        then show ?thesis using False by auto
      qed
      have right: "(if mid < ?stop \<and> ?stop < b then sym_merge ?lt mid ?stop b ?d2 else ?d2) =
          A @ M1 @ X1 @ N1 @ M2 @ X2 @ N2 @ B"
      proof (cases "mid < ?stop \<and> ?stop < b")
        case True
        have "sym_merge ?lt mid ?stop b ((A @ M1 @ X1 @ N1) @ X2 @ M2 @ N2 @ B) =
            (A @ M1 @ X1 @ N1) @ M2 @ X2 @ N2 @ B"
        proof (rule less.hyps [OF _ p1(3,4)])
          show "b - mid < b - a" using mid by simp
          show "mid = length (A @ M1 @ X1 @ N1)" using st a len by simp
          show "?stop = mid + length X2" by (rule stop)
          have "length M1 + length M2 = length M" "length N1 + length N2 = length N"
            by (simp_all add: defs)
          then show "b = ?stop + length M2 + length N2" using b len(2) by simp
        qed
        then show ?thesis using True by simp
      next
        case False
        have "length M1 + length M2 = length M" "length N1 + length N2 = length N"
          by (simp_all add: defs)
        then have "b = ?stop + length M2 + length N2" using b len(2) by simp
        then have "X2 = [] \<or> M2 @ N2 = []" using False stop by auto
        then show ?thesis using False by auto
      qed
      have "sym_merge ?lt a m b ?d = A @ M1 @ X1 @ N1 @ M2 @ X2 @ N2 @ B"
        using ne many rot left right
        by (subst sym_merge.simps)
          (simp only: Let_def mid_def [symmetric] start_def [symmetric] st(3) if_False if_True simp_thms)
      also have "\<dots> = A @ M @ X @ N @ B" using final by (metis append.assoc)
      finally show ?thesis .
    qed
  qed
qed

subsection \<open>The result\<close>

text \<open>
  What the sort makes of a list, and a list whose blocks of \<open>bs\<close> elements have been made that: the
  elements with \<open>P\<close> come first and are reversed, the others keep their order.
\<close>

definition swept :: "('a \<Rightarrow> bool) \<Rightarrow> 'a list \<Rightarrow> 'a list" where
  "swept P xs = rev (filter P xs) @ filter (\<lambda>x. \<not> P x) xs"

inductive chunked :: "('a \<Rightarrow> bool) \<Rightarrow> nat \<Rightarrow> 'a list \<Rightarrow> 'a list \<Rightarrow> bool" for P bs where
  last: "length xs \<le> bs \<Longrightarrow> chunked P bs xs (swept P xs)"
| step: "length xs = bs \<Longrightarrow> chunked P bs ys zs \<Longrightarrow> chunked P bs (xs @ ys) (swept P xs @ zs)"

lemma mset_split_filter: "mset X = mset (filter P X) + mset (filter (\<lambda>x. \<not> P x) X)"
  by (simp flip: multiset_partition)

lemma length_swept [simp]: "length (swept P xs) = length xs"
  by (simp add: swept_def sum_length_filter_compl)

lemma mset_swept [simp]: "mset (swept P xs) = mset xs"
  unfolding swept_def mset_append mset_rev by (rule mset_split_filter [symmetric])

lemma length_chunked: "chunked P bs xs ys \<Longrightarrow> length ys = length xs"
  by (induction rule: chunked.induct) simp_all

lemma chunked_whole:
  assumes "chunked P bs xs ys" and "length xs \<le> bs"
  shows "ys = swept P xs"
  using assms
proof cases
  case (step us vs zs)
  then have "vs = []" "zs = []" using assms(2) length_chunked [OF step(4)] by simp_all
  then show ?thesis using step by simp
qed simp

lemma sort_blocks_chunked:
  assumes "0 < bs"
  shows "\<exists>X'. sort_blocks (\<lambda>x y. P x) bs (length A) (A @ X) = A @ X' \<and> chunked P bs X X'"
proof (induction "length X" arbitrary: A X rule: less_induct)
  case less
  show ?case
  proof (cases "bs \<le> length X")
    case True
    define W Y where "W = take bs X" and "Y = drop bs X"
    have X: "X = W @ Y" and len: "length W = bs" using True by (simp_all add: W_def Y_def)
    have ins: "insertion_sort (\<lambda>x y. P x) (length A) (length A + bs) (A @ X) = (A @ swept P W) @ Y"
      using insertion_sort_partition [of P A W Y] by (simp add: X len swept_def)
    obtain Y' where Y': "sort_blocks (\<lambda>x y. P x) bs (length (A @ swept P W)) ((A @ swept P W) @ Y) = (A @ swept P W) @ Y'"
      "chunked P bs Y Y'"
      using less [of Y "A @ swept P W"] X len assms by fastforce
    have "sort_blocks (\<lambda>x y. P x) bs (length A) (A @ X) =
        sort_blocks (\<lambda>x y. P x) bs (length (A @ swept P W)) ((A @ swept P W) @ Y)"
      using True assms ins len by (subst sort_blocks.simps) simp
    then show ?thesis using Y'(1) chunked.step [OF len Y'(2)] X by auto
  next
    case False
    have "sort_blocks (\<lambda>x y. P x) bs (length A) (A @ X) = A @ swept P X"
      using False insertion_sort_partition [of P A X "[]"] by (subst sort_blocks.simps) (simp add: swept_def)
    then show ?thesis using False chunked.last [of X bs P] by auto
  qed
qed

text \<open>Two neighbouring blocks.\<close>

lemma sym_merge_blocks:
  "sym_merge (\<lambda>x y. P x) (length A) (length A + length W) (length A + length W + length V)
     (A @ swept P W @ swept P V @ B) = A @ swept P (W @ V) @ B"
proof -
  let ?p = "filter P" and ?n = "filter (\<lambda>x. \<not> P x)"
  have "length (rev (?p V)) + length (?n V) = length V" by (simp add: sum_length_filter_compl)
  then have "sym_merge (\<lambda>x y. P x) (length A) (length A + length W) (length A + length W + length V)
      (A @ swept P W @ rev (?p V) @ ?n V @ B) = A @ rev (?p V) @ swept P W @ ?n V @ B"
    by (intro sym_merge_partition) auto
  then show ?thesis by (simp add: swept_def)
qed

lemma merge_pass_chunked:
  assumes "0 < bs" "chunked P bs D X" "n = length A + length D"
  shows "\<exists>X'. merge_pass (\<lambda>x y. P x) bs n (length A) (A @ X) = A @ X' \<and> chunked P (2 * bs) D X'"
  using assms(2,3)
proof (induction "length D" arbitrary: A D X rule: less_induct)
  case less
  have stop: "merge_pass (\<lambda>x y. P x) bs n n d = d" for d
    using assms(1) by (subst merge_pass.simps) simp
  show ?case
    using less.prems(1)
  proof cases
    case last
    then have "merge_pass (\<lambda>x y. P x) bs n (length A) (A @ X) = A @ X"
      using less.prems(2) assms(1) by (subst merge_pass.simps) simp
    then show ?thesis using last chunked.last [of D "2 * bs" P] by auto
  next
    case W: (step W E Y)
    from W(4) show ?thesis
    proof cases
      case last
      note U = sym_merge_blocks [of P A W E "[]"]
      have n: "n = length A + length W + length E" using less.prems(2) W(1) by simp
      have "merge_pass (\<lambda>x y. P x) bs n (length A) (A @ X) = A @ swept P (W @ E)"
      proof (cases "length E = bs")
        case True
        then show ?thesis
          using U n W(2,3) last(1) assms(1) stop by (subst merge_pass.simps) (simp add: mult_2 add.assoc)
      next
        case False
        then show ?thesis
          using U n W(2,3) last assms(1)
          by (subst merge_pass.simps) (cases "E = []"; simp add: swept_def)
      qed
      moreover have "chunked P (2 * bs) D (swept P (W @ E))"
        using chunked.last [of "W @ E" "2 * bs" P] W(1,3) last(2) by simp
      ultimately show ?thesis by blast
    next
      case V: (step V F Z)
      note U = sym_merge_blocks [of P A W V Z]
      have len: "length (W @ V) = 2 * bs" using W(3) V(3) by simp
      obtain Z' where Z': "merge_pass (\<lambda>x y. P x) bs n (length (A @ swept P (W @ V))) ((A @ swept P (W @ V)) @ Z) =
          (A @ swept P (W @ V)) @ Z'" "chunked P (2 * bs) F Z'"
        using less.hyps [of F Z "A @ swept P (W @ V)"] V W less.prems(2) assms(1) by fastforce
      have "merge_pass (\<lambda>x y. P x) bs n (length A) (A @ X) =
          merge_pass (\<lambda>x y. P x) bs n (length (A @ swept P (W @ V))) ((A @ swept P (W @ V)) @ Z)"
        using U len W V less.prems(2) assms(1)
        by (subst merge_pass.simps) (simp add: mult_2 add.assoc)
      then show ?thesis using Z' chunked.step [OF len Z'(2)] W(1) V(1) by auto
    qed
  qed
qed

lemma merge_rounds_swept:
  assumes "0 < bs" "chunked P bs D X" "n = length D"
  shows "merge_rounds (\<lambda>x y. P x) bs n X = swept P D"
  using assms
proof (induction "n - bs" arbitrary: bs X rule: less_induct)
  case less
  show ?case
  proof (cases "bs < n")
    case True
    obtain X' where X': "merge_pass (\<lambda>x y. P x) bs n 0 X = X'" "chunked P (2 * bs) D X'"
      using merge_pass_chunked [OF less.prems(1,2), of n "[]"] less.prems(3) by auto
    have "merge_rounds (\<lambda>x y. P x) (2 * bs) n X' = swept P D"
      by (rule less.hyps) (use True less.prems X' in auto)
    then show ?thesis using True less.prems(1) X'(1) by (subst merge_rounds.simps) simp
  next
    case False
    then have "X = swept P D" using chunked_whole [OF less.prems(2)] less.prems(3) by simp
    then show ?thesis using False by (subst merge_rounds.simps) simp
  qed
qed

lemma stable_sort_swept: "stable_sort (\<lambda>x y. P x) d = swept P d"
proof -
  obtain X where "sort_blocks (\<lambda>x y. P x) 20 0 d = X" "chunked P 20 d X"
    using sort_blocks_chunked [of 20 P "[]" d] by auto
  then show ?thesis using merge_rounds_swept [of 20 P d X "length d"] by (simp add: stable_sort_def)
qed

end
