(* ===== verification/Decimal.thy ===== *)
theory Decimal
  imports Inu_Prelude
begin

text \<open>
  Decimal numbers as text: what \<^verbatim>\<open>fmt.Sprintf("%d")\<close> and the JSON encoder print, and the digits
  that the parsers of the standard library read.
\<close>

text \<open>Decimal numbers as \<^verbatim>\<open>fmt\<close> prints them.\<close>

definition digit :: "nat \<Rightarrow> char" where
  "digit d = char_of (48 + d)"

fun show_nat :: "nat \<Rightarrow> string" where
  "show_nat n = (if n < 10 then [digit n] else show_nat (n div 10) @ [digit (n mod 10)])"

declare show_nat.simps [simp del]

definition is_digit :: "char \<Rightarrow> bool" where
  "is_digit c \<longleftrightarrow> 48 \<le> (of_char c :: nat) \<and> of_char c \<le> (57 :: nat)"

definition digit_val :: "char \<Rightarrow> nat" where
  "digit_val c = of_char c - 48"

lemma digit_char: "d < 10 \<Longrightarrow> of_char (digit d) = (48 + d :: nat)"
  by (simp add: digit_def)

lemma digit_is_digit [simp]: "d < 10 \<Longrightarrow> is_digit (digit d)"
  by (simp add: is_digit_def digit_char)

lemma digit_value [simp]: "d < 10 \<Longrightarrow> digit_val (digit d) = d"
  by (simp add: digit_val_def digit_char)

lemma not_digits [simp]: "\<not> is_digit CHR '':''" "\<not> is_digit CHR ''.''"
  by (simp_all add: is_digit_def)

lemma show_nat_digits: "\<forall>c \<in> set (show_nat n). is_digit c"
proof (induction n rule: show_nat.induct)
  case (1 n)
  show ?case
  proof (cases "n < 10")
    case True
    then show ?thesis using digit_is_digit by (subst show_nat.simps) simp
  next
    case False
    then have "show_nat n = show_nat (n div 10) @ [digit (n mod 10)]" by (subst show_nat.simps) simp
    then show ?thesis using 1 [OF False] digit_is_digit [of "n mod 10"] by auto
  qed
qed

lemma show_nat_nonempty [simp]: "show_nat n \<noteq> []"
  by (subst show_nat.simps) simp

definition read_nat :: "string \<Rightarrow> nat" where
  "read_nat s = foldl (\<lambda>v c. 10 * v + digit_val c) 0 s"

lemma read_show [simp]: "read_nat (show_nat n) = n"
proof (induction n rule: show_nat.induct)
  case (1 n)
  show ?case
  proof (cases "n < 10")
    case True
    then show ?thesis by (subst show_nat.simps) (simp add: read_nat_def)
  next
    case False
    then show ?thesis using 1 [OF False] by (subst show_nat.simps) (simp add: read_nat_def)
  qed
qed

lemma show_nat_head: "hd (show_nat n) = CHR ''0'' \<longrightarrow> show_nat n = ''0''"
proof (induction n rule: show_nat.induct)
  case (1 n)
  have d0: "digit d = CHR ''0'' \<longleftrightarrow> d = 0" if "d < 10" for d
  proof
    assume "digit d = CHR ''0''"
    then have "of_char (digit d) = (48 :: nat)" by simp
    then show "d = 0" using digit_char [OF that] by simp
  qed (simp add: digit_def char_of_def bit_iff_odd)
  show ?case
  proof (cases "n < 10")
    case True
    then show ?thesis using d0 [of n] d0 [of 0] by (subst (1 2) show_nat.simps) auto
  next
    case False
    have "show_nat (n div 10) \<noteq> ''0''"
    proof
      assume z: "show_nat (n div 10) = ''0''"
      have "read_nat (show_nat (n div 10)) = 0" unfolding z by (simp add: read_nat_def digit_val_def)
      then show False using False by simp
    qed
    then show ?thesis using 1 [OF False] False by (subst (1 2) show_nat.simps) (simp add: hd_append)
  qed
qed

end
