(* ===== verification/Node.thy ===== *)
theory Node
  imports Lookup Go_Sort Decimal
begin

text \<open>
  A node of the network (\<^verbatim>\<open>dht/node.go\<close>): its configuration and state, the operations on
  keys that use a lookup, its periodic tasks and its HTTP handlers.

  \<^item> Where the code calls \<^verbatim>\<open>lookup\<close>, the state machine of theory \<^verbatim>\<open>Lookup\<close> is started from the
    node's routing table and run. The answers and their order are arguments.
  \<^item> A lookup takes its time: a handler that waits for one is suspended, and other goroutines
    change the node before it goes on with the state it then finds.
  \<^item> A request holds the parts that the handlers read.  \<open>None\<close> for a decoded part says that
    the JSON decoder returned an error.
  \<^item> A handler returns the response, the new state and the goroutines it has started, which
    run after it.
\<close>

subsection \<open>Configuration\<close>

record node_config =
  cf_host :: string
  cf_alt_host :: string
  cf_port :: u16
  cf_id :: key
  cf_alpha :: int
  cf_k :: int
  cf_republish :: int
  cf_refresh :: int
  cf_expiry :: int
  cf_swarm_key :: key
  cf_upload_key :: key

text \<open>\<^verbatim>\<open>time.Hour\<close> in nanoseconds\<close>

definition hour :: int where
  "hour = 3600 * 10 ^ 9"

definition default_node_config :: node_config where
  "default_node_config =
     \<lparr>cf_host = ''0.0.0.0'', cf_alt_host = '''', cf_port = 3000, cf_id = zero_key, cf_alpha = 3,
      cf_k = 20, cf_republish = hour, cf_refresh = hour, cf_expiry = 24 * hour,
      cf_swarm_key = zero_key, cf_upload_key = zero_key\<rparr>"

definition with_host :: "node_config \<Rightarrow> string \<Rightarrow> node_config" where
  "with_host c h = c\<lparr>cf_host := h\<rparr>"

definition with_port :: "node_config \<Rightarrow> u16 \<Rightarrow> node_config" where
  "with_port c p = c\<lparr>cf_port := p\<rparr>"

definition with_id :: "node_config \<Rightarrow> key \<Rightarrow> node_config" where
  "with_id c k = c\<lparr>cf_id := k\<rparr>"

text \<open>\<^verbatim>\<open>host:port\<close>\<close>

definition host_port :: "string \<Rightarrow> u16 \<Rightarrow> string" where
  "host_port host port = host @ '':'' @ show_nat (unat port)"

record node =
  nd_config :: node_config
  nd_self :: contact
  nd_rt :: routing_table
  nd_peers :: peer_store
  nd_trie :: trie_node

definition new_node :: "int \<Rightarrow> node_config \<Rightarrow> node option" where
  "new_node now config =
     (let contact_host = (if cf_alt_host config \<noteq> '''' then cf_alt_host config else cf_host config);
          self = \<lparr>contact_id = cf_id config, contact_address = host_port contact_host (cf_port config)\<rparr>
      in case new_routing_table now self (cf_k config) of
           None \<Rightarrow> None
         | Some rt \<Rightarrow> Some \<lparr>nd_config = config, nd_self = self, nd_rt = rt,
             nd_peers = new_peer_store (cf_expiry config), nd_trie = new_trie\<rparr>)"

definition update_asn :: "node \<Rightarrow> prefix \<Rightarrow> int \<Rightarrow> (error option \<times> node) option" where
  "update_asn n p asn =
     (case trie_insert (nd_trie n) p asn of
        None \<Rightarrow> None
      | Some (Inl e) \<Rightarrow> Some (Some e, n)
      | Some (Inr t) \<Rightarrow> Some (None, n\<lparr>nd_trie := t\<rparr>))"

subsection \<open>Calls into the network\<close>

text \<open>
  What a call has from outside: the clock, the iteration orders of the maps, which contacts
  answer a ping or accept a store, what happens during a lookup from the given first state on, and
  what other goroutines do to the node in the meantime.
\<close>

record env =
  ev_now :: int
  ev_clk :: "peer \<Rightarrow> int"
  ev_peer_ord :: "peer list \<Rightarrow> peer list"
  ev_bucket_ord :: "nat \<Rightarrow> (key \<times> elem) list \<Rightarrow> (key \<times> elem) list"
  ev_ping :: "contact \<Rightarrow> bool"
  ev_events :: "lookup \<Rightarrow> event list"
  ev_meanwhile :: "node \<Rightarrow> node"
  ev_store :: "contact \<Rightarrow> key \<Rightarrow> peer list \<Rightarrow> bool"

text \<open>The head of \<^verbatim>\<open>lookup\<close>: it starts from the node's own routing table; \<open>None\<close> is a panic.\<close>

definition start_lookup :: "env \<Rightarrow> node \<Rightarrow> lookup_kind \<Rightarrow> key \<Rightarrow> status option" where
  "start_lookup ev n lk k =
     lookup_start lk (cf_alpha (nd_config n)) (nat (cf_k (nd_config n))) k
       (find_closest (ev_bucket_ord ev) (nd_rt n) k (contact_id (nd_self n)))"

text \<open>\<open>None\<close>: the lookup panics, or what happens during it does not bring it to an end.\<close>

definition node_lookup :: "env \<Rightarrow> node \<Rightarrow> lookup_kind \<Rightarrow> key \<Rightarrow> outcome option" where
  "node_lookup ev n lk k =
     (case start_lookup ev n lk k of
        None \<Rightarrow> None
      | Some (Returned r) \<Rightarrow> Some r
      | Some (Running l) \<Rightarrow>
          (case lookup_run (Running l) (ev_events ev l) of Some (Returned r) \<Rightarrow> Some r | _ \<Rightarrow> None))"

definition node_update_contact :: "env \<Rightarrow> node \<Rightarrow> contact \<Rightarrow> node option" where
  "node_update_contact ev n c =
     (case update_contact (ev_bucket_ord ev) (ev_now ev) (ev_ping ev) 0 (nd_rt n) c of
        None \<Rightarrow> None
      | Some rt \<Rightarrow> Some (n\<lparr>nd_rt := rt\<rparr>))"

fun update_contacts :: "env \<Rightarrow> node \<Rightarrow> contact list \<Rightarrow> node option" where
  "update_contacts ev n [] = Some n"
| "update_contacts ev n (c # cs) =
     (case node_update_contact ev n c of None \<Rightarrow> None | Some n' \<Rightarrow> update_contacts ev n' cs)"

definition node_find_node :: "env \<Rightarrow> node \<Rightarrow> key \<Rightarrow> (error + contact list) option" where
  "node_find_node ev n k =
     map_option (\<lambda>out. case out of
        Failed e \<Rightarrow> Inl e
      | FoundPeers _ _ \<Rightarrow> Inl NodeWithKeyNotFound
      | NotFound cs \<Rightarrow> Inr cs) (node_lookup ev n FindNodeLookup k)"

text \<open>\<^verbatim>\<open>FindPeers\<close> before and after its lookup, and as a whole.\<close>

definition own_peers :: "env \<Rightarrow> node \<Rightarrow> key \<Rightarrow> peer list option \<times> node" where
  "own_peers ev n k =
     (case peer_store_get (ev_clk ev) (ev_peer_ord ev) (nd_peers n) k of
        (Inr v, s) \<Rightarrow> (Some v, n\<lparr>nd_peers := s\<rparr>)
      | (Inl _, s) \<Rightarrow> (None, n\<lparr>nd_peers := s\<rparr>))"

definition take_outcome :: "node \<Rightarrow> key \<Rightarrow> outcome \<Rightarrow> (error + peer list) \<times> node" where
  "take_outcome n k out =
     (case out of
        Failed e \<Rightarrow> (Inl e, n)
      | NotFound _ \<Rightarrow> (Inl PeersNotFound, n)
      | FoundPeers ps _ \<Rightarrow> (Inr ps, n\<lparr>nd_peers := peer_store_put (nd_peers n) k ps\<rparr>))"

definition node_find_peers :: "env \<Rightarrow> node \<Rightarrow> key \<Rightarrow> ((error + peer list) \<times> node) option" where
  "node_find_peers ev n k =
     (case own_peers ev n k of
        (Some v, n1) \<Rightarrow> Some (Inr v, n1)
      | (None, n1) \<Rightarrow> map_option (take_outcome (ev_meanwhile ev n1) k) (node_lookup ev n1 FindPeersLookup k))"

text \<open>The loop of \<^verbatim>\<open>Store\<close>: the contacts that were sent the pair, and the first error.\<close>

fun send_stores :: "(contact \<Rightarrow> bool) \<Rightarrow> contact list \<Rightarrow> contact list \<times> error option" where
  "send_stores accepts [] = ([], None)"
| "send_stores accepts (c # cs) =
     (if \<not> accepts c then ([c], Some RpcFailed)
      else (case send_stores accepts cs of (sent, err) \<Rightarrow> (c # sent, err)))"

text \<open>Once its lookup has started, \<^verbatim>\<open>Store\<close> does not use the node any more.\<close>

definition node_store ::
  "env \<Rightarrow> node \<Rightarrow> key \<Rightarrow> peer list \<Rightarrow> bool \<Rightarrow> (error option \<times> contact list \<times> node) option" where
  "node_store ev n k ps network_only =
     (let n1 = (if \<not> network_only then n\<lparr>nd_peers := peer_store_put (nd_peers n) k ps\<rparr> else n)
      in case node_find_node ev n1 k of
           None \<Rightarrow> None
         | Some (Inl e) \<Rightarrow> Some (Some e, [], n1)
         | Some (Inr cs) \<Rightarrow> Some (case send_stores (\<lambda>c. ev_store ev c k ps) cs of (sent, err) \<Rightarrow> (err, sent, n1)))"

definition node_bootstrap :: "env \<Rightarrow> node \<Rightarrow> contact \<Rightarrow> (error option \<times> node) option" where
  "node_bootstrap ev n c =
     (case node_update_contact ev n c of
        None \<Rightarrow> None
      | Some n1 \<Rightarrow>
          (case node_find_node ev n1 (contact_id (nd_self n1)) of
             None \<Rightarrow> None
           | Some (Inl e) \<Rightarrow> Some (Some e, ev_meanwhile ev n1)
           | Some (Inr cs) \<Rightarrow> map_option (\<lambda>n2. (None, n2)) (update_contacts ev (ev_meanwhile ev n1) cs)))"

subsection \<open>Periodic tasks\<close>

text \<open>One tick of \<^verbatim>\<open>refresh\<close>: the least recently seen contact of each old bucket is looked up.\<close>

definition refresh_targets :: "int \<Rightarrow> routing_table \<Rightarrow> contact list" where
  "refresh_targets now rt =
     concat (map (\<lambda>b. if now - last_updated b > hour
                      then (case contacts b of [] \<Rightarrow> [] | e # _ \<Rightarrow> [snd e]) else [])
                 (rt_buckets rt))"

fun refresh_each :: "env \<Rightarrow> node \<Rightarrow> contact list \<Rightarrow> node option" where
  "refresh_each ev n [] = Some n"
| "refresh_each ev n (c # cs) =
     (case node_find_node ev n (contact_id c) of
        None \<Rightarrow> None
      | Some r \<Rightarrow>
          let new_contacts = (case r of Inl _ \<Rightarrow> [] | Inr ncs \<Rightarrow> ncs)
          in case update_contacts ev (ev_meanwhile ev n) new_contacts of
               None \<Rightarrow> None
             | Some n' \<Rightarrow> refresh_each ev n' cs)"

definition refresh_tick :: "env \<Rightarrow> node \<Rightarrow> node option" where
  "refresh_tick ev n = refresh_each ev n (refresh_targets (ev_now ev) (nd_rt n))"

text \<open>
  One tick of \<^verbatim>\<open>republish\<close>: every stored pair is sent to nodes closest to its key.  The log has
  for each key what was sent to whom.
\<close>

fun republish_each ::
  "env \<Rightarrow> node \<Rightarrow> (key \<times> peer list) list \<Rightarrow> ((key \<times> peer list \<times> contact list) list \<times> node) option" where
  "republish_each ev n [] = Some ([], n)"
| "republish_each ev n ((k, ps) # prs) =
     (case node_store ev n k ps True of
        None \<Rightarrow> None
      | Some (_, sent, n1) \<Rightarrow>
          map_option (\<lambda>(log, n'). ((k, ps, sent) # log, n')) (republish_each ev (ev_meanwhile ev n1) prs))"

definition republish_tick ::
  "env \<Rightarrow> (key list \<Rightarrow> key list) \<Rightarrow> node \<Rightarrow> ((key \<times> peer list \<times> contact list) list \<times> node) option" where
  "republish_tick ev kord n =
     (case peer_store_get_all (\<lambda>_. ev_clk ev) (\<lambda>_. ev_peer_ord ev) kord (nd_peers n) of
        (prs, s) \<Rightarrow> republish_each ev (n\<lparr>nd_peers := s\<rparr>) prs)"

subsection \<open>Addresses of requests\<close>

text \<open>
  \<^verbatim>\<open>netip.ParseAddr\<close> on IPv4 addresses: the loop over the text with the fields found so far,
  the value of the current one and its number of digits.
\<close>

fun v4_loop :: "nat list \<Rightarrow> nat \<Rightarrow> nat \<Rightarrow> string \<Rightarrow> nat list option" where
  "v4_loop fs val len [] = (if length fs < 3 then None else Some (fs @ [val]))"
| "v4_loop fs val len (c # cs) =
     (if is_digit c
      then (if len = 1 \<and> val = 0 then None
            else let v = 10 * val + digit_val c in
              if v > 255 then None else v4_loop fs v (len + 1) cs)
      else if c = CHR ''.''
      then (if len = 0 \<or> cs = [] then None
            else if length fs = 3 then None
            else v4_loop (fs @ [val]) 0 0 cs)
      else None)"

definition parse_v4 :: "string \<Rightarrow> addr option" where
  "parse_v4 s =
     (case v4_loop [] 0 0 s of
        Some [a, b, c, d] \<Rightarrow> Some (Addr4 (of_nat a) (of_nat b) (of_nat c) (of_nat d))
      | _ \<Rightarrow> None)"

text \<open>\<^verbatim>\<open>strconv.ParseUint(s, 10, 16)\<close>\<close>

fun port_loop :: "nat \<Rightarrow> string \<Rightarrow> nat option" where
  "port_loop val [] = Some val"
| "port_loop val (c # cs) =
     (if is_digit c
      then (let v = 10 * val + digit_val c in if v > 65535 then None else port_loop v cs)
      else None)"

definition parse_port :: "string \<Rightarrow> nat option" where
  "parse_port s = (if s = [] then None else port_loop 0 s)"

text \<open>The text before and after the last colon.\<close>

fun split_last_colon :: "string \<Rightarrow> (string \<times> string) option" where
  "split_last_colon [] = None"
| "split_last_colon (c # cs) =
     (case split_last_colon cs of
        Some (ip, port) \<Rightarrow> Some (c # ip, port)
      | None \<Rightarrow> if c = CHR '':'' then Some ([], cs) else None)"

text \<open>
  \<^verbatim>\<open>parseIP\<close>.  An IPv6 address, in brackets or not, is parsed by the library and then refused
  by \<^verbatim>\<open>Is4\<close>, so the model refuses it at once.
\<close>

definition parse_ip :: "string \<Rightarrow> error + addr" where
  "parse_ip s =
     (case parse_v4 s of
        Some ip \<Rightarrow> Inr ip
      | None \<Rightarrow>
          (case split_last_colon s of
             None \<Rightarrow> Inl InvalidIP
           | Some (ip, port) \<Rightarrow>
               (case parse_port port of
                  None \<Rightarrow> Inl InvalidIP
                | Some _ \<Rightarrow> (case parse_v4 ip of None \<Rightarrow> Inl InvalidIP | Some a \<Rightarrow> Inr a))))"

subsection \<open>Requests and responses\<close>

record request =
  rq_key :: string                            \<comment> \<open>\<^verbatim>\<open>chi.URLParam(r, "key")\<close>\<close>
  rq_port :: "u16 option"                     \<comment> \<open>the decoded body of a PUT\<close>
  rq_pair :: "(key \<times> peer list) option"       \<comment> \<open>the decoded body of a store\<close>
  rq_remote :: string                         \<comment> \<open>\<^verbatim>\<open>r.RemoteAddr\<close>\<close>
  rq_upload :: string                         \<comment> \<open>the header \<^verbatim>\<open>Inu-Upload\<close>\<close>
  rq_swarm :: string                          \<comment> \<open>the header \<^verbatim>\<open>Inu-Swarm\<close>\<close>
  rq_src :: "contact option"                  \<comment> \<open>the decoded header \<^verbatim>\<open>Inu-Src\<close>\<close>

datatype body =
    NoBody
  | PeersBody "peer list"
  | ContactsBody "contact list"
  | FindPeersBody bool "peer list" "contact list"

type_synonym response = "nat \<times> body"

datatype task = UpdateTask contact | StoreTask key "peer list"

datatype route = KeyGet | KeyPut | RpcPing | RpcStore | RpcFindNode | RpcFindPeers

abbreviation status_ok :: nat where "status_ok \<equiv> 200"
abbreviation status_bad_request :: nat where "status_bad_request \<equiv> 400"
abbreviation status_unauthorized :: nat where "status_unauthorized \<equiv> 401"
abbreviation status_not_found :: nat where "status_not_found \<equiv> 404"

text \<open>A middleware either answers itself or passes a value on.\<close>

definition auth_swarm_key :: "node \<Rightarrow> request \<Rightarrow> response option" where
  "auth_swarm_key n rq =
     (case unmarshal_b32 zero_key (rq_swarm rq) of
        Inl _ \<Rightarrow> Some (status_bad_request, NoBody)
      | Inr k \<Rightarrow> if k \<noteq> cf_swarm_key (nd_config n) then Some (status_unauthorized, NoBody) else None)"

definition parse_src :: "request \<Rightarrow> response + contact" where
  "parse_src rq =
     (case rq_src rq of None \<Rightarrow> Inl (status_bad_request, NoBody) | Some c \<Rightarrow> Inr c)"

text \<open>
  \<^verbatim>\<open>validateUpload\<close> refuses a request, passes its values on, or searches the network for the key
  first.
\<close>

datatype upload_check = Refused response | Accepted key u16 addr | Searching key u16 addr

definition validate_upload :: "env \<Rightarrow> node \<Rightarrow> request \<Rightarrow> upload_check \<times> node" where
  "validate_upload ev n rq =
     (case unmarshal_b32 zero_key (rq_key rq) of
        Inl _ \<Rightarrow> (Refused (status_bad_request, NoBody), n)
      | Inr k \<Rightarrow>
     (case rq_port rq of
        None \<Rightarrow> (Refused (status_bad_request, NoBody), n)
      | Some port \<Rightarrow>
     (case parse_ip (rq_remote rq) of
        Inl _ \<Rightarrow> (Refused (status_bad_request, NoBody), n)
      | Inr ip \<Rightarrow>
          if cf_upload_key (nd_config n) = zero_key then (Accepted k port ip, n)
          else
            (let search = (case own_peers ev n k of
                    (Some _, n') \<Rightarrow> (Accepted k port ip, n')
                  | (None, n') \<Rightarrow> (Searching k port ip, n'))
             in if rq_upload rq \<noteq> ''''
                then (case unmarshal_b32 zero_key (rq_upload rq) of
                        Inl _ \<Rightarrow> (Refused (status_bad_request, NoBody), n)
                      | Inr uk \<Rightarrow> if uk = cf_upload_key (nd_config n) then (Accepted k port ip, n) else search)
                else search))))"

text \<open>
  \<^verbatim>\<open>handleKeyGet\<close>: the comparison given to the sort returns -1 when the AS number of its
  first argument is the requester's, and 1 otherwise.
\<close>

definition asn_cmp :: "int \<Rightarrow> peer \<Rightarrow> peer \<Rightarrow> int" where
  "asn_cmp asn a b = (if asn = peer_asn a then -1 else 1)"

definition peers_response :: "node \<Rightarrow> int \<Rightarrow> peer list \<Rightarrow> response" where
  "peers_response n asn p =
     (let p1 = stable_sort (\<lambda>a b. asn_cmp asn a b < 0) p;
          p2 = (if int (length p1) > cf_k (nd_config n) then take (nat (cf_k (nd_config n))) p1 else p1)
      in (status_ok, PeersBody p2))"

text \<open>A handler that waits for its lookup, with what it needs afterwards.\<close>

datatype suspended =
    GetWaits key int          \<comment> \<open>\<^verbatim>\<open>handleKeyGet\<close>, with the AS number of the requester\<close>
  | PutWaits key u16 addr     \<comment> \<open>\<^verbatim>\<open>validateUpload\<close>\<close>

fun suspended_key :: "suspended \<Rightarrow> key" where
  "suspended_key (GetWaits k asn) = k"
| "suspended_key (PutWaits k port ip) = k"

definition handle_key_get :: "env \<Rightarrow> node \<Rightarrow> request \<Rightarrow> ((response + suspended) \<times> node) option" where
  "handle_key_get ev n rq =
     (case unmarshal_b32 zero_key (rq_key rq) of
        Inl _ \<Rightarrow> Some (Inl (status_bad_request, NoBody), n)
      | Inr k \<Rightarrow>
     (case parse_ip (rq_remote rq) of
        Inl _ \<Rightarrow> Some (Inl (status_bad_request, NoBody), n)
      | Inr ip \<Rightarrow>
     (case trie_match (nd_trie n) ip of
        None \<Rightarrow> None
      | Some (asn, _) \<Rightarrow>
     (case own_peers ev n k of
        (Some p, n') \<Rightarrow> Some (Inl (peers_response n' asn p), n')
      | (None, n') \<Rightarrow> Some (Inr (GetWaits k asn), n')))))"

definition resume_key_get :: "node \<Rightarrow> key \<Rightarrow> int \<Rightarrow> outcome \<Rightarrow> response \<times> node" where
  "resume_key_get n k asn out =
     (case take_outcome n k out of
        (Inl _, n') \<Rightarrow> ((status_not_found, NoBody), n')
      | (Inr p, n') \<Rightarrow> (peers_response n' asn p, n'))"

definition handle_key_put ::
  "env \<Rightarrow> node \<Rightarrow> key \<times> u16 \<times> addr \<Rightarrow> (response \<times> node \<times> task list) option" where
  "handle_key_put ev n ctx =
     (case ctx of (k, port, ip) \<Rightarrow>
      case trie_match (nd_trie n) ip of
        None \<Rightarrow> None
      | Some (asn, _) \<Rightarrow>
          let ps = [\<lparr>peer_ip = ip, peer_port = port, peer_asn = asn, peer_published = ev_now ev\<rparr>]
          in Some ((status_ok, NoBody), n\<lparr>nd_peers := peer_store_put (nd_peers n) k ps\<rparr>, [StoreTask k ps]))"

definition handle_ping :: response where
  "handle_ping = (status_ok, NoBody)"

definition handle_store :: "node \<Rightarrow> request \<Rightarrow> response \<times> node" where
  "handle_store n rq =
     (case rq_pair rq of
        None \<Rightarrow> ((status_bad_request, NoBody), n)
      | Some (k, ps) \<Rightarrow> ((status_ok, NoBody), n\<lparr>nd_peers := peer_store_put (nd_peers n) k ps\<rparr>))"

definition handle_find_node :: "env \<Rightarrow> node \<Rightarrow> contact \<Rightarrow> request \<Rightarrow> response" where
  "handle_find_node ev n src rq =
     (case unmarshal_b32 zero_key (rq_key rq) of
        Inl _ \<Rightarrow> (status_bad_request, NoBody)
      | Inr k \<Rightarrow> (status_ok, ContactsBody (find_closest (ev_bucket_ord ev) (nd_rt n) k (contact_id src))))"

definition handle_find_peers :: "env \<Rightarrow> node \<Rightarrow> contact \<Rightarrow> request \<Rightarrow> response \<times> node" where
  "handle_find_peers ev n src rq =
     (case unmarshal_b32 zero_key (rq_key rq) of
        Inl _ \<Rightarrow> ((status_bad_request, NoBody), n)
      | Inr k \<Rightarrow>
     (case peer_store_get (ev_clk ev) (ev_peer_ord ev) (nd_peers n) k of
        (Inr ps, s) \<Rightarrow> ((status_ok, FindPeersBody True ps []), n\<lparr>nd_peers := s\<rparr>)
      | (Inl _, s) \<Rightarrow>
          ((status_ok, FindPeersBody False [] (find_closest (ev_bucket_ord ev) (nd_rt n) k (contact_id src))),
           n\<lparr>nd_peers := s\<rparr>)))"

text \<open>
  The router: the RPC routes go through both middlewares first.  \<open>serve_begin\<close> ends with the
  response and the goroutines that were started, or with the handler waiting for its lookup.
\<close>

definition serve_begin ::
  "env \<Rightarrow> node \<Rightarrow> route \<Rightarrow> request \<Rightarrow> ((response \<times> task list + suspended) \<times> node) option" where
  "serve_begin ev n r rq =
     (case r of
        KeyGet \<Rightarrow> map_option (\<lambda>(x, n'). (map_sum (\<lambda>resp. (resp, [])) id x, n')) (handle_key_get ev n rq)
      | KeyPut \<Rightarrow>
          (case validate_upload ev n rq of
             (Refused resp, n') \<Rightarrow> Some (Inl (resp, []), n')
           | (Searching k port ip, n') \<Rightarrow> Some (Inr (PutWaits k port ip), n')
           | (Accepted k port ip, n') \<Rightarrow>
               map_option (\<lambda>(resp, n'', ts). (Inl (resp, ts), n'')) (handle_key_put ev n' (k, port, ip)))
      | _ \<Rightarrow>
          (case auth_swarm_key n rq of
             Some resp \<Rightarrow> Some (Inl (resp, []), n)
           | None \<Rightarrow>
          (case parse_src rq of
             Inl resp \<Rightarrow> Some (Inl (resp, []), n)
           | Inr src \<Rightarrow>
               (case (case r of
                        RpcStore \<Rightarrow> handle_store n rq
                      | RpcFindNode \<Rightarrow> (handle_find_node ev n src rq, n)
                      | RpcFindPeers \<Rightarrow> handle_find_peers ev n src rq
                      | _ \<Rightarrow> (handle_ping, n)) of
                  (resp, n') \<Rightarrow> Some (Inl (resp, [UpdateTask src]), n')))))"

definition serve_end :: "env \<Rightarrow> node \<Rightarrow> suspended \<Rightarrow> outcome \<Rightarrow> (response \<times> node \<times> task list) option" where
  "serve_end ev n w out =
     (case w of
        GetWaits k asn \<Rightarrow> (case resume_key_get n k asn out of (resp, n') \<Rightarrow> Some (resp, n', []))
      | PutWaits k port ip \<Rightarrow>
          (case take_outcome n k out of
             (Inl _, n') \<Rightarrow> Some ((status_unauthorized, NoBody), n', [])
           | (Inr _, n') \<Rightarrow> handle_key_put ev n' (k, port, ip)))"

text \<open>A request from its beginning to its end, whatever else happens to the node in the meantime.\<close>

definition serve :: "env \<Rightarrow> node \<Rightarrow> route \<Rightarrow> request \<Rightarrow> (response \<times> node \<times> task list) option" where
  "serve ev n r rq =
     (case serve_begin ev n r rq of
        None \<Rightarrow> None
      | Some (Inl (resp, ts), n') \<Rightarrow> Some (resp, n', ts)
      | Some (Inr w, n') \<Rightarrow>
          (case node_lookup ev n' FindPeersLookup (suspended_key w) of
             None \<Rightarrow> None
           | Some out \<Rightarrow> serve_end ev (ev_meanwhile ev n') w out))"

definition run_task :: "env \<Rightarrow> node \<Rightarrow> task \<Rightarrow> node option" where
  "run_task ev n t =
     (case t of
        UpdateTask c \<Rightarrow> node_update_contact ev n c
      | StoreTask k ps \<Rightarrow> map_option (\<lambda>(_, _, n'). n') (node_store ev n k ps True))"

subsection \<open>Numbers and addresses as text\<close>

lemma port_loop_append: "port_loop v (s @ t) = Option.bind (port_loop v s) (\<lambda>v'. port_loop v' t)"
  by (induction v s rule: port_loop.induct) (auto simp: Let_def)

lemma port_loop_show: "n \<le> 65535 \<Longrightarrow> port_loop 0 (show_nat n) = Some n"
proof (induction n rule: show_nat.induct)
  case (1 n)
  show ?case
  proof (cases "n < 10")
    case True
    then show ?thesis
      using 1(2) by (subst show_nat.simps) (simp add: Let_def)
  next
    case False
    then have show_n: "show_nat n = show_nat (n div 10) @ [digit (n mod 10)]" by (subst show_nat.simps) simp
    have "port_loop 0 (show_nat (n div 10)) = Some (n div 10)" using 1 False by simp
    moreover have "10 * (n div 10) + n mod 10 = n" by simp
    ultimately show ?thesis
      using 1(2) unfolding show_n port_loop_append by (simp add: Let_def)
  qed
qed

lemma parse_port_show: "parse_port (show_nat (unat (p :: u16))) = Some (unat p)"
proof -
  have "unat p < 2 ^ 16" using unsigned_less [of p] by simp
  then show ?thesis by (simp add: parse_port_def port_loop_show)
qed

lemma split_last_colon_none: "CHR '':'' \<notin> set s \<Longrightarrow> split_last_colon s = None"
  by (induction s) auto

lemma split_last_colon_append:
  "CHR '':'' \<notin> set p \<Longrightarrow> split_last_colon (ip @ CHR '':'' # p) = Some (ip, p)"
  by (induction ip) (auto simp: split_last_colon_none)

lemma v4_loop_colon: "v4_loop fs v l (s @ CHR '':'' # t) = None"
  by (induction s arbitrary: fs v l) (auto simp: Let_def)

text \<open>The loop reads the digits of a field.\<close>

lemma v4_loop_show:
  assumes "n \<le> 255"
  shows "v4_loop fs 0 0 (show_nat n @ rest) = v4_loop fs n (length (show_nat n)) rest"
proof -
  consider (one) "n < 10" | (two) "10 \<le> n" "n < 100" | (three) "100 \<le> n" by linarith
  then show ?thesis
  proof cases
    case one
    then have "show_nat n = [digit n]" by (subst show_nat.simps) simp
    then show ?thesis using one assms by (simp add: Let_def)
  next
    case two
    then have s: "show_nat n = [digit (n div 10), digit (n mod 10)]"
      by (subst show_nat.simps, subst show_nat.simps) auto
    have "n div 10 < 10" "n div 10 \<noteq> 0" "n mod 10 < 10" "10 * (n div 10) + n mod 10 = n" "n div 10 \<le> 255"
      using two by auto
    then show ?thesis unfolding s using assms by (simp add: Let_def)
  next
    case three
    let ?a = "n div 100" and ?b = "n div 10 mod 10" and ?c = "n mod 10"
    have "n div 10 div 10 = ?a" by (simp add: div_mult2_eq [symmetric])
    then have s: "show_nat n = [digit ?a, digit ?b, digit ?c]"
      using three assms by (subst show_nat.simps, subst show_nat.simps, subst show_nat.simps) auto
    have "?a < 10" "?a \<noteq> 0" "?b < 10" "?c < 10" "10 * (n div 10) + ?c = n"
      "n div 10 \<le> 255" "?a \<le> 255"
      using three assms by auto
    moreover have "10 * ?a + ?b = n div 10"
      using \<open>n div 10 div 10 = ?a\<close> mult_div_mod_eq [of 10 "n div 10"] by simp
    ultimately show ?thesis unfolding s using assms by (simp add: Let_def)
  qed
qed

lemma v4_loop_dot:
  "0 < l \<Longrightarrow> cs \<noteq> [] \<Longrightarrow> length fs < 3 \<Longrightarrow> v4_loop fs v l (CHR ''.'' # cs) = v4_loop (fs @ [v]) 0 0 cs"
  by simp

text \<open>\<^verbatim>\<open>Addr.String\<close> for an IPv4 address\<close>

definition show_v4 :: "u8 \<Rightarrow> u8 \<Rightarrow> u8 \<Rightarrow> u8 \<Rightarrow> string" where
  "show_v4 a b c d = show_nat (unat a) @ ''.'' @ show_nat (unat b) @ ''.'' @ show_nat (unat c) @ ''.'' @
     show_nat (unat d)"

lemma parse_v4_show: "parse_v4 (show_v4 a b c d) = Some (Addr4 a b c d)"
proof -
  have "v4_loop [] 0 0 (show_v4 a b c d) = Some [unat a, unat b, unat c, unat d]"
    using v4_loop_show [of "unat d" "[unat a, unat b, unat c]" "[]"]
    by (simp add: show_v4_def v4_loop_show v4_loop_dot del: v4_loop.simps(2))
  then show ?thesis by (simp add: parse_v4_def)
qed

subsection \<open>Environments\<close>

text \<open>
  The invariant of a node: its routing table covers the keys up to \<open>hi\<close>, its peer store holds
  each peer once, its K is that of the table, and no prefix of 32 bits was loaded.
\<close>

definition trie_total :: "trie_node \<Rightarrow> bool" where
  "trie_total t \<longleftrightarrow> (\<forall>a b c d. trie_match t (Addr4 a b c d) \<noteq> None)"

definition node_inv :: "nat \<Rightarrow> node \<Rightarrow> bool" where
  "node_inv hi n \<longleftrightarrow> table_inv hi (nd_rt n) \<and> store_inv (nd_peers n) \<and>
     rt_k (nd_rt n) = cf_k (nd_config n) \<and> trie_total (nd_trie n)"

text \<open>
  What holds of every environment: maps are iterated over in some order, and other goroutines leave
  the node's configuration and contact, which nothing assigns, and keep the invariant.
\<close>

definition env_ok :: "env \<Rightarrow> bool" where
  "env_ok ev \<longleftrightarrow> iteration_order (ev_peer_ord ev) \<and> (\<forall>i. iteration_order (ev_bucket_ord ev i)) \<and>
     (\<forall>n. nd_config (ev_meanwhile ev n) = nd_config n \<and> nd_self (ev_meanwhile ev n) = nd_self n \<and>
        (\<forall>hi. node_inv hi n \<longrightarrow> node_inv hi (ev_meanwhile ev n)))"

lemma env_okD:
  assumes "env_ok ev"
  shows "iteration_order (ev_peer_ord ev)" "iteration_order (ev_bucket_ord ev i)"
    "nd_config (ev_meanwhile ev n) = nd_config n" "nd_self (ev_meanwhile ev n) = nd_self n"
    "node_inv hi n \<Longrightarrow> node_inv hi (ev_meanwhile ev n)"
  using assms by (simp_all add: env_ok_def)

lemma node_inv_frame:
  "node_inv hi n \<Longrightarrow> store_inv s \<Longrightarrow> node_inv hi (n\<lparr>nd_peers := s\<rparr>)"
  "node_inv hi n \<Longrightarrow> table_inv hi rt \<Longrightarrow> rt_k rt = rt_k (nd_rt n) \<Longrightarrow> node_inv hi (n\<lparr>nd_rt := rt\<rparr>)"
  by (simp_all add: node_inv_def)

lemma parse_ip_v4: "parse_ip s = Inr ip \<Longrightarrow> \<exists>a b c d. ip = Addr4 a b c d"
  by (auto simp: parse_ip_def parse_v4_def split: option.splits list.splits prod.splits)

subsection \<open>Lookups of a node\<close>

text \<open>What happens during the lookup that the node starts now brings it to an end.\<close>

definition lookup_ends :: "env \<Rightarrow> node \<Rightarrow> lookup_kind \<Rightarrow> key \<Rightarrow> bool" where
  "lookup_ends ev n lk k \<longleftrightarrow> (\<forall>l. start_lookup ev n lk k = Some (Running l) \<longrightarrow>
     (\<exists>r. lookup_run (Running l) (ev_events ev l) = Some (Returned r)))"

lemma lookup_start_total: "1 \<le> alpha \<Longrightarrow> 0 < K \<Longrightarrow> lookup_start lk alpha K k initial \<noteq> None"
proof -
  assume "1 \<le> alpha" "0 < K"
  have "sl_list (sl_insert cs (new_shortlist k K)) \<noteq> []" if "cs \<noteq> []" for cs
  proof -
    have "set (fold (insert_contact k) cs []) = set cs" using fold_insert_set [of k "[]" cs] by simp
    then show ?thesis using that \<open>0 < K\<close> by (auto simp: sl_insert_list new_shortlist_def)
  qed
  note list = this
  let ?i = "if int (length initial) > alpha then take (nat alpha) initial else initial"
  show ?thesis
  proof (cases "initial = []")
    case False
    then have "?i \<noteq> []" using \<open>1 \<le> alpha\<close> by simp
    then have "sl_list (sl_insert ?i (new_shortlist k K)) \<noteq> []" by (rule list)
    then obtain c cs where "sl_list (sl_insert ?i (new_shortlist k K)) = c # cs" by (auto simp: neq_Nil_conv)
    then show ?thesis using False \<open>1 \<le> alpha\<close> unfolding lookup_start_def Let_def by simp
  qed (simp add: lookup_start_def)
qed

lemma start_lookup_total:
  assumes "node_inv hi n" and "1 \<le> cf_alpha (nd_config n)"
  shows "start_lookup ev n lk k \<noteq> None"
  unfolding start_lookup_def by (rule lookup_start_total) (use assms in \<open>auto simp: node_inv_def table_inv_def\<close>)

lemma node_lookup_total:
  assumes "node_inv hi n" and "1 \<le> cf_alpha (nd_config n)" and "lookup_ends ev n lk k"
  shows "\<exists>r. node_lookup ev n lk k = Some r"
proof -
  obtain st where st: "start_lookup ev n lk k = Some st" using start_lookup_total [OF assms(1,2)] by blast
  show ?thesis
  proof (cases st)
    case (Running l)
    then obtain r where "lookup_run (Running l) (ev_events ev l) = Some (Returned r)"
      using assms(3) st by (auto simp: lookup_ends_def)
    then show ?thesis using st Running by (simp add: node_lookup_def)
  qed (use st in \<open>simp add: node_lookup_def\<close>)
qed

lemma start_lookup_frame [simp]:
  "start_lookup ev (n\<lparr>nd_peers := s\<rparr>) lk k = start_lookup ev n lk k"
  "node_lookup ev (n\<lparr>nd_peers := s\<rparr>) lk k = node_lookup ev n lk k"
  by (simp_all add: start_lookup_def node_lookup_def)

subsection \<open>Steps of the handlers\<close>

lemma put_inv: "node_inv hi n \<Longrightarrow> node_inv hi (n\<lparr>nd_peers := peer_store_put (nd_peers n) k ps\<rparr>)"
  by (intro node_inv_frame(1) store_inv_put) (auto simp: node_inv_def)

lemma get_inv:
  "node_inv hi n \<Longrightarrow> peer_store_get clk ord (nd_peers n) k = (g, s) \<Longrightarrow> node_inv hi (n\<lparr>nd_peers := s\<rparr>)"
  by (intro node_inv_frame(1)) (auto simp: node_inv_def dest: store_inv_get)

text \<open>Where the invariant is kept, only the peer store differs.\<close>

definition stored :: "nat \<Rightarrow> node \<Rightarrow> node \<Rightarrow> bool" where
  "stored hi n n' \<longleftrightarrow> node_inv hi n' \<and> n'\<lparr>nd_peers := nd_peers n\<rparr> = n"

lemma keptD:
  assumes "stored hi n n'"
  shows "node_inv hi n'" "nd_rt n' = nd_rt n" "nd_config n' = nd_config n" "nd_trie n' = nd_trie n" "nd_self n' = nd_self n"
proof -
  have n: "n = n'\<lparr>nd_peers := nd_peers n\<rparr>" and inv: "node_inv hi n'" using assms by (simp_all add: stored_def)
  show "node_inv hi n'" by (rule inv)
  show "nd_rt n' = nd_rt n" "nd_config n' = nd_config n" "nd_trie n' = nd_trie n" "nd_self n' = nd_self n"
    by (subst n, simp)+
qed

lemma kept_refl: "node_inv hi n \<Longrightarrow> stored hi n n"
  by (simp add: stored_def)

lemma kept_trans:
  assumes "stored hi n n'" and "stored hi n' n''"
  shows "stored hi n n''"
proof -
  have "n' = n''\<lparr>nd_peers := nd_peers n'\<rparr>" "n = n'\<lparr>nd_peers := nd_peers n\<rparr>" using assms by (simp_all add: stored_def)
  then have "n = n''\<lparr>nd_peers := nd_peers n\<rparr>" by (metis node.update_convs(4) node.surjective)
  then show ?thesis using assms by (simp add: stored_def)
qed

lemma kept_put: "node_inv hi n \<Longrightarrow> stored hi n (n\<lparr>nd_peers := peer_store_put (nd_peers n) k ps\<rparr>)"
  by (simp add: stored_def put_inv)

lemma kept_own: "node_inv hi n \<Longrightarrow> own_peers ev n k = (r, n') \<Longrightarrow> stored hi n n'"
  by (auto simp: stored_def own_peers_def get_inv split: sum.splits prod.splits)

lemma kept_take: "node_inv hi n \<Longrightarrow> take_outcome n k out = (r, n') \<Longrightarrow> stored hi n n'"
  by (auto simp: stored_def take_outcome_def put_inv split: outcome.splits)

lemma update_contact_inv:
  assumes "node_inv hi n" "env_ok ev" "key_nat (contact_id c) \<le> hi"
  obtains n' where "node_update_contact ev n c = Some n'" "node_inv hi n'" "nd_self n' = nd_self n"
    "nd_peers n' = nd_peers n" "learned (ev_ping ev) c (nd_rt n) (nd_rt n')" "nd_config n' = nd_config n"
proof -
  have "\<exists>rt'. update_contact (ev_bucket_ord ev) (ev_now ev) (ev_ping ev) 0 (nd_rt n) c = Some rt' \<and>
      table_inv hi rt' \<and> rt_k rt' = rt_k (nd_rt n) \<and> rt_self rt' = rt_self (nd_rt n) \<and>
      learned (ev_ping ev) c (nd_rt n) rt'"
    by (rule update_contact_total) (use assms in \<open>auto simp: node_inv_def env_ok_def\<close>)
  then show thesis
    using that assms(1) node_inv_frame(2) by (fastforce simp: node_update_contact_def)
qed

lemma update_contacts_inv:
  assumes "node_inv hi n" "env_ok ev" "\<forall>c \<in> set cs. key_nat (contact_id c) \<le> hi"
  shows "\<exists>n'. update_contacts ev n cs = Some n' \<and> node_inv hi n' \<and> nd_peers n' = nd_peers n \<and>
    nd_config n' = nd_config n \<and> nd_self n' = nd_self n"
  using assms
proof (induction cs arbitrary: n)
  case (Cons c cs)
  obtain n1 where n1: "node_update_contact ev n c = Some n1" "node_inv hi n1" "nd_peers n1 = nd_peers n"
    "nd_config n1 = nd_config n" "nd_self n1 = nd_self n"
    using update_contact_inv [OF Cons.prems(1,2), of c] Cons.prems(3) by auto
  then show ?case using Cons.IH [OF n1(2) Cons.prems(2)] Cons.prems(3) by simp
qed simp

subsection \<open>Requests from beginning to end\<close>

text \<open>The handlers of the public routes, with the lookup in their middle.\<close>

lemma serve_key_get:
  "serve ev n KeyGet rq =
     (case unmarshal_b32 zero_key (rq_key rq) of
        Inl _ \<Rightarrow> Some ((400, NoBody), n, [])
      | Inr k \<Rightarrow>
     (case parse_ip (rq_remote rq) of
        Inl _ \<Rightarrow> Some ((400, NoBody), n, [])
      | Inr ip \<Rightarrow>
     (case trie_match (nd_trie n) ip of
        None \<Rightarrow> None
      | Some (asn, _) \<Rightarrow>
          map_option (\<lambda>(r, n'). (case r of Inl _ \<Rightarrow> (404, NoBody) | Inr p \<Rightarrow> peers_response n' asn p, n', []))
            (node_find_peers ev n k))))"
  by (auto simp: serve_def serve_begin_def serve_end_def handle_key_get_def node_find_peers_def resume_key_get_def
      split: sum.split option.split prod.split)

lemma serve_key_put:
  "serve ev n KeyPut rq =
     (case unmarshal_b32 zero_key (rq_key rq) of
        Inl _ \<Rightarrow> Some ((400, NoBody), n, [])
      | Inr k \<Rightarrow>
     (case rq_port rq of
        None \<Rightarrow> Some ((400, NoBody), n, [])
      | Some port \<Rightarrow>
     (case parse_ip (rq_remote rq) of
        Inl _ \<Rightarrow> Some ((400, NoBody), n, [])
      | Inr ip \<Rightarrow>
          if cf_upload_key (nd_config n) = zero_key \<or>
            rq_upload rq \<noteq> '''' \<and> unmarshal_b32 zero_key (rq_upload rq) = Inr (cf_upload_key (nd_config n))
          then handle_key_put ev n (k, port, ip)
          else if rq_upload rq \<noteq> '''' \<and> (\<exists>e. unmarshal_b32 zero_key (rq_upload rq) = Inl e)
          then Some ((400, NoBody), n, [])
          else (case node_find_peers ev n k of
              None \<Rightarrow> None
            | Some (Inl _, n') \<Rightarrow> Some ((401, NoBody), n', [])
            | Some (Inr _, n') \<Rightarrow> handle_key_put ev n' (k, port, ip)))))"
  by (auto simp: serve_def serve_begin_def serve_end_def validate_upload_def node_find_peers_def Let_def map_option_case
      split: sum.split option.split prod.split)

lemma find_peers_stored:
  assumes "node_inv hi n" "env_ok ev" "node_find_peers ev n k = Some (r, n')"
  shows "node_inv hi n'" "nd_config n' = nd_config n" "nd_self n' = nd_self n"
proof -
  obtain v n1 where own: "own_peers ev n k = (v, n1)" by fastforce
  note S = keptD [OF kept_own [OF assms(1) own]]
  have "node_inv hi n' \<and> nd_config n' = nd_config n \<and> nd_self n' = nd_self n"
  proof (cases v)
    case (Some ps)
    then show ?thesis using assms(3) own S by (simp add: node_find_peers_def)
  next
    case None
    then obtain out where "take_outcome (ev_meanwhile ev n1) k out = (r, n')"
      using assms(3) own by (auto simp: node_find_peers_def)
    from keptD [OF kept_take [OF env_okD(5) [OF assms(2) S(1)] this]] show ?thesis
      using S env_okD(3,4) [OF assms(2)] by simp
  qed
  then show "node_inv hi n'" "nd_config n' = nd_config n" "nd_self n' = nd_self n" by simp_all
qed

end
