(* ===== verification/Node_Correct.thy ===== *)
theory Node_Correct
  imports Node
begin

subsection \<open>A sample node\<close>

definition sample_config :: node_config where
  "sample_config = default_node_config\<lparr>cf_k := 2, cf_id := parse_uint64 1, cf_swarm_key := parse_uint64 77,
     cf_upload_key := parse_uint64 88\<rparr>"

definition sample_node :: node where
  "sample_node = \<lparr>nd_config = sample_config, nd_self = sample_contact 1, nd_rt = sample_table,
     nd_peers = new_peer_store 10, nd_trie = new_trie\<rparr>"

text \<open>All contacts of the first round give the same answer, one after the other.\<close>

definition sample_events :: "answer \<Rightarrow> lookup \<Rightarrow> event list" where
  "sample_events a l = replicate (length (lk_todo l)) Launch @
     concat (map (\<lambda>c. Reply c a # (if a = Unreachable then [] else [Finish c False])) (lk_todo l)) @ [End_round]"

definition sample_env :: env where
  "sample_env = \<lparr>ev_now = 5, ev_clk = (\<lambda>_. 5), ev_peer_ord = rev, ev_bucket_ord = (\<lambda>_. rev), ev_ping = (\<lambda>_. True),
     ev_events = sample_events Unreachable, ev_meanwhile = (\<lambda>n. n), ev_store = (\<lambda>_ _ _. True)\<rparr>"

abbreviation answering :: "answer \<Rightarrow> env" where
  "answering a \<equiv> sample_env\<lparr>ev_events := sample_events a\<rparr>"

definition sample_request :: request where
  "sample_request = \<lparr>rq_key = marshal_b32 (parse_uint64 7), rq_port = Some 6000, rq_pair = None,
     rq_remote = ''10.1.2.3:4711'', rq_upload = '''', rq_swarm = marshal_b32 (parse_uint64 77),
     rq_src = Some (sample_contact 9)\<rparr>"

lemma sample_trie_total: "trie_total new_trie"
  by (auto simp: trie_total_def trie_match_def match_walk.simps bit_at_def child_def new_trie_def)

lemma sample_node_inv: "node_inv 15 sample_node"
  using sample_table_inv sample_trie_total
  by (simp add: node_inv_def sample_node_def sample_config_def) (simp add: sample_table_def)

lemma sample_env_ok: "env_ok sample_env" "env_ok (answering a)"
  by (simp_all add: env_ok_def sample_env_def)

lemma sample_ip: "parse_ip ''10.1.2.3:4711'' = Inr (Addr4 10 1 2 3)"
  by (simp add: parse_ip_def parse_v4_def parse_port_def is_digit_def digit_val_def Let_def)

lemma sample_match: "trie_match (nd_trie sample_node) (Addr4 10 1 2 3) = Some (0, False)"
  by code_simp

lemma sample_upload_key: "cf_upload_key (nd_config sample_node) = parse_uint64 88" "parse_uint64 88 \<noteq> zero_key"
  by (simp add: sample_node_def sample_config_def) code_simp

lemma sample_own_peers: "own_peers (answering a) sample_node k = (None, sample_node)"
  by (simp add: own_peers_def sample_env_def sample_node_def peer_store_get_def new_peer_store_def)

lemma sample_find_peers:
  "node_find_peers (answering a) sample_node k =
     map_option (take_outcome sample_node k) (node_lookup (answering a) sample_node FindPeersLookup k)"
  by (simp add: node_find_peers_def sample_own_peers) (simp add: sample_env_def)

lemma sample_unreachable: "node_lookup sample_env sample_node FindPeersLookup (parse_uint64 7) = Some (Failed AllContactsUnreachable)"
  by code_simp

lemma sample_env_unreachable: "answering Unreachable = sample_env"
  by (simp add: sample_env_def)

lemma sample_request_simps [simp]:
  "unmarshal_b32 zero_key (rq_key sample_request) = Inr (parse_uint64 7)" "rq_port sample_request = Some 6000"
  "parse_ip (rq_remote sample_request) = Inr (Addr4 10 1 2 3)" "rq_upload sample_request = ''''"
  by (simp_all add: sample_request_def unmarshal_marshal sample_ip)

subsection \<open>Requests\<close>

text \<open>
  No RPC without the swarm key. A request on an RPC route whose \<^verbatim>\<open>Inu-Swarm\<close> header is not
  a text of the node's swarm key gets a 400 or a 401 without a body, changes nothing and
  starts nothing; in particular its sender does not enter the routing table.
\<close>

theorem rpc_needs_swarm_key:
  assumes "r \<noteq> KeyGet" and "r \<noteq> KeyPut"
    and "unmarshal_b32 zero_key (rq_swarm rq) \<noteq> Inr (cf_swarm_key (nd_config n))"
  shows "\<exists>code \<in> {400, 401}. serve ev n r rq = Some ((code, NoBody), n, [])"
  using assms by (cases r) (auto simp: serve_def serve_begin_def auth_swarm_key_def split: sum.splits)

lemma rpc_needs_swarm_key_witness:
  "\<exists>code \<in> {400, 401}. serve sample_env sample_node RpcStore (sample_request\<lparr>rq_swarm := ''x''\<rparr>) =
     Some ((code, NoBody), sample_node, [])"
  by (rule rpc_needs_swarm_key) (simp_all add: unmarshal_b32_def)

lemma find_peers_config:
  assumes "env_ok ev" "node_find_peers ev n k = Some (r, n')"
  shows "nd_config n' = nd_config n"
proof -
  have "nd_config (snd (take_outcome m k out)) = nd_config m" for m out by (cases out) (simp_all add: take_outcome_def)
  moreover have "nd_config (snd (own_peers ev n k)) = nd_config n" by (simp add: own_peers_def split: sum.split prod.split)
  ultimately show ?thesis
    using assms(2) env_okD(3) [OF assms(1)]
    by (cases "own_peers ev n k"; cases "fst (own_peers ev n k)") (auto simp: node_find_peers_def, metis snd_conv)
qed

lemma key_put_result:
  assumes "handle_key_put ev n (k, port, ip) = Some (resp, n', ts)"
  obtains p found where "resp = (200, NoBody)" "ts = [StoreTask k [p]]" "peer_ip p = ip" "peer_port p = port"
    "peer_published p = ev_now ev" "trie_match (nd_trie n') ip = Some (peer_asn p, found)" "p \<in> store_peers (nd_peers n') k"
  using assms that by (fastforce simp: handle_key_put_def Let_def store_peers_put split: option.splits)

text \<open>
  C25: who may publish. A PUT is accepted exactly when the key, the port and the address of the
  request are valid and the node has no upload key, or the header holds it, or the header is missing
  or holds some other key and peers are found for the key, in the node's store or on the network. An
  accepted PUT stores one peer, with the address and port of the request and the AS number of the
  address, and starts its distribution; a refused one gets 400 or 401, starts nothing and leaves
  nothing but what the search for the key left.
\<close>

theorem put_authorised:
  assumes "serve ev n KeyPut rq = Some ((code, b), n', ts)"
  shows "(code = 200 \<longleftrightarrow> (\<exists>k port ip. unmarshal_b32 zero_key (rq_key rq) = Inr k \<and> rq_port rq = Some port \<and>
        parse_ip (rq_remote rq) = Inr ip \<and>
        (cf_upload_key (nd_config n) = zero_key \<or>
         rq_upload rq \<noteq> '''' \<and> unmarshal_b32 zero_key (rq_upload rq) = Inr (cf_upload_key (nd_config n)) \<or>
         (rq_upload rq = '''' \<or> (\<exists>uk. unmarshal_b32 zero_key (rq_upload rq) = Inr uk)) \<and>
         (\<exists>ps n1. node_find_peers ev n k = Some (Inr ps, n1))))) \<and>
     (code = 200 \<longrightarrow> (\<exists>k p found. unmarshal_b32 zero_key (rq_key rq) = Inr k \<and> ts = [StoreTask k [p]] \<and>
        parse_ip (rq_remote rq) = Inr (peer_ip p) \<and> rq_port rq = Some (peer_port p) \<and>
        peer_published p = ev_now ev \<and> trie_match (nd_trie n') (peer_ip p) = Some (peer_asn p, found) \<and>
        p \<in> store_peers (nd_peers n') k)) \<and>
     (code \<noteq> 200 \<longrightarrow> code \<in> {400, 401} \<and> b = NoBody \<and> ts = [] \<and>
        (n' = n \<or> (\<exists>k e. unmarshal_b32 zero_key (rq_key rq) = Inr k \<and> node_find_peers ev n k = Some (Inl e, n'))))"
proof -
  let ?valid = "\<lambda>k port ip. unmarshal_b32 zero_key (rq_key rq) = Inr k \<and> rq_port rq = Some port \<and> parse_ip (rq_remote rq) = Inr ip"
  let ?free = "cf_upload_key (nd_config n) = zero_key \<or>
      rq_upload rq \<noteq> '''' \<and> unmarshal_b32 zero_key (rq_upload rq) = Inr (cf_upload_key (nd_config n))"
  let ?bad = "rq_upload rq \<noteq> '''' \<and> (\<exists>e. unmarshal_b32 zero_key (rq_upload rq) = Inl e)"
  consider (invalid) "\<nexists>k port ip. ?valid k port ip" "(code, b) = (400, NoBody)" "n' = n" "ts = []"
    | (free) k port ip where "?valid k port ip" "?free" "handle_key_put ev n (k, port, ip) = Some ((code, b), n', ts)"
    | (bad) k port ip where "?valid k port ip" "\<not> ?free" "?bad" "(code, b) = (400, NoBody)" "n' = n" "ts = []"
    | (unknown) k port ip e where "?valid k port ip" "\<not> ?free" "\<not> ?bad" "node_find_peers ev n k = Some (Inl e, n')"
        "(code, b) = (401, NoBody)" "ts = []"
    | (known) k port ip ps n1 where "?valid k port ip" "\<not> ?free" "\<not> ?bad" "node_find_peers ev n k = Some (Inr ps, n1)"
        "handle_key_put ev n1 (k, port, ip) = Some ((code, b), n', ts)"
    using assms [unfolded serve_key_put]
    by (auto split: sum.splits option.splits if_splits prod.splits)
  then show ?thesis
  proof cases
    case free
    from key_put_result [OF free(3)] obtain p found where "code = 200" "ts = [StoreTask k [p]]" "peer_ip p = ip"
      "peer_port p = port" "peer_published p = ev_now ev" "trie_match (nd_trie n') ip = Some (peer_asn p, found)"
      "p \<in> store_peers (nd_peers n') k" by (metis prod.inject)
    then show ?thesis using free(1,2) by blast
  next
    case known
    have hdr: "rq_upload rq = '''' \<or> (\<exists>uk. unmarshal_b32 zero_key (rq_upload rq) = Inr uk)"
      using known(3) by (cases "unmarshal_b32 zero_key (rq_upload rq)") auto
    from key_put_result [OF known(5)] obtain p found where "code = 200" "ts = [StoreTask k [p]]" "peer_ip p = ip"
      "peer_port p = port" "peer_published p = ev_now ev" "trie_match (nd_trie n') ip = Some (peer_asn p, found)"
      "p \<in> store_peers (nd_peers n') k" by (metis prod.inject)
    then show ?thesis using known(1,4) hdr by blast
  qed (auto split: if_splits)
qed

lemma put_authorised_witness:
  "\<exists>b n' ts. serve sample_env sample_node KeyPut (sample_request\<lparr>rq_upload := marshal_b32 (parse_uint64 88)\<rparr>) =
       Some ((200, b), n', ts) \<and> ts \<noteq> [] \<and>
     serve sample_env sample_node KeyPut sample_request = Some ((401, NoBody), sample_node, [])"
proof -
  let ?ok = "sample_request\<lparr>rq_upload := marshal_b32 (parse_uint64 88)\<rparr>"
  have "node_find_peers sample_env sample_node (parse_uint64 7) = Some (Inl AllContactsUnreachable, sample_node)"
    using sample_find_peers [of Unreachable "parse_uint64 7"] sample_unreachable
    by (simp add: sample_env_unreachable take_outcome_def)
  then have no: "serve sample_env sample_node KeyPut sample_request = Some ((401, NoBody), sample_node, [])"
    using sample_upload_key by (simp add: serve_key_put)
  obtain p n' where yes: "serve sample_env sample_node KeyPut ?ok = Some ((200, NoBody), n', [StoreTask (parse_uint64 7) [p]])"
  proof -
    have "marshal_b32 (parse_uint64 88) \<noteq> []" using length_marshal_b32 [of "parse_uint64 88"] by auto
    then show thesis using that sample_upload_key
      by (simp add: serve_key_put handle_key_put_def sample_match Let_def unmarshal_marshal)
  qed
  show ?thesis using put_authorised [OF yes] no yes by blast
qed

text \<open>
  C26: peers of the requester's network first. When a GET of a key is answered with peers, they
  are, but for the cut to K, the peers found for the key: first all those whose AS number is the one
  of the requester's address, last found first, then the others in the order found. So a peer of
  another network is returned only if all peers of the same network are. The comparison that the
  handler sorts by is no order, and the stable sort of the library turns the first part around.
\<close>

theorem key_get_prefers_asn:
  assumes "env_ok ev" and "serve ev n KeyGet rq = Some ((200, PeersBody ps), n', ts)"
  shows "\<exists>k ip asn found qs. unmarshal_b32 zero_key (rq_key rq) = Inr k \<and> parse_ip (rq_remote rq) = Inr ip \<and>
     trie_match (nd_trie n) ip = Some (asn, found) \<and> node_find_peers ev n k = Some (Inr qs, n') \<and>
     ps = take (nat (cf_k (nd_config n)))
       (rev (filter (\<lambda>p. peer_asn p = asn) qs) @ filter (\<lambda>p. peer_asn p \<noteq> asn) qs) \<and>
     ((\<exists>p \<in> set ps. peer_asn p \<noteq> asn) \<longrightarrow> (\<forall>p \<in> set qs. peer_asn p = asn \<longrightarrow> p \<in> set ps))"
proof -
  obtain k ip asn found qs where h: "unmarshal_b32 zero_key (rq_key rq) = Inr k" "parse_ip (rq_remote rq) = Inr ip"
    "trie_match (nd_trie n) ip = Some (asn, found)" "node_find_peers ev n k = Some (Inr qs, n')"
    "peers_response n' asn qs = (200, PeersBody ps)"
  proof -
    obtain k where k: "unmarshal_b32 zero_key (rq_key rq) = Inr k" using assms(2) by (auto simp: serve_key_get split: sum.splits)
    obtain ip where ip: "parse_ip (rq_remote rq) = Inr ip" using assms(2) k by (auto simp: serve_key_get split: sum.splits)
    obtain asn found where m: "trie_match (nd_trie n) ip = Some (asn, found)"
      using assms(2) k ip by (auto simp: serve_key_get split: option.splits)
    obtain r where r: "node_find_peers ev n k = Some (r, n')" and
      resp: "(case r of Inl _ \<Rightarrow> (404, NoBody) | Inr p \<Rightarrow> peers_response n' asn p) = (200, PeersBody ps)"
      using assms(2) k ip m by (auto simp: serve_key_get)
    obtain qs where "r = Inr qs" using resp by (cases r) simp_all
    then show thesis using that k ip m r resp by simp
  qed
  have cmp: "(\<lambda>a b. asn_cmp asn a b < 0) = (\<lambda>a b. peer_asn a = asn)"
    by (auto simp: asn_cmp_def fun_eq_iff)
  let ?K = "nat (cf_k (nd_config n))" and ?M = "rev (filter (\<lambda>p. peer_asn p = asn) qs)"
  have ps: "ps = take ?K (?M @ filter (\<lambda>p. peer_asn p \<noteq> asn) qs)"
    using h(5) find_peers_config [OF assms(1) h(4)]
    unfolding peers_response_def Let_def cmp stable_sort_swept swept_def shrink_to by simp
  have "p \<in> set ps" if p: "p \<in> set qs" "peer_asn p = asn" and q: "q \<in> set ps" "peer_asn q \<noteq> asn" for p q
  proof -
    have "\<not> ?K \<le> length ?M" using q unfolding ps by (auto dest: in_set_takeD)
    then show ?thesis using p unfolding ps by auto
  qed
  then show ?thesis using h(1-4) ps by blast
qed

lemma key_get_prefers_asn_witness:
  "\<exists>ps n' ts. serve (answering (Peers [(sample_peer 1 0)\<lparr>peer_asn := 4\<rparr>, sample_peer 2 0])) sample_node KeyGet sample_request =
       Some ((200, PeersBody ps), n', ts) \<and> ps = [sample_peer 2 0, (sample_peer 1 0)\<lparr>peer_asn := 4\<rparr>]"
proof -
  let ?qs = "[(sample_peer 1 0)\<lparr>peer_asn := 4\<rparr>, sample_peer 2 0]"
  let ?ev = "answering (Peers ?qs)"
  have "node_lookup ?ev sample_node FindPeersLookup (parse_uint64 7) = Some (FoundPeers ?qs None)" by code_simp
  then have fp: "\<exists>n'. node_find_peers ?ev sample_node (parse_uint64 7) = Some (Inr ?qs, n')"
    by (simp add: sample_find_peers take_outcome_def)
  then obtain ps n' where get: "serve ?ev sample_node KeyGet sample_request = Some ((200, PeersBody ps), n', [])"
    by (auto simp: serve_key_get sample_match peers_response_def Let_def)
  have k: "cf_k (nd_config sample_node) = 2" by (simp add: sample_node_def sample_config_def)
  from key_get_prefers_asn [OF sample_env_ok(2) get] have "ps = [sample_peer 2 0, (sample_peer 1 0)\<lparr>peer_asn := 4\<rparr>]"
    using fp by (auto simp: sample_match sample_peer_def k)
  then show ?thesis using get by blast
qed

text \<open>
  A started node: the loop of \<^verbatim>\<open>parseNode\<close> has loaded the prefixes into the trie of a new node.
\<close>

definition start_node :: "int \<Rightarrow> node_config \<Rightarrow> (prefix \<times> int) list \<Rightarrow> node option" where
  "start_node now config es =
     Option.bind (new_node now config) (\<lambda>n.
     Option.bind (load_asns (nd_trie n) es) (\<lambda>r. case r of Inl _ \<Rightarrow> None | Inr t \<Rightarrow> Some (n\<lparr>nd_trie := t\<rparr>)))"

lemma loaded_trie_total:
  "load_asns new_trie es = Some (Inr t) \<Longrightarrow> \<forall>(p, asn) \<in> set es. prefix_bits p < 32 \<Longrightarrow> trie_total t"
  unfolding trie_total_def by (blast dest: trie_match_defined)

lemma match_total:
  assumes "node_inv hi n" and "parse_ip s = Inr ip"
  obtains asn found where "trie_match (nd_trie n) ip = Some (asn, found)"
proof -
  obtain a b c d where "ip = Addr4 a b c d" using parse_ip_v4 [OF assms(2)] by blast
  then have "trie_match (nd_trie n) ip \<noteq> None" using assms(1) by (simp add: node_inv_def trie_total_def)
  then show thesis using that by fastforce
qed

lemma run_task_inv:
  assumes "node_inv hi n" "env_ok ev" "\<forall>c. t = UpdateTask c \<longrightarrow> key_nat (contact_id c) \<le> hi"
    and "\<forall>k ps. t = StoreTask k ps \<longrightarrow> 1 \<le> cf_alpha (nd_config n) \<and> lookup_ends ev n FindNodeLookup k"
  shows "\<exists>n'. run_task ev n t = Some n' \<and> node_inv hi n'"
proof (cases t)
  case (UpdateTask c)
  then have "key_nat (contact_id c) \<le> hi" using assms(3) by simp
  from update_contact_inv [OF assms(1,2) this] show ?thesis using UpdateTask by (auto simp: run_task_def)
next
  case (StoreTask k ps)
  then obtain out where "node_lookup ev n FindNodeLookup k = Some out" using node_lookup_total [OF assms(1)] assms(4) by blast
  then obtain r where "node_find_node ev n k = Some r" by (simp add: node_find_node_def)
  then have "\<exists>e sent. node_store ev n k ps True = Some (e, sent, n)"
    by (cases r) (auto simp: node_store_def split: prod.split)
  then show ?thesis using StoreTask assms(1) by (auto simp: run_task_def)
qed

text \<open>
  What holds of every answer: the status, the body, that only the peer store may have changed, and
  the goroutines that were started.
\<close>

definition answers :: "nat \<Rightarrow> node \<Rightarrow> route \<Rightarrow> request \<Rightarrow> response \<Rightarrow> node \<Rightarrow> task list \<Rightarrow> bool" where
  "answers hi n r rq resp n' ts \<longleftrightarrow> fst resp \<in> {200, 400, 401, 404} \<and> (snd resp \<noteq> NoBody \<longrightarrow> fst resp = 200) \<and>
     stored hi n n' \<and>
     (\<forall>t \<in> set ts. (case t of UpdateTask c \<Rightarrow> rq_src rq = Some c | StoreTask k ps \<Rightarrow> r = KeyPut \<and> fst resp = 200))"

text \<open>A handler that is suspended can go on.\<close>

definition resumable :: "route \<Rightarrow> suspended \<Rightarrow> bool" where
  "resumable r w \<longleftrightarrow>
     (case w of GetWaits k asn \<Rightarrow> r = KeyGet
      | PutWaits k port ip \<Rightarrow> r = KeyPut \<and> (\<exists>a b c d. ip = Addr4 a b c d))"

lemma key_put_total:
  assumes "node_inv hi n" and "\<exists>a b c d. ip = Addr4 a b c d"
  shows "\<exists>n' p. handle_key_put ev n (k, port, ip) = Some ((200, NoBody), n', [StoreTask k [p]]) \<and> stored hi n n'"
proof -
  obtain asn found where "trie_match (nd_trie n) ip = Some (asn, found)"
    using assms by (fastforce simp: node_inv_def trie_total_def)
  then show ?thesis using kept_put [OF assms(1)] by (simp add: handle_key_put_def Let_def)
qed

lemma key_get_begin:
  assumes "node_inv hi n"
  shows "\<exists>x n'. serve_begin ev n KeyGet rq = Some (x, n') \<and>
    (case x of Inl (resp, ts) \<Rightarrow> answers hi n KeyGet rq resp n' ts | Inr w \<Rightarrow> stored hi n n' \<and> resumable KeyGet w)"
proof (cases "unmarshal_b32 zero_key (rq_key rq)")
  case (Inl e)
  then show ?thesis using kept_refl [OF assms] by (simp add: serve_begin_def handle_key_get_def answers_def)
next
  case k: (Inr k)
  show ?thesis
  proof (cases "parse_ip (rq_remote rq)")
    case (Inl e)
    then show ?thesis using kept_refl [OF assms] k by (simp add: serve_begin_def handle_key_get_def answers_def)
  next
    case (Inr ip)
    obtain asn found where m: "trie_match (nd_trie n) ip = Some (asn, found)" by (rule match_total [OF assms Inr])
    obtain g n' where g: "own_peers ev n k = (g, n')" by fastforce
    show ?thesis using kept_own [OF assms g]
      by (cases g) (simp_all add: serve_begin_def handle_key_get_def k Inr m g answers_def peers_response_def Let_def resumable_def)
  qed
qed

lemma validate_upload_answers:
  assumes "node_inv hi n" and "validate_upload ev n rq = (v, n')"
  shows "stored hi n n'"
    and "v = Refused resp \<Longrightarrow> resp = (400, NoBody)"
    and "v = Accepted k port ip \<or> v = Searching k port ip \<Longrightarrow> \<exists>a b c d. ip = Addr4 a b c d"
  using assms kept_refl [OF assms(1)] unfolding validate_upload_def Let_def
  by (auto dest: kept_own parse_ip_v4 split: sum.splits option.splits prod.splits if_splits)

lemma key_put_begin:
  assumes "node_inv hi n"
  shows "\<exists>x n'. serve_begin ev n KeyPut rq = Some (x, n') \<and>
    (case x of Inl (resp, ts) \<Rightarrow> answers hi n KeyPut rq resp n' ts | Inr w \<Rightarrow> stored hi n n' \<and> resumable KeyPut w)"
proof -
  obtain v n1 where v: "validate_upload ev n rq = (v, n1)" by fastforce
  note V = validate_upload_answers [OF assms v]
  show ?thesis
  proof (cases v)
    case (Refused resp)
    then show ?thesis using v V(1) V(2) [OF Refused] by (simp add: serve_begin_def answers_def)
  next
    case (Accepted k port ip)
    obtain n' p where p: "handle_key_put ev n1 (k, port, ip) = Some ((200, NoBody), n', [StoreTask k [p]])" "stored hi n1 n'"
      using key_put_total [OF keptD(1) [OF V(1)]] V(3) Accepted by blast
    moreover have "stored hi n n'" by (rule kept_trans [OF V(1) p(2)])
    ultimately show ?thesis using v Accepted by (simp add: serve_begin_def answers_def)
  next
    case (Searching k port ip)
    then show ?thesis using v V(1,3) by (simp add: serve_begin_def resumable_def)
  qed
qed

lemma rpc_begin:
  assumes "node_inv hi n" and "r \<noteq> KeyGet" and "r \<noteq> KeyPut"
  shows "\<exists>resp ts n'. serve_begin ev n r rq = Some (Inl (resp, ts), n') \<and> answers hi n r rq resp n' ts"
proof (cases "auth_swarm_key n rq")
  case (Some resp)
  then have "resp = (400, NoBody) \<or> resp = (401, NoBody)"
    by (auto simp: auth_swarm_key_def split: sum.splits if_splits)
  then show ?thesis using assms kept_refl Some by (cases r) (auto simp: serve_begin_def answers_def)
next
  case auth: None
  show ?thesis
  proof (cases "rq_src rq")
    case None
    then show ?thesis using assms kept_refl auth by (cases r) (simp_all add: serve_begin_def parse_src_def answers_def)
  next
    case (Some src)
    note S = serve_begin_def parse_src_def auth Some answers_def
    show ?thesis
    proof (cases r)
      case RpcPing
      then show ?thesis using kept_refl [OF assms(1)] by (simp add: S handle_ping_def)
    next
      case RpcStore
      then show ?thesis using kept_refl [OF assms(1)] kept_put [OF assms(1)]
        by (cases "rq_pair rq") (auto simp: S handle_store_def)
    next
      case RpcFindNode
      then show ?thesis using kept_refl [OF assms(1)]
        by (cases "unmarshal_b32 zero_key (rq_key rq)") (simp_all add: S handle_find_node_def)
    next
      case RpcFindPeers
      show ?thesis
      proof (cases "unmarshal_b32 zero_key (rq_key rq)")
        case (Inl e)
        then show ?thesis using kept_refl [OF assms(1)] RpcFindPeers by (simp add: S handle_find_peers_def)
      next
        case (Inr k)
        obtain g s where g: "peer_store_get (ev_clk ev) (ev_peer_ord ev) (nd_peers n) k = (g, s)" by fastforce
        then have "stored hi n (n\<lparr>nd_peers := s\<rparr>)" using get_inv [OF assms(1) g] by (simp add: stored_def)
        then show ?thesis using RpcFindPeers Inr g by (cases g) (simp_all add: S handle_find_peers_def)
      qed
    qed (use assms in simp_all)
  qed
qed

lemma serve_begin_answers:
  assumes "node_inv hi n"
  obtains x n' where "serve_begin ev n r rq = Some (x, n')"
    "case x of Inl (resp, ts) \<Rightarrow> answers hi n r rq resp n' ts | Inr w \<Rightarrow> stored hi n n' \<and> resumable r w"
  using key_get_begin [OF assms, of ev rq] key_put_begin [OF assms, of ev rq] rpc_begin [OF assms, of r ev rq] that
  by (cases "r = KeyGet"; cases "r = KeyPut") fastforce+

lemma serve_end_answers:
  assumes "node_inv hi n" and "resumable r w"
  shows "\<exists>resp n' ts. serve_end ev n w out = Some (resp, n', ts) \<and> answers hi n r rq resp n' ts"
proof -
  obtain g n1 where g: "take_outcome n (suspended_key w) out = (g, n1)" by fastforce
  note S = kept_take [OF assms(1) g]
  show ?thesis
  proof (cases w)
    case (GetWaits k asn)
    then show ?thesis using g S assms(2)
      by (cases g) (auto simp: serve_end_def resume_key_get_def answers_def resumable_def peers_response_def Let_def)
  next
    case (PutWaits k port ip)
    then have ip: "r = KeyPut" "\<exists>a b c d. ip = Addr4 a b c d" using assms(2) by (simp_all add: resumable_def)
    show ?thesis
    proof (cases g)
      case (Inl e)
      then show ?thesis using PutWaits g S by (simp add: serve_end_def answers_def)
    next
      case (Inr ps)
      obtain n' p where p: "handle_key_put ev n1 (k, port, ip) = Some ((200, NoBody), n', [StoreTask k [p]])" "stored hi n1 n'"
        using key_put_total [OF keptD(1) [OF S] ip(2)] by blast
      then have "stored hi n n'" using kept_trans [OF S] by blast
      then show ?thesis using PutWaits g Inr p(1) ip(1) by (simp add: serve_end_def answers_def)
    qed
  qed
qed

text \<open>
  C14: the node keeps its invariant. If no prefix of 32 bits was loaded and the configured alpha is at
  least 1, then no request makes the node panic: not before its handler answers or waits for a
  lookup, not in the lookup, and not when the handler goes on with any outcome, whatever has
  happened to the node in between. The answer has one of four status codes and a body only with 200;
  nothing but the peer store has changed, and the invariant holds. The goroutines a request
  starts are an update with the contact it names as its source or the distribution of an accepted
  PUT; an update runs to its end if the contact's key has a bucket, a distribution if its lookup
  ends, and both keep the invariant.
\<close>

theorem serve_keeps_node:
  assumes "node_inv hi n" and "1 \<le> cf_alpha (nd_config n)"
  shows "(\<exists>x n'. serve_begin ev n r rq = Some (x, n') \<and>
      (case x of
         Inl (resp, ts) \<Rightarrow> answers hi n r rq resp n' ts
       | Inr w \<Rightarrow> stored hi n n' \<and>
           (\<exists>st. start_lookup ev n' FindPeersLookup (suspended_key w) = Some st \<and>
              (\<forall>evs l. lookup_run st evs = Some (Running l) \<longrightarrow> end_round l \<noteq> None)) \<and>
           (\<forall>ev2 n2 out. node_inv hi n2 \<longrightarrow>
              (\<exists>resp n3 ts. serve_end ev2 n2 w out = Some (resp, n3, ts) \<and> answers hi n2 r rq resp n3 ts)))) \<and>
    (\<forall>ev2 n2 t. node_inv hi n2 \<and> env_ok ev2 \<and> (\<forall>c. t = UpdateTask c \<longrightarrow> key_nat (contact_id c) \<le> hi) \<and>
       (\<forall>k ps. t = StoreTask k ps \<longrightarrow> 1 \<le> cf_alpha (nd_config n2) \<and> lookup_ends ev2 n2 FindNodeLookup k) \<longrightarrow>
       (\<exists>n3. run_task ev2 n2 t = Some n3 \<and> node_inv hi n3))"
proof -
  obtain x n' where x: "serve_begin ev n r rq = Some (x, n')"
    "case x of Inl (resp, ts) \<Rightarrow> answers hi n r rq resp n' ts | Inr w \<Rightarrow> stored hi n n' \<and> resumable r w"
    by (rule serve_begin_answers [OF assms(1), of ev r rq])
  have "stored hi n n' \<and> (\<exists>st. start_lookup ev n' FindPeersLookup (suspended_key w) = Some st) \<and>
      (\<forall>ev2 n2 out. node_inv hi n2 \<longrightarrow>
        (\<exists>resp n3 ts. serve_end ev2 n2 w out = Some (resp, n3, ts) \<and> answers hi n2 r rq resp n3 ts))" if "x = Inr w" for w
    using x(2) that serve_end_answers start_lookup_total [of hi n' ev] keptD(1,3) [of hi n n'] assms(2) by fastforce
  moreover have "(case x of Inl (resp, ts) \<Rightarrow> answers hi n r rq resp n' ts | Inr w \<Rightarrow> True)"
    using x(2) by (cases x) simp_all
  ultimately have "case x of
         Inl (resp, ts) \<Rightarrow> answers hi n r rq resp n' ts
       | Inr w \<Rightarrow> stored hi n n' \<and>
           (\<exists>st. start_lookup ev n' FindPeersLookup (suspended_key w) = Some st \<and>
              (\<forall>evs l. lookup_run st evs = Some (Running l) \<longrightarrow> end_round l \<noteq> None)) \<and>
           (\<forall>ev2 n2 out. node_inv hi n2 \<longrightarrow>
              (\<exists>resp n3 ts. serve_end ev2 n2 w out = Some (resp, n3, ts) \<and> answers hi n2 r rq resp n3 ts))"
    using end_round_no_panic by (cases x) simp_all
  then show ?thesis using x(1) run_task_inv by blast
qed

lemma serve_keeps_node_witness:
  "(\<exists>resp n' ts. serve_begin sample_env sample_node RpcFindNode sample_request = Some (Inl (resp, ts), n') \<and>
      fst resp \<in> {200, 400, 401, 404} \<and> node_inv 15 n') \<and>
   (\<exists>w. serve_begin sample_env sample_node KeyGet sample_request = Some (Inr w, sample_node) \<and>
      (\<exists>resp n3 ts. serve_end sample_env sample_node w (FoundPeers [] None) = Some (resp, n3, ts) \<and> node_inv 15 n3))"
proof -
  have alpha: "1 \<le> cf_alpha (nd_config sample_node)" by (simp add: sample_node_def sample_config_def default_node_config_def)
  note keeps = serve_keeps_node [OF sample_node_inv alpha, of sample_env _ sample_request, THEN conjunct1]
  obtain resp ts n' where "serve_begin sample_env sample_node RpcFindNode sample_request = Some (Inl (resp, ts), n')"
    using rpc_begin [OF sample_node_inv, of RpcFindNode sample_env sample_request] by auto
  moreover from this keeps [of RpcFindNode] have "fst resp \<in> {200, 400, 401, 404} \<and> node_inv 15 n'"
    by (auto simp: answers_def stored_def)
  moreover have get: "serve_begin sample_env sample_node KeyGet sample_request = Some (Inr (GetWaits (parse_uint64 7) 0), sample_node)"
    using sample_own_peers [of Unreachable] by (simp add: serve_begin_def handle_key_get_def sample_match sample_env_unreachable)
  moreover from get keeps [of KeyGet] have
    "\<exists>resp n3 ts. serve_end sample_env sample_node (GetWaits (parse_uint64 7) 0) (FoundPeers [] None) = Some (resp, n3, ts) \<and> node_inv 15 n3"
    using sample_node_inv by (fastforce simp: answers_def stored_def)
  ultimately show ?thesis by blast
qed

text \<open>
  With an alpha below 1, which the configuration accepts, a lookup panics as soon as the routing table
  has a contact for it, and with it a GET of a key that the node's own store does not have.
\<close>

theorem lookup_needs_alpha:
  assumes "cf_alpha (nd_config n) \<le> 0" and "find_closest (ev_bucket_ord ev) (nd_rt n) k (contact_id (nd_self n)) \<noteq> []"
  shows "start_lookup ev n lk k = None \<and>
    (unmarshal_b32 zero_key (rq_key rq) = Inr k \<and> parse_ip (rq_remote rq) = Inr ip \<and> own_peers ev n k = (None, n1) \<longrightarrow>
       serve ev n KeyGet rq = None)"
proof -
  have "cf_alpha (nd_config n) < int (length (find_closest (ev_bucket_ord ev) (nd_rt n) k (contact_id (nd_self n))))"
    using assms by (intro order.strict_trans1 [OF assms(1)]) simp
  then have start: "start_lookup ev n lk k = None" for lk
    using assms by (auto simp: start_lookup_def lookup_start_def Let_def sl_insert_list new_shortlist_def split: list.split)
  have "node_lookup ev n lk k = None" for lk by (simp add: node_lookup_def start)
  moreover have "\<exists>s. n1 = n\<lparr>nd_peers := s\<rparr>" if "own_peers ev n k = (None, n1)"
    using that by (auto simp: own_peers_def split: sum.splits prod.splits)
  ultimately show ?thesis
    using start by (auto simp: serve_key_get node_find_peers_def split: sum.split option.split)
qed

lemma lookup_needs_alpha_witness:
  "serve sample_env (sample_node\<lparr>nd_config := sample_config\<lparr>cf_alpha := 0\<rparr>\<rparr>) KeyGet sample_request = None"
proof -
  let ?n = "sample_node\<lparr>nd_config := sample_config\<lparr>cf_alpha := 0\<rparr>\<rparr>"
  have "find_closest (ev_bucket_ord sample_env) (nd_rt ?n) (parse_uint64 7) (contact_id (nd_self ?n)) \<noteq> []" by code_simp
  moreover have "own_peers sample_env ?n (parse_uint64 7) = (None, ?n)"
    by (simp add: own_peers_def sample_env_def sample_node_def peer_store_get_def new_peer_store_def)
  ultimately have "find_closest (ev_bucket_ord sample_env) (nd_rt ?n) (parse_uint64 7) (contact_id (nd_self ?n)) \<noteq> []"
    "own_peers sample_env ?n (parse_uint64 7) = (None, ?n)"
    by simp_all
  then show ?thesis
    using lookup_needs_alpha [of ?n sample_env "parse_uint64 7" FindPeersLookup sample_request "Addr4 10 1 2 3" ?n]
    by (simp add: sample_config_def)
qed

lemma started_node:
  assumes "1 \<le> cf_k config" and "cf_k config \<le> 32" and "load_asns new_trie es = Some (Inr t)"
    and "\<forall>(p, asn) \<in> set es. prefix_bits p < 32"
  shows "\<exists>n. start_node now config es = Some n \<and>
     node_inv ((256 ^ nat (cf_k config) - 1) * 256 ^ (32 - nat (cf_k config))) n \<and>
     nd_config n = config \<and> nd_trie n = t \<and> table_contacts (nd_rt n) = [] \<and>
     (\<forall>k. store_peers (nd_peers n) k = {}) \<and> contact_id (nd_self n) = cf_id config \<and>
     contact_address (nd_self n) = (if cf_alt_host config = '''' then cf_host config else cf_alt_host config) @
        '':'' @ show_nat (unat (cf_port config))"
proof -
  obtain n where n: "new_node now config = Some n" "nd_config n = config" "nd_trie n = new_trie" "contact_id (nd_self n) = cf_id config"
    "nd_peers n = new_peer_store (cf_expiry config)"
    "new_routing_table now (nd_self n) (cf_k config) = Some (nd_rt n)"
    "contact_address (nd_self n) = (if cf_alt_host config = '''' then cf_host config else cf_alt_host config) @
        '':'' @ show_nat (unat (cf_port config))"
  proof -
    let ?self = "\<lparr>contact_id = cf_id config, contact_address =
      host_port (if cf_alt_host config \<noteq> '''' then cf_alt_host config else cf_host config) (cf_port config)\<rparr>"
    obtain rt where "new_routing_table now ?self (cf_k config) = Some rt"
      using new_routing_table_inv [OF assms(1,2), of now ?self] by blast
    then show thesis by (intro that [of "\<lparr>nd_config = config, nd_self = ?self, nd_rt = rt,
             nd_peers = new_peer_store (cf_expiry config), nd_trie = new_trie\<rparr>"])
        (auto simp: new_node_def Let_def host_port_def)
  qed
  obtain rt where rt: "new_routing_table now (nd_self n) (cf_k config) = Some rt"
    "table_inv (key_nat (top_key (cf_k config))) rt" "rt_k rt = cf_k config" "table_contacts rt = []"
    using new_routing_table_inv [OF assms(1,2), of now "nd_self n"] by blast
  have "key_nat (top_key (cf_k config)) = (256 ^ nat (cf_k config) - 1) * 256 ^ (32 - nat (cf_k config))"
    using assms(1,2) by (intro key_nat_top_key) auto
  moreover have "trie_total t" by (rule loaded_trie_total [OF assms(3,4)])
  ultimately show ?thesis
    using n rt assms(3) by (simp add: start_node_def node_inv_def)
qed

text \<open>
  A started node satisfies its invariant. With a K from 1 to 32 and prefixes that are IPv4 and
  shorter than 32 bits, the node exists and satisfies its invariant for the keys up to a bound that
  depends on K, with an empty routing table and an empty store.
\<close>

theorem start_node_inv:
  assumes "1 \<le> cf_k config" and "cf_k config \<le> 32" and "load_asns new_trie es = Some (Inr t)"
    and "\<forall>(p, asn) \<in> set es. prefix_bits p < 32"
  shows "\<exists>n. start_node now config es = Some n \<and>
     node_inv ((256 ^ nat (cf_k config) - 1) * 256 ^ (32 - nat (cf_k config))) n \<and>
     nd_config n = config \<and> nd_trie n = t \<and> table_contacts (nd_rt n) = [] \<and>
     (\<forall>k. store_peers (nd_peers n) k = {}) \<and> contact_id (nd_self n) = cf_id config \<and>
     contact_address (nd_self n) = (if cf_alt_host config = '''' then cf_host config else cf_alt_host config) @
        '':'' @ show_nat (unat (cf_port config))"
  by (rule started_node [OF assms])

lemma start_node_inv_witness:
  "\<exists>n. start_node 0 default_node_config [(\<lparr>prefix_addr = Addr4 10 0 0 0, prefix_bits = 8\<rparr>, 7)] = Some n \<and>
     table_contacts (nd_rt n) = [] \<and> contact_address (nd_self n) = ''0.0.0.0:3000''"
proof -
  let ?es = "[(\<lparr>prefix_addr = Addr4 10 0 0 0, prefix_bits = 8\<rparr>, 7)]"
  obtain t where t: "load_asns new_trie ?es = Some (Inr t)"
    using load_asns_total [of ?es new_trie] by auto
  have "show_nat 3000 = ''3000''" by (simp add: show_nat.simps digit_def char_of_def bit_iff_odd)
  then show ?thesis
    using start_node_inv [of default_node_config ?es t 0, OF _ _ t]
    by (auto simp: default_node_config_def)
qed

text \<open>
  The address a server reports is read back: \<^verbatim>\<open>parseIP\<close> accepts every IPv4 address as
  it is printed, alone or followed by a port, and returns that address.
\<close>

theorem parse_ip_roundtrip:
  "parse_ip (show_v4 a b c d) = Inr (Addr4 a b c d) \<and>
   parse_ip (host_port (show_v4 a b c d) port) = Inr (Addr4 a b c d)"
proof -
  have "CHR '':'' \<notin> set (show_nat (unat port))" using show_nat_digits [of "unat port"] by auto
  then have "split_last_colon (host_port (show_v4 a b c d) port) = Some (show_v4 a b c d, show_nat (unat port))"
    unfolding host_port_def by (simp add: split_last_colon_append)
  moreover have "parse_v4 (host_port (show_v4 a b c d) port) = None"
    by (simp add: parse_v4_def host_port_def v4_loop_colon)
  ultimately show ?thesis by (simp add: parse_ip_def parse_v4_show parse_port_show)
qed

text \<open>
  A search for peers. If the node's own store has live peers for the key, exactly these
  are returned, whatever the network would say. Otherwise the lookup decides: peers found
  on the network are returned as they are and are then among the peers stored for the
  key; a lookup that fails or finds none yields an error.
\<close>

theorem find_peers_branches:
  assumes "store_inv (nd_peers n)" and "iteration_order (ev_peer_ord ev)"
    and "node_find_peers ev n k = Some (r, n')"
  shows "(live_peers (ev_clk ev) (nd_peers n) k \<noteq> {} \<longrightarrow>
        (\<exists>ps. r = Inr ps \<and> set ps = live_peers (ev_clk ev) (nd_peers n) k \<and> distinct ps) \<and>
        store_peers (nd_peers n') k = live_peers (ev_clk ev) (nd_peers n) k) \<and>
     (live_peers (ev_clk ev) (nd_peers n) k = {} \<longrightarrow>
        (\<exists>out. node_lookup ev n FindPeersLookup k = Some out \<and>
           (case out of
              FoundPeers ps _ \<Rightarrow> r = Inr ps \<and> set ps \<subseteq> store_peers (nd_peers n') k
            | NotFound _ \<Rightarrow> r = Inl PeersNotFound
            | Failed e \<Rightarrow> r = Inl e)))"
proof -
  obtain g s where g: "peer_store_get (ev_clk ev) (ev_peer_ord ev) (nd_peers n) k = (g, s)" by fastforce
  note F = get_frame [OF assms(2,1) g]
  show ?thesis
  proof (cases g)
    case (Inr ps)
    then show ?thesis using assms(3) g F(1) F(3) [OF Inr] by (auto simp: node_find_peers_def own_peers_def)
  next
    case (Inl e)
    then have empty: "live_peers (ev_clk ev) (nd_peers n) k = {}" by (rule F(4))
    obtain out where "node_lookup ev n FindPeersLookup k = Some out"
      "take_outcome (ev_meanwhile ev (n\<lparr>nd_peers := s\<rparr>)) k out = (r, n')"
      using assms(3) g Inl by (auto simp: node_find_peers_def own_peers_def)
    then show ?thesis using empty by (cases out) (auto simp: take_outcome_def store_peers_put)
  qed
qed

lemma find_peers_branches_witness:
  "\<exists>n'. node_find_peers (answering (Peers [sample_peer 1 0])) sample_node (parse_uint64 7) = Some (Inr [sample_peer 1 0], n') \<and>
   sample_peer 1 0 \<in> store_peers (nd_peers n') (parse_uint64 7)"
proof -
  let ?ev = "answering (Peers [sample_peer 1 0])"
  have l: "node_lookup ?ev sample_node FindPeersLookup (parse_uint64 7) = Some (FoundPeers [sample_peer 1 0] None)" by code_simp
  then obtain n' where f: "node_find_peers ?ev sample_node (parse_uint64 7) = Some (Inr [sample_peer 1 0], n')"
    by (simp add: sample_find_peers take_outcome_def)
  have "live_peers (ev_clk ?ev) (nd_peers sample_node) (parse_uint64 7) = {}"
    by (simp add: sample_node_def live_peers_def)
  moreover have "store_inv (nd_peers sample_node)" "iteration_order (ev_peer_ord ?ev)"
    by (simp_all add: sample_node_def sample_env_def)
  ultimately show ?thesis
    using find_peers_branches [OF _ _ f] f l by auto
qed

lemma send_stores_spec:
  "send_stores accepts cs = (sent, err) \<Longrightarrow>
   (\<exists>rest. cs = sent @ rest \<and>
     (if \<forall>c \<in> set cs. accepts c then err = None \<and> rest = []
      else err = Some RpcFailed \<and> sent \<noteq> [] \<and> \<not> accepts (last sent) \<and> (\<forall>c \<in> set (butlast sent). accepts c)))"
  by (induction cs arbitrary: sent) (auto split: if_splits prod.splits)

text \<open>
  A pair is sent until a node refuses it. The pair goes to the nodes found for the key,
  closest first, up to and including the first one that does not accept it; \<^verbatim>\<open>Store\<close>
  returns no error exactly when there is no such node. With a failing lookup nothing is
  sent. The node's own store gets the pair, error or not, unless only the network was
  meant.
\<close>

theorem store_until_refused:
  assumes "node_store ev n k ps network_only = Some (err, sent, n')"
  shows "n' = (if network_only then n else n\<lparr>nd_peers := peer_store_put (nd_peers n) k ps\<rparr>) \<and>
     (\<exists>r. node_find_node ev n k = Some r \<and>
     (case r of
        Inl e \<Rightarrow> err = Some e \<and> sent = []
      | Inr cs \<Rightarrow> (\<exists>rest. cs = sent @ rest \<and>
          (if \<forall>c \<in> set cs. ev_store ev c k ps then err = None \<and> rest = []
           else err = Some RpcFailed \<and> sent \<noteq> [] \<and> \<not> ev_store ev (last sent) k ps \<and>
             (\<forall>c \<in> set (butlast sent). ev_store ev c k ps)))))"
proof -
  let ?n = "if network_only then n else n\<lparr>nd_peers := peer_store_put (nd_peers n) k ps\<rparr>"
  have same: "node_find_node ev ?n k = node_find_node ev n k" by (simp add: node_find_node_def)
  obtain r where r: "node_find_node ev n k = Some r"
    using assms same by (auto simp: node_store_def Let_def split: option.splits if_splits)
  show ?thesis
  proof (cases r)
    case (Inl e)
    then show ?thesis using assms same r by (auto simp: node_store_def Let_def split: if_splits)
  next
    case (Inr cs)
    obtain sent' err' where s: "send_stores (\<lambda>c. ev_store ev c k ps) cs = (sent', err')" by fastforce
    have eq: "err = err'" "sent = sent'" "n' = ?n"
      using assms same r Inr s by (auto simp: node_store_def Let_def split: if_splits)
    from send_stores_spec [OF s] have "case r of Inl e \<Rightarrow> err = Some e \<and> sent = []
      | Inr cs \<Rightarrow> (\<exists>rest. cs = sent @ rest \<and>
          (if \<forall>c \<in> set cs. ev_store ev c k ps then err = None \<and> rest = []
           else err = Some RpcFailed \<and> sent \<noteq> [] \<and> \<not> ev_store ev (last sent) k ps \<and>
             (\<forall>c \<in> set (butlast sent). ev_store ev c k ps)))"
      unfolding Inr eq(1,2) sum.case .
    then show ?thesis using eq(3) r by blast
  qed
qed

lemma store_until_refused_witness:
  "\<exists>n'. node_store ((answering (Nodes []))\<lparr>ev_store := \<lambda>c _ _. c \<noteq> sample_contact 6\<rparr>) sample_node (parse_uint64 7) [] True =
     Some (Some RpcFailed, [sample_contact 6], n') \<and> n' = sample_node"
proof -
  let ?ev = "(answering (Nodes []))\<lparr>ev_store := \<lambda>c _ _. c \<noteq> sample_contact 6\<rparr>"
  have "node_find_node ?ev sample_node (parse_uint64 7) = Some (Inr (map sample_contact [6, 5]))" by code_simp
  then have s: "node_store ?ev sample_node (parse_uint64 7) [] True = Some (Some RpcFailed, [sample_contact 6], sample_node)"
    by (simp add: node_store_def)
  then show ?thesis using store_until_refused [OF s] by simp
qed

subsection \<open>Republishing\<close>

text \<open>Whatever is answered, a lookup keeps its list sorted by the distance to its target and within K.\<close>

definition ranked :: "key \<Rightarrow> nat \<Rightarrow> shortlist \<Rightarrow> bool" where
  "ranked k K s \<longleftrightarrow> sl_target s = k \<and> sl_k s = K \<and> by_dist k (sl_list s) \<and> length (sl_list s) \<le> K"

lemma ranked_insert: "ranked k K s \<Longrightarrow> ranked k K (sl_insert cs s)"
  unfolding ranked_def sl_insert_list by (auto intro: sorted_map_take fold_insert_sorted)

lemma ranked_remove: "ranked k K s \<Longrightarrow> ranked k K (sl_remove [c] s)"
proof -
  have "length (remove_contact t c l) \<le> length l" for t l by (simp add: remove_contact_def Let_def)
  then show "ranked k K s \<Longrightarrow> ranked k K (sl_remove [c] s)"
    by (auto simp: ranked_def sl_remove_def remove_contact_sorted intro: order_trans)
qed

lemma ranked_frame [simp]:
  "ranked k K (s\<lparr>sl_contacted := x\<rparr>) = ranked k K s" "ranked k K (s\<lparr>sl_has_peers := x\<rparr>) = ranked k K s"
  by (simp_all add: ranked_def)

lemma ranked_start:
  assumes "lookup_start lk alpha K k initial = Some (Running l)"
  shows "ranked k K (lk_closest l)"
proof -
  have "ranked k K (new_shortlist k K)" by (simp add: ranked_def new_shortlist_def)
  then have "ranked k K (sl_insert cs (new_shortlist k K))" for cs by (rule ranked_insert)
  then show ?thesis
    using assms by (auto simp: lookup_start_def Let_def begin_round_def split: if_splits list.splits)
qed

lemma ranked_step:
  assumes "lookup_step l e = Some (Running l')" and "ranked k K (lk_closest l)"
  shows "ranked k K (lk_closest l')"
proof (cases e)
  case Launch
  then show ?thesis using assms by (auto simp: sl_set_contacted_eq split: list.splits)
next
  case (Reply c a)
  then show ?thesis using assms ranked_remove ranked_insert
    by (cases a) (auto simp: sl_set_has_peers_eq split: if_splits)
next
  case (Finish c late)
  then show ?thesis using assms ranked_insert by (auto split: if_splits)
next
  case End_round
  then show ?thesis using assms by (auto simp: end_round_def begin_round_def split: if_splits option.splits)
qed

lemma find_node_ranked:
  assumes "node_find_node ev n k = Some (Inr cs)"
  shows "cs \<noteq> [] \<and> by_dist k cs \<and> length cs \<le> nat (cf_k (nd_config n))"
proof -
  have "node_lookup ev n FindNodeLookup k = Some (NotFound cs)"
  proof -
    obtain out where out: "node_lookup ev n FindNodeLookup k = Some out"
      "(case out of Failed e \<Rightarrow> Inl e | FoundPeers _ _ \<Rightarrow> Inl NodeWithKeyNotFound | NotFound cs \<Rightarrow> Inr cs) = Inr cs"
      using assms by (auto simp: node_find_node_def)
    then show ?thesis by (cases out) simp_all
  qed
  then obtain st where st: "start_lookup ev n FindNodeLookup k = Some st" and
    run: "st = Returned (NotFound cs) \<or> (\<exists>l. st = Running l \<and> lookup_run (Running l) (ev_events ev l) = Some (Returned (NotFound cs)))"
    by (auto simp: node_lookup_def split: option.splits status.splits)
  have "st \<noteq> Returned (NotFound cs)"
    using st by (auto simp: start_lookup_def lookup_start_def Let_def split: if_splits list.splits)
  then obtain l where l: "st = Running l" "lookup_run (Running l) (ev_events ev l) = Some (Returned (NotFound cs))"
    using run by blast
  obtain evs l' where l': "lookup_run (Running l) evs = Some (Running l')" "end_round l' = Some (Returned (NotFound cs))"
    by (rule lookup_run_Returned [OF l(2)])
  have start: "ranked k (nat (cf_k (nd_config n))) (lk_closest l)"
    using ranked_start st unfolding l(1) start_lookup_def by blast
  have "ranked k (nat (cf_k (nd_config n))) (lk_closest l')"
    using l'(1) by (induction rule: lookup_run_induct) (use start ranked_step in blast)+
  then show ?thesis using end_round_NotFound(1,2) [OF l'(2)] by (simp add: ranked_def)
qed

lemma store_keeps: "node_store ev n k ps True = Some (err, sent, n') \<Longrightarrow> n' = n"
  by (auto simp: node_store_def split: option.splits sum.splits prod.splits)

lemma store_until:
  assumes "node_store ev n k ps True = Some (err, sent, n')"
  shows "\<exists>r. node_find_node ev n k = Some r \<and>
     (case r of
        Inl e \<Rightarrow> sent = []
      | Inr cs \<Rightarrow> (\<exists>rest. cs = sent @ rest \<and> (\<forall>c \<in> set (butlast sent). ev_store ev c k ps) \<and>
          (cs \<noteq> [] \<longrightarrow> sent \<noteq> []) \<and> (rest \<noteq> [] \<longrightarrow> \<not> ev_store ev (last sent) k ps)))"
proof -
  obtain r where r: "node_find_node ev n k = Some r" and
    refused: "case r of
        Inl e \<Rightarrow> err = Some e \<and> sent = []
      | Inr cs \<Rightarrow> (\<exists>rest. cs = sent @ rest \<and>
          (if \<forall>c \<in> set cs. ev_store ev c k ps then err = None \<and> rest = []
           else err = Some RpcFailed \<and> sent \<noteq> [] \<and> \<not> ev_store ev (last sent) k ps \<and>
             (\<forall>c \<in> set (butlast sent). ev_store ev c k ps)))"
    using store_until_refused [OF assms] by blast
  show ?thesis
  proof (cases r)
    case (Inr cs)
    then obtain rest where cs: "cs = sent @ rest" and
      i: "if \<forall>c \<in> set cs. ev_store ev c k ps then err = None \<and> rest = []
           else err = Some RpcFailed \<and> sent \<noteq> [] \<and> \<not> ev_store ev (last sent) k ps \<and>
             (\<forall>c \<in> set (butlast sent). ev_store ev c k ps)"
      using refused unfolding Inr sum.case by (elim exE conjE)
    have "(\<forall>c \<in> set (butlast sent). ev_store ev c k ps) \<and> (cs \<noteq> [] \<longrightarrow> sent \<noteq> []) \<and>
        (rest \<noteq> [] \<longrightarrow> \<not> ev_store ev (last sent) k ps)"
    proof (cases "\<forall>c \<in> set cs. ev_store ev c k ps")
      case True
      then have "rest = []" using i unfolding if_P [OF True] by blast
      then show ?thesis using True cs by (auto dest: in_set_butlastD)
    next
      case False
      then have "sent \<noteq> [] \<and> \<not> ev_store ev (last sent) k ps \<and> (\<forall>c \<in> set (butlast sent). ev_store ev c k ps)"
        using i unfolding if_not_P [OF False] by blast
      then show ?thesis by blast
    qed
    then show ?thesis using r Inr cs by auto
  qed (use r refused in simp)
qed

text \<open>Each pair is sent from the node as it is by then.\<close>

lemma republish_each_sent:
  "republish_each ev n prs = Some (log, n') \<Longrightarrow>
    map (\<lambda>(k, ps, sent). (k, ps)) log = prs \<and> n' = (ev_meanwhile ev ^^ length log) n \<and>
    (\<forall>j < length log. \<exists>k ps sent err. log ! j = (k, ps, sent) \<and>
       node_store ev ((ev_meanwhile ev ^^ j) n) k ps True = Some (err, sent, (ev_meanwhile ev ^^ j) n))"
proof (induction prs arbitrary: n log)
  case (Cons pr prs)
  obtain k ps where pr: "pr = (k, ps)" by fastforce
  from Cons.prems pr obtain err sent n1 log' where st: "node_store ev n k ps True = Some (err, sent, n1)"
    and log: "log = (k, ps, sent) # log'" and rest: "republish_each ev (ev_meanwhile ev n1) prs = Some (log', n')"
    by (auto split: option.splits)
  have n1: "n1 = n" using store_keeps [OF st] .
  note IH = Cons.IH [OF rest [unfolded n1]]
  have "\<exists>k ps sent err. log ! j = (k, ps, sent) \<and>
      node_store ev ((ev_meanwhile ev ^^ j) n) k ps True = Some (err, sent, (ev_meanwhile ev ^^ j) n)" if "j < length log" for j
    using IH that st unfolding log n1 by (cases j) (simp_all add: funpow_swap1)
  then show ?case using IH unfolding log pr by (simp add: funpow_swap1)
qed simp

lemma meanwhile_config: "env_ok ev \<Longrightarrow> nd_config ((ev_meanwhile ev ^^ j) n) = nd_config n"
  by (induction j) (simp_all add: env_okD(3))

text \<open>
  C32: one round of republishing. Every key with a live peer is stored once, with exactly its live
  peers, and no other key is; an error for one key does not stop the others. The peers go to the
  contacts that a lookup of the key returned, which the node runs as it is when the key's turn comes:
  at most K contacts, sorted by their distance to the key. They are sent in this order, and no further
  than to the first contact that does not accept them; to nobody when the lookup fails. The round
  itself leaves a store with the live peers and nothing else; other goroutines act between the keys.
\<close>

theorem republish_live:
  assumes "node_inv hi n" and "env_ok ev" and "iteration_order kord"
    and "republish_tick ev kord n = Some (log, n')"
  shows "\<exists>n0. stored hi n n0 \<and> (\<forall>k. store_peers (nd_peers n0) k = live_peers (ev_clk ev) (nd_peers n) k) \<and>
     n' = (ev_meanwhile ev ^^ length log) n0 \<and>
     distinct (map fst log) \<and>
     (\<forall>k. k \<in> fst ` set log \<longleftrightarrow> live_peers (ev_clk ev) (nd_peers n) k \<noteq> {}) \<and>
     (\<forall>j < length log. \<exists>k ps sent r. log ! j = (k, ps, sent) \<and>
        set ps = live_peers (ev_clk ev) (nd_peers n) k \<and> distinct ps \<and>
        node_find_node ev ((ev_meanwhile ev ^^ j) n0) k = Some r \<and>
        (case r of
           Inl e \<Rightarrow> sent = []
         | Inr cs \<Rightarrow> by_dist k cs \<and> length cs \<le> nat (cf_k (nd_config n)) \<and>
             (\<exists>rest. cs = sent @ rest \<and> (\<forall>c \<in> set (butlast sent). ev_store ev c k ps) \<and>
                sent \<noteq> [] \<and> (rest \<noteq> [] \<longrightarrow> \<not> ev_store ev (last sent) k ps))))"
proof -
  let ?live = "live_peers (ev_clk ev) (nd_peers n)"
  obtain prs s where prs: "peer_store_get_all (\<lambda>_. ev_clk ev) (\<lambda>_. ev_peer_ord ev) kord (nd_peers n) = (prs, s)"
    by fastforce
  let ?n0 = "n\<lparr>nd_peers := s\<rparr>"
  have log: "republish_each ev ?n0 prs = Some (log, n')" using assms(4) prs by (simp add: republish_tick_def)
  have si: "store_inv (nd_peers n)" using assms(1) by (simp add: node_inv_def)
  note G = get_all_spec [OF env_okD(1) [OF assms(2)] assms(3) si prs]
  have stored: "stored hi n ?n0" using node_inv_frame(1) [OF assms(1)] G by (simp add: stored_def)
  note S = republish_each_sent [OF log]
  have keys: "map fst log = map fst prs" using S [THEN conjunct1, symmetric] by (auto simp: comp_def split_def)
  then have "fst ` set log = fst ` set prs" by (metis set_map)
  moreover have "\<exists>k ps sent r. log ! j = (k, ps, sent) \<and> set ps = ?live k \<and> distinct ps \<and>
        node_find_node ev ((ev_meanwhile ev ^^ j) ?n0) k = Some r \<and>
        (case r of
           Inl e \<Rightarrow> sent = []
         | Inr cs \<Rightarrow> by_dist k cs \<and> length cs \<le> nat (cf_k (nd_config n)) \<and>
             (\<exists>rest. cs = sent @ rest \<and> (\<forall>c \<in> set (butlast sent). ev_store ev c k ps) \<and>
                sent \<noteq> [] \<and> (rest \<noteq> [] \<longrightarrow> \<not> ev_store ev (last sent) k ps)))"
    if j: "j < length log" for j
  proof -
    let ?m = "(ev_meanwhile ev ^^ j) ?n0"
    obtain k ps sent err where l: "log ! j = (k, ps, sent)" "node_store ev ?m k ps True = Some (err, sent, ?m)"
      using S j by blast
    have "(k, ps) \<in> set prs" using S [THEN conjunct1] nth_mem [OF j] l(1) by force
    then have "set ps = ?live k \<and> distinct ps" using G by auto
    moreover obtain r where r: "node_find_node ev ?m k = Some r" "case r of
        Inl e \<Rightarrow> sent = []
      | Inr cs \<Rightarrow> (\<exists>rest. cs = sent @ rest \<and> (\<forall>c \<in> set (butlast sent). ev_store ev c k ps) \<and>
          (cs \<noteq> [] \<longrightarrow> sent \<noteq> []) \<and> (rest \<noteq> [] \<longrightarrow> \<not> ev_store ev (last sent) k ps))"
      using store_until [OF l(2)] by blast
    moreover have "by_dist k cs \<and> length cs \<le> nat (cf_k (nd_config n)) \<and> cs \<noteq> []" if "r = Inr cs" for cs
      using find_node_ranked [of ev ?m k cs] r(1) that meanwhile_config [OF assms(2)] by simp
    ultimately show ?thesis using l(1) by (intro exI [of _ k] exI [of _ ps] exI [of _ sent] exI [of _ r] conjI) (cases r; force)+
  qed
  ultimately show ?thesis using G keys S stored by (intro exI [of _ ?n0] conjI) auto
qed

lemma republish_live_witness:
  "\<exists>log n'. republish_tick ((answering (Nodes []))\<lparr>ev_clk := \<lambda>_. 100\<rparr>) rev (sample_node\<lparr>nd_peers := sample_peer_store\<rparr>) = Some (log, n') \<and>
     parse_uint64 1 \<in> fst ` set log \<and> store_peers (nd_peers n') (parse_uint64 1) = {sample_peer 2 95}"
proof -
  let ?ev = "(answering (Nodes []))\<lparr>ev_clk := \<lambda>_. 100\<rparr>" and ?n = "sample_node\<lparr>nd_peers := sample_peer_store\<rparr>"
  have "republish_tick ?ev rev ?n \<noteq> None" by code_simp
  then obtain log n' where t: "republish_tick ?ev rev ?n = Some (log, n')" by auto
  have inv: "node_inv 15 ?n" using node_inv_frame(1) [OF sample_node_inv] by (simp add: sample_peer_store_def inv_intros)
  have "env_ok ?ev" and alone: "(ev_meanwhile ?ev ^^ j) m = m" for j m
    by (simp_all add: env_ok_def sample_env_def flip: id_def)
  moreover have "live_peers (ev_clk ?ev) (nd_peers ?n) (parse_uint64 1) = {sample_peer 2 95}"
    by (auto simp: live_peers_def sample_peer_store_def store_peers_put peer_expired_def sample_peer_def)
  ultimately show ?thesis using republish_live [OF inv _ iteration_order_rev t] t unfolding alone by blast
qed

end
