(* ===== verification/Network.thy ===== *)
theory Network
  imports Node_Correct
begin

text \<open>
  Nodes that talk to each other. The state holds the nodes by their address, the goroutines
  that handlers have started, the lookups under way and the handlers that wait for a lookup of their
  own. In one step a node answers a request of another or suspends its handler, runs a started
  task, learns of a contact it was given for bootstrapping, starts a lookup, makes one step of a
  lookup, updates its routing table with the result of a finished one, or goes on with a suspended
  handler. All these steps interleave freely, and every call to a remote node may also fail.
\<close>

subsection \<open>Steps\<close>

record network =
  nt_nodes :: "string \<Rightarrow> node option"
  nt_tasks :: "(string \<times> task) list"
  nt_lookups :: "(string \<times> status) list"
  nt_waiting :: "(string \<times> suspended \<times> status) list"

text \<open>
  The answer of the node at the address of \<open>c\<close> to the query of a lookup by \<open>self\<close>: what the
  client makes of the response of its handler.
\<close>

definition query ::
  "env \<Rightarrow> (string \<Rightarrow> node option) \<Rightarrow> contact \<Rightarrow> request \<Rightarrow> lookup_kind \<Rightarrow> contact \<Rightarrow> answer" where
  "query ev nodes self rq lk c =
     (case nodes (contact_address c) of
        None \<Rightarrow> Unreachable
      | Some n \<Rightarrow>
          (case serve ev n (case lk of FindNodeLookup \<Rightarrow> RpcFindNode | FindPeersLookup \<Rightarrow> RpcFindPeers)
                  (rq\<lparr>rq_src := Some self\<rparr>) of
             Some ((code, b), _, _) \<Rightarrow>
               if code \<noteq> status_ok then Unreachable
               else (case b of
                       ContactsBody cs \<Rightarrow> Nodes cs
                     | FindPeersBody found ps cs \<Rightarrow> if found then Peers ps else Nodes cs
                     | _ \<Rightarrow> Unreachable)
           | None \<Rightarrow> Unreachable))"

inductive net_step :: "network \<Rightarrow> network \<Rightarrow> bool" where
  Request:
    "\<lbrakk>nt_nodes s a = Some m; nt_nodes s b = Some n; rq_src rq = Some (nd_self m); env_ok ev;
      serve_begin ev n r rq = Some (Inl (resp, ts), n')\<rbrakk> \<Longrightarrow>
     net_step s (s\<lparr>nt_nodes := (nt_nodes s)(b \<mapsto> n'), nt_tasks := map (Pair b) ts @ nt_tasks s\<rparr>)"
| Suspend:
    "\<lbrakk>nt_nodes s b = Some n; env_ok ev; serve_begin ev n r rq = Some (Inr w, n');
      start_lookup ev n' FindPeersLookup (suspended_key w) = Some st\<rbrakk> \<Longrightarrow>
     net_step s (s\<lparr>nt_nodes := (nt_nodes s)(b \<mapsto> n'), nt_waiting := (b, w, st) # nt_waiting s\<rparr>)"
| Wait:
    "\<lbrakk>nt_waiting s = xs @ (b, w, Running l) # ys; nt_nodes s b = Some n; env_ok ev;
      \<forall>c ans. e = Reply c ans \<longrightarrow> ans = Unreachable \<or> ans = query ev (nt_nodes s) (nd_self n) rq (lk_kind l) c;
      lookup_step l e = Some st\<rbrakk> \<Longrightarrow>
     net_step s (s\<lparr>nt_waiting := xs @ (b, w, st) # ys\<rparr>)"
| Resume:
    "\<lbrakk>nt_waiting s = xs @ (b, w, Returned out) # ys; nt_nodes s b = Some n; env_ok ev;
      serve_end ev n w out = Some (resp, n', ts)\<rbrakk> \<Longrightarrow>
     net_step s (s\<lparr>nt_nodes := (nt_nodes s)(b \<mapsto> n'), nt_tasks := map (Pair b) ts @ nt_tasks s, nt_waiting := xs @ ys\<rparr>)"
| Task:
    "\<lbrakk>nt_nodes s a = Some n; nt_tasks s = xs @ (a, t) # ys; env_ok ev; run_task ev n t = Some n'\<rbrakk> \<Longrightarrow>
     net_step s (s\<lparr>nt_nodes := (nt_nodes s)(a \<mapsto> n'), nt_tasks := xs @ ys\<rparr>)"
| Introduce:
    "\<lbrakk>nt_nodes s a = Some n; nt_nodes s b = Some m; env_ok ev;
      node_update_contact ev n (nd_self m) = Some n'\<rbrakk> \<Longrightarrow>
     net_step s (s\<lparr>nt_nodes := (nt_nodes s)(a \<mapsto> n')\<rparr>)"
| Start:
    "\<lbrakk>nt_nodes s a = Some n; env_ok ev; start_lookup ev n lk k = Some st\<rbrakk> \<Longrightarrow>
     net_step s (s\<lparr>nt_lookups := (a, st) # nt_lookups s\<rparr>)"
| Lookup:
    "\<lbrakk>nt_lookups s = xs @ (a, Running l) # ys; nt_nodes s a = Some n; env_ok ev;
      \<forall>c ans. e = Reply c ans \<longrightarrow> ans = Unreachable \<or> ans = query ev (nt_nodes s) (nd_self n) rq (lk_kind l) c;
      lookup_step l e = Some st\<rbrakk> \<Longrightarrow>
     net_step s (s\<lparr>nt_lookups := xs @ (a, st) # ys\<rparr>)"
| Learn:
    "\<lbrakk>nt_lookups s = xs @ (a, Returned (NotFound cs)) # ys; nt_nodes s a = Some n; env_ok ev;
      update_contacts ev n cs = Some n'\<rbrakk> \<Longrightarrow>
     net_step s (s\<lparr>nt_nodes := (nt_nodes s)(a \<mapsto> n'), nt_lookups := xs @ ys\<rparr>)"

text \<open>Nodes that have just been started: empty tables, each at its own address.\<close>

definition net_init :: "network \<Rightarrow> bool" where
  "net_init s \<longleftrightarrow> nt_tasks s = [] \<and> nt_lookups s = [] \<and> nt_waiting s = [] \<and>
     (\<forall>a n. nt_nodes s a = Some n \<longrightarrow> table_contacts (nd_rt n) = [] \<and> contact_address (nd_self n) = a \<and>
        (\<exists>hi. node_inv hi n))"

inductive net_reachable :: "network \<Rightarrow> network \<Rightarrow> bool" for s0 where
  Init: "net_init s0 \<Longrightarrow> net_reachable s0 s0"
| Step: "\<lbrakk>net_reachable s0 s; net_step s s'\<rbrakk> \<Longrightarrow> net_reachable s0 s'"

subsection \<open>Every contact is a node of the network\<close>

abbreviation members :: "network \<Rightarrow> contact set" where
  "members s \<equiv> {nd_self n | n a. nt_nodes s a = Some n}"

fun status_within :: "contact set \<Rightarrow> status \<Rightarrow> bool" where
  "status_within M (Running l) \<longleftrightarrow> set (sl_list (lk_closest l)) \<subseteq> M \<and> set (lk_round l) \<subseteq> M"
| "status_within M (Returned (NotFound cs)) \<longleftrightarrow> set cs \<subseteq> M"
| "status_within M (Returned _) \<longleftrightarrow> True"

definition task_within :: "contact set \<Rightarrow> task \<Rightarrow> bool" where
  "task_within M t \<longleftrightarrow> (\<forall>c. t = UpdateTask c \<longrightarrow> c \<in> M)"

definition node_within :: "contact set \<Rightarrow> node \<Rightarrow> bool" where
  "node_within M n \<longleftrightarrow> set (table_contacts (nd_rt n)) \<subseteq> M \<and> (\<exists>hi. node_inv hi n)"

subsection \<open>What one step does\<close>

lemma sl_insert_within: "set (sl_list (sl_insert cs s)) \<subseteq> set cs \<union> set (sl_list s)"
proof -
  have one: "set (insert_contact t c l) \<subseteq> insert c (set l)" for t c l
    unfolding insert_contact_eq by (auto dest: in_set_takeD in_set_dropD)
  have "set (fold (insert_contact t) cs l) \<subseteq> set cs \<union> set l" for t l
    by (induction cs arbitrary: l) (use one in fastforce)+
  then show ?thesis unfolding sl_insert_list using set_take_subset by fast
qed

lemma sl_remove_within: "set (sl_list (sl_remove [c] s)) \<subseteq> set (sl_list s)"
  by (auto simp: sl_remove_def remove_contact_def Let_def dest: in_set_takeD in_set_dropD)

lemma begin_round_within:
  "set (sl_list (lk_closest l)) \<subseteq> M \<Longrightarrow> lk_running l = [] \<Longrightarrow> lk_replied l = [] \<Longrightarrow> status_within M (Running (begin_round l))"
proof -
  assume l: "set (sl_list (lk_closest l)) \<subseteq> M" "lk_running l = []" "lk_replied l = []"
  have "set (take m (filter P xs)) \<subseteq> set xs" for m P and xs :: "contact list"
    using set_take_subset [of m "filter P xs"] by auto
  then have "set (sl_pick_not_contacted (lk_limit l) (lk_closest l)) \<subseteq> M"
    unfolding sl_pick_eq using l(1) by (rule subset_trans)
  then show ?thesis using l by (simp add: begin_round_def lk_round_def)
qed

lemma lookup_start_within:
  assumes "lookup_start lk alpha K k initial = Some st" and "set initial \<subseteq> M"
  shows "status_within M st"
proof -
  let ?i = "if int (length initial) > alpha then take (nat alpha) initial else initial"
  have "set ?i \<subseteq> M" using assms(2) set_take_subset [of "nat alpha" initial] by auto
  then have within: "set (sl_list (sl_insert ?i (new_shortlist k K))) \<subseteq> M"
    using sl_insert_within [of ?i "new_shortlist k K"] by (simp add: new_shortlist_def)
  show ?thesis
  proof (cases "initial = [] \<or> (int (length initial) > alpha \<and> alpha < 0)")
    case True
    then have "initial = []" "st = Returned (Failed NoCloseNodes)"
      using assms(1) unfolding lookup_start_def by (simp_all split: if_splits)
    then show ?thesis by simp
  next
    case False
    then obtain c cs where "sl_list (sl_insert ?i (new_shortlist k K)) = c # cs" and
      st: "st = Running (begin_round \<lparr>lk_kind = lk, lk_alpha = alpha, lk_closest = sl_insert ?i (new_shortlist k K),
        lk_peers = None, lk_closest_node = c, lk_limit = alpha, lk_todo = [], lk_running = [], lk_replied = []\<rparr>)"
      using assms(1) unfolding lookup_start_def Let_def
      by (cases "sl_list (sl_insert ?i (new_shortlist k K))") auto
    show ?thesis unfolding st by (rule begin_round_within) (use within in simp_all)
  qed
qed

lemma end_round_within:
  assumes "end_round l = Some st" and "status_within M (Running l)" and "lk_running l = []" and "lk_replied l = []"
  shows "status_within M st"
proof -
  have "status_within M (Running (begin_round (l\<lparr>lk_closest_node := h, lk_limit := m\<rparr>)))" for h m
    using assms by (intro begin_round_within) simp_all
  moreover have "status_within M (Running (begin_round (l\<lparr>lk_limit := m\<rparr>)))" for m
    using assms by (intro begin_round_within) simp_all
  moreover have "status_within M (Returned (NotFound (sl_list (lk_closest l))))" using assms(2) by simp
  ultimately show ?thesis
    using assms(1) by (auto simp: end_round_def split: option.splits if_splits simp del: status_within.simps(1,2))
qed

lemma lookup_step_within:
  assumes "lookup_step l e = Some st" and "status_within M (Running l)"
    and "\<And>c cs. e = Reply c (Nodes cs) \<Longrightarrow> set cs \<subseteq> M"
  shows "status_within M st"
proof (cases e)
  case Launch
  then show ?thesis using assms(1,2) by (auto simp: lk_round_def sl_set_contacted_eq split: list.splits)
next
  case (Reply c a)
  have c: "c \<in> M" "set (remove1 c (lk_running l)) \<subseteq> M"
    using assms(1,2) Reply set_remove1_subset [of c "lk_running l"] by (auto simp: lk_round_def split: if_splits)
  show ?thesis
  proof (cases a)
    case Unreachable
    then show ?thesis using assms(1,2) Reply c sl_remove_within [of c "lk_closest l"]
      by (auto simp: lk_round_def split: if_splits)
  next
    case (Nodes cs)
    have "set (sl_list (sl_insert cs (lk_closest l))) \<subseteq> M"
      using assms(2,3) sl_insert_within [of cs "lk_closest l"] Reply Nodes by fastforce
    then show ?thesis using assms(1,2) Reply Nodes c
      by (auto simp: lk_round_def split: if_splits)
  next
    case (Peers ps)
    then show ?thesis using assms(1,2) Reply c by (auto simp: lk_round_def sl_set_has_peers_eq split: if_splits)
  qed
next
  case (Finish c late)
  have c: "c \<in> M" "set (remove1 c (lk_replied l)) \<subseteq> M"
    using assms(1,2) Finish set_remove1_subset [of c "lk_replied l"] by (auto simp: lk_round_def split: if_splits)
  then have "set (sl_list (sl_insert [c] (lk_closest l))) \<subseteq> M"
    using assms(2) sl_insert_within [of "[c]" "lk_closest l"] by fastforce
  then show ?thesis using assms(1,2) Finish c
    by (auto simp: lk_round_def split: if_splits)
next
  case End_round
  then show ?thesis using assms(1,2) end_round_within [of l st M] by (simp split: if_splits)
qed

lemma node_within_table:
  assumes "node_within M n" and "env_ok ev"
  shows "set (find_closest (ev_bucket_ord ev) (nd_rt n) k ex) \<subseteq> M"
proof -
  obtain hi where "table_inv hi (nd_rt n)" "set (table_contacts (nd_rt n)) \<subseteq> M"
    using assms(1) by (auto simp: node_within_def node_inv_def)
  moreover have "iteration_order (ev_bucket_ord ev i)" for i using assms(2) by (simp add: env_ok_def)
  ultimately show ?thesis
    using set_take_subset [of "nat (rt_k (nd_rt n))"
        "sort_key (dist_to k) (filter (\<lambda>c. contact_id c \<noteq> ex) (table_contacts (nd_rt n)))"]
    by (auto simp: find_closest_eq)
qed

lemma node_within_update:
  assumes "node_within M n" and "env_ok ev" and "c \<in> M" and "node_update_contact ev n c = Some n'"
  shows "node_within M n'" and "nd_self n' = nd_self n"
proof -
  obtain hi where inv: "node_inv hi n" using assms(1) by (auto simp: node_within_def)
  have "key_nat (contact_id c) \<le> hi"
    using assms(4) inv update_contact_out_of_range [of hi "nd_rt n" c "ev_bucket_ord ev" "ev_now ev" "ev_ping ev" 0]
    by (cases "key_nat (contact_id c) \<le> hi") (auto simp: node_update_contact_def node_inv_def)
  then obtain n1 where n1: "node_update_contact ev n c = Some n1" "node_inv hi n1" "nd_self n1 = nd_self n"
    "learned (ev_ping ev) c (nd_rt n) (nd_rt n1)"
    by (rule update_contact_inv [OF inv assms(2)])
  have n': "n' = n1" using n1(1) assms(4) by simp
  show "nd_self n' = nd_self n" by (simp add: n' n1(3))
  have "set (table_contacts (nd_rt n1)) \<subseteq> insert c (set (table_contacts (nd_rt n)))"
    by (rule learned_subset [OF n1(4)])
  then show "node_within M n'" using assms(1,3) n1(2) by (auto simp: node_within_def n')
qed

lemma serve_contacts:
  assumes "serve ev n r rq = Some ((code, b), n', ts)"
  shows "b = ContactsBody cs \<Longrightarrow> \<exists>k ex. cs = find_closest (ev_bucket_ord ev) (nd_rt n) k ex"
    and "b = FindPeersBody False ps cs \<Longrightarrow> \<exists>k ex. cs = find_closest (ev_bucket_ord ev) (nd_rt n) k ex"
  using assms
proof -
  have no: "b \<noteq> ContactsBody cs \<and> b \<noteq> FindPeersBody False ps cs" if "r = KeyGet \<or> r = KeyPut" for ps
    using that assms by (auto simp: serve_key_get serve_key_put handle_key_put_def peers_response_def Let_def
        split: option.splits sum.splits prod.splits if_splits) (metis sum.exhaust)+
  show "b = ContactsBody cs \<Longrightarrow> \<exists>k ex. cs = find_closest (ev_bucket_ord ev) (nd_rt n) k ex"
    "b = FindPeersBody False ps cs \<Longrightarrow> \<exists>k ex. cs = find_closest (ev_bucket_ord ev) (nd_rt n) k ex"
    using assms no
    by (cases r; auto simp: serve_def serve_begin_def handle_ping_def handle_store_def handle_find_node_def
        handle_find_peers_def auth_swarm_key_def parse_src_def split: option.splits sum.splits prod.splits if_splits)+
qed

lemma query_within:
  assumes "\<And>a n. nodes a = Some n \<Longrightarrow> node_within M n" and "env_ok ev"
    and "query ev nodes self rq lk c = Nodes cs"
  shows "set cs \<subseteq> M"
proof -
  obtain n code b n' ts where n: "nodes (contact_address c) = Some n"
    and serve: "serve ev n (case lk of FindNodeLookup \<Rightarrow> RpcFindNode | FindPeersLookup \<Rightarrow> RpcFindPeers)
        (rq\<lparr>rq_src := Some self\<rparr>) = Some ((code, b), n', ts)"
    and b: "b = ContactsBody cs \<or> (\<exists>ps. b = FindPeersBody False ps cs)"
    using assms(3) by (auto simp: query_def split: option.splits prod.splits if_splits body.splits)
  then obtain k ex where "cs = find_closest (ev_bucket_ord ev) (nd_rt n) k ex"
    using serve_contacts [OF serve] by blast
  then show ?thesis using node_within_table [OF assms(1) [OF n] assms(2)] by simp
qed

lemma node_within_updates:
  assumes "update_contacts ev n cs = Some n'" and "node_within M n" and "env_ok ev" and "set cs \<subseteq> M"
  shows "node_within M n' \<and> nd_self n' = nd_self n"
  using assms(1,2,4)
proof (induction cs arbitrary: n)
  case (Cons c cs)
  then obtain n1 where n1: "node_update_contact ev n c = Some n1" "update_contacts ev n1 cs = Some n'"
    by (auto split: option.splits)
  have c: "c \<in> M" "set cs \<subseteq> M" using Cons.prems(3) by auto
  note n1' = node_within_update [OF Cons.prems(2) assms(3) c(1) n1(1)]
  show ?case using Cons.IH [OF n1(2) n1'(1) c(2)] n1'(2) by simp
qed simp

lemma node_within_task:
  assumes "run_task ev n t = Some n'" and "node_within M n" and "env_ok ev" and "task_within M t"
  shows "node_within M n' \<and> nd_self n' = nd_self n"
proof (cases t)
  case (UpdateTask c)
  then show ?thesis using assms node_within_update [OF assms(2,3), of c n'] by (simp add: run_task_def task_within_def)
next
  case (StoreTask k ps)
  then have "n' = n" using assms(1) by (auto simp: run_task_def dest: store_keeps)
  then show ?thesis using assms(2) by simp
qed

lemma node_within_stored: "node_within M n \<Longrightarrow> node_inv hi n \<Longrightarrow> stored hi n n' \<Longrightarrow> node_within M n' \<and> nd_self n' = nd_self n"
  using keptD [of hi n n'] by (auto simp: node_within_def)

lemma node_within_answers:
  assumes "answers hi n r rq resp n' ts" and "node_within M n" and "node_inv hi n" and "\<forall>c. rq_src rq = Some c \<longrightarrow> c \<in> M"
  shows "node_within M n' \<and> nd_self n' = nd_self n \<and> (\<forall>t \<in> set ts. task_within M t)"
proof -
  have s: "stored hi n n'"
    and ts: "\<forall>t \<in> set ts. (case t of UpdateTask c \<Rightarrow> rq_src rq = Some c | StoreTask k ps \<Rightarrow> r = KeyPut \<and> fst resp = 200)"
    using assms(1) by (simp_all add: answers_def)
  have "task_within M t" if "t \<in> set ts" for t
    using bspec [OF ts that] assms(4) by (auto simp: task_within_def)
  then show ?thesis using node_within_stored [OF assms(2,3) s] by blast
qed

lemma node_within_begin:
  assumes "serve_begin ev n r rq = Some (x, n')" and "node_within M n"
  shows "x = Inl (resp, ts) \<Longrightarrow> \<forall>c. rq_src rq = Some c \<longrightarrow> c \<in> M \<Longrightarrow>
      node_within M n' \<and> nd_self n' = nd_self n \<and> (\<forall>t \<in> set ts. task_within M t)"
    and "x = Inr w \<Longrightarrow> node_within M n' \<and> nd_self n' = nd_self n \<and> (\<exists>r. resumable r w)"
proof -
  obtain hi where hi: "node_inv hi n" using assms(2) by (auto simp: node_within_def)
  have a: "case x of Inl (resp, ts) \<Rightarrow> answers hi n r rq resp n' ts | Inr w \<Rightarrow> stored hi n n' \<and> resumable r w"
    by (rule serve_begin_answers [OF hi, of ev r rq]) (use assms(1) in simp)
  show "x = Inl (resp, ts) \<Longrightarrow> \<forall>c. rq_src rq = Some c \<longrightarrow> c \<in> M \<Longrightarrow>
      node_within M n' \<and> nd_self n' = nd_self n \<and> (\<forall>t \<in> set ts. task_within M t)"
    using a node_within_answers [OF _ assms(2) hi] by simp
  show "x = Inr w \<Longrightarrow> node_within M n' \<and> nd_self n' = nd_self n \<and> (\<exists>r. resumable r w)"
    using a node_within_stored [OF assms(2) hi] by auto
qed

lemma node_within_end:
  assumes "serve_end ev n w out = Some (resp, n', ts)" and "node_within M n" and "resumable r w"
  shows "node_within M n' \<and> nd_self n' = nd_self n \<and> (\<forall>t \<in> set ts. task_within M t)"
proof -
  obtain hi where hi: "node_inv hi n" using assms(2) by (auto simp: node_within_def)
  let ?rq = "\<lparr>rq_key = [], rq_port = None, rq_pair = None, rq_remote = [], rq_upload = [], rq_swarm = [], rq_src = None\<rparr>"
  have "answers hi n r ?rq resp n' ts"
    using serve_end_answers [OF hi assms(3), of ev out ?rq] assms(1) by simp
  then show ?thesis by (rule node_within_answers [OF _ assms(2) hi]) simp
qed

text \<open>
  The invariant of the network: each node is at its own address, and whatever contact a
  table, a task or a lookup holds is the identity of a node.
\<close>

definition net_inv :: "network \<Rightarrow> bool" where
  "net_inv s \<longleftrightarrow>
     (\<forall>a n. nt_nodes s a = Some n \<longrightarrow> contact_address (nd_self n) = a \<and> node_within (members s) n) \<and>
     (\<forall>(a, t) \<in> set (nt_tasks s). task_within (members s) t) \<and>
     (\<forall>(a, st) \<in> set (nt_lookups s). status_within (members s) st) \<and>
     (\<forall>(a, w, st) \<in> set (nt_waiting s). status_within (members s) st \<and> (\<exists>r. resumable r w))"

lemma net_inv_node: "net_inv s \<Longrightarrow> nt_nodes s a = Some n \<Longrightarrow>
    contact_address (nd_self n) = a \<and> node_within (members s) n \<and> nd_self n \<in> members s"
  by (auto simp: net_inv_def)

lemma members_upd:
  assumes "nt_nodes s a = Some n" and "nd_self n' = nd_self n" and "nt_nodes s' = (nt_nodes s)(a \<mapsto> n')"
  shows "members s' = members s"
proof -
  have "x \<in> members s' \<longleftrightarrow> x \<in> members s" for x
  proof
    assume "x \<in> members s'"
    then obtain m b where "x = nd_self m" "((nt_nodes s)(a \<mapsto> n')) b = Some m" using assms(3) by auto
    then show "x \<in> members s" using assms(1,2) by (cases "b = a") auto
  next
    assume "x \<in> members s"
    then obtain m b where x: "x = nd_self m" "nt_nodes s b = Some m" by auto
    show "x \<in> members s'"
    proof (cases "b = a")
      case True
      then have "x = nd_self n'" "nt_nodes s' a = Some n'" using x assms by auto
      then show ?thesis by blast
    next
      case False
      then have "nt_nodes s' b = Some m" using x(2) assms(3) by simp
      then show ?thesis using x(1) by blast
    qed
  qed
  then show ?thesis by blast
qed

lemma net_inv_upd:
  assumes inv: "net_inv s" and n: "nt_nodes s a = Some n"
    and n': "node_within (members s) n' \<and> nd_self n' = nd_self n"
    and s': "nt_nodes s' = (nt_nodes s)(a \<mapsto> n')"
    and t: "\<forall>(a, t) \<in> set (nt_tasks s'). task_within (members s) t"
    and l: "\<forall>(a, st) \<in> set (nt_lookups s'). status_within (members s) st"
    and w: "\<forall>(a, w, st) \<in> set (nt_waiting s'). status_within (members s) st \<and> (\<exists>r. resumable r w)"
  shows "net_inv s'"
proof -
  have M: "members s' = members s" by (rule members_upd [OF n _ s']) (use n' in simp)
  have "contact_address (nd_self m) = b \<and> node_within (members s) m" if "nt_nodes s' b = Some m" for b m
    using that n' net_inv_node [OF inv n] net_inv_node [OF inv, of b m] unfolding s' by (cases "b = a") auto
  then show ?thesis unfolding net_inv_def M using t l w by blast
qed

lemma net_inv_parts:
  assumes "net_inv s"
  shows "\<forall>(a, t) \<in> set (nt_tasks s). task_within (members s) t"
    and "\<forall>(a, st) \<in> set (nt_lookups s). status_within (members s) st"
    and "\<forall>(a, w, st) \<in> set (nt_waiting s). status_within (members s) st \<and> (\<exists>r. resumable r w)"
  using assms unfolding net_inv_def by blast+

lemma lookup_within:
  assumes "net_inv s" and "status_within (members s) (Running l)" and "lookup_step l e = Some st" and "env_ok ev"
    and "\<forall>c ans. e = Reply c ans \<longrightarrow> ans = Unreachable \<or> ans = query ev (nt_nodes s) self rq (lk_kind l) c"
  shows "status_within (members s) st"
proof (rule lookup_step_within [OF assms(3,2)])
  fix c cs assume "e = Reply c (Nodes cs)"
  then have "query ev (nt_nodes s) self rq (lk_kind l) c = Nodes cs" using assms(5) by auto
  then show "set cs \<subseteq> members s"
    by (rule query_within [OF _ assms(4), rotated]) (use net_inv_node [OF assms(1)] in blast)
qed

lemma net_step_inv:
  assumes "net_step s s'" and "net_inv s"
  shows "net_inv s' \<and> members s' = members s"
  using assms
proof (induction rule: net_step.induct)
  case (Request s a m b n rq ev r resp ts n')
  note I = net_inv_node [OF Request.prems Request.hyps(2)] and m = net_inv_node [OF Request.prems Request.hyps(1)]
  have n': "node_within (members s) n' \<and> nd_self n' = nd_self n \<and> (\<forall>t \<in> set ts. task_within (members s) t)"
    by (rule node_within_begin(1) [OF Request.hyps(5) _ refl]) (use I m Request.hyps(3) in auto)
  let ?s = "s\<lparr>nt_nodes := (nt_nodes s)(b \<mapsto> n'), nt_tasks := map (Pair b) ts @ nt_tasks s\<rparr>"
  have "members ?s = members s" by (rule members_upd [OF Request.hyps(2)]) (use n' in simp_all)
  moreover have "net_inv ?s"
    by (rule net_inv_upd [OF Request.prems Request.hyps(2), of n'])
      (use n' net_inv_parts [OF Request.prems] in auto)
  ultimately show ?case by blast
next
  case (Suspend s b n ev r rq w n' st)
  note I = net_inv_node [OF Suspend.prems Suspend.hyps(1)]
  have n': "node_within (members s) n' \<and> nd_self n' = nd_self n \<and> (\<exists>r. resumable r w)"
    using node_within_begin(2) [OF Suspend.hyps(3) _ refl] I by blast
  have st: "status_within (members s) st"
    using lookup_start_within [OF Suspend.hyps(4) [unfolded start_lookup_def]] node_within_table [OF _ Suspend.hyps(2)] n' by blast
  let ?s = "s\<lparr>nt_nodes := (nt_nodes s)(b \<mapsto> n'), nt_waiting := (b, w, st) # nt_waiting s\<rparr>"
  have "members ?s = members s" by (rule members_upd [OF Suspend.hyps(1)]) (use n' in simp_all)
  moreover have "net_inv ?s"
    by (rule net_inv_upd [OF Suspend.prems Suspend.hyps(1), of n'])
      (use n' st net_inv_parts [OF Suspend.prems] in auto)
  ultimately show ?case by blast
next
  case (Wait s xs b w l ys n ev e rq st)
  have "status_within (members s) (Running l)" "\<exists>r. resumable r w"
    using net_inv_parts(3) [OF Wait.prems] Wait.hyps(1) by simp_all
  moreover from this(1) have "status_within (members s) st"
    by (rule lookup_within [OF Wait.prems _ Wait.hyps(5,3,4)])
  ultimately have "\<forall>(a, w, st) \<in> set (xs @ (b, w, st) # ys). status_within (members s) st \<and> (\<exists>r. resumable r w)"
    using net_inv_parts(3) [OF Wait.prems] unfolding Wait.hyps(1) by simp
  then show ?case using Wait.prems by (simp add: net_inv_def)
next
  case (Resume s xs b w out ys n ev resp n' ts)
  have "\<exists>r. resumable r w" using net_inv_parts(3) [OF Resume.prems] Resume.hyps(1) by simp
  then have n': "node_within (members s) n' \<and> nd_self n' = nd_self n \<and> (\<forall>t \<in> set ts. task_within (members s) t)"
    using node_within_end [OF Resume.hyps(4)] net_inv_node [OF Resume.prems Resume.hyps(2)] by blast
  let ?s = "s\<lparr>nt_nodes := (nt_nodes s)(b \<mapsto> n'), nt_tasks := map (Pair b) ts @ nt_tasks s, nt_waiting := xs @ ys\<rparr>"
  have "members ?s = members s" by (rule members_upd [OF Resume.hyps(2)]) (use n' in simp_all)
  moreover have "net_inv ?s"
    by (rule net_inv_upd [OF Resume.prems Resume.hyps(2), of n'])
      (use n' net_inv_parts [OF Resume.prems] Resume.hyps(1) in auto)
  ultimately show ?case by blast
next
  case (Task s a n xs t ys ev n')
  have "task_within (members s) t" using net_inv_parts(1) [OF Task.prems] Task.hyps(2) by simp
  then have n': "node_within (members s) n' \<and> nd_self n' = nd_self n"
    using node_within_task [OF Task.hyps(4) _ Task.hyps(3)] net_inv_node [OF Task.prems Task.hyps(1)] by blast
  let ?s = "s\<lparr>nt_nodes := (nt_nodes s)(a \<mapsto> n'), nt_tasks := xs @ ys\<rparr>"
  have "members ?s = members s" by (rule members_upd [OF Task.hyps(1)]) (use n' in simp_all)
  moreover have "net_inv ?s"
    by (rule net_inv_upd [OF Task.prems Task.hyps(1) n']) (use net_inv_parts [OF Task.prems] Task.hyps(2) in auto)
  ultimately show ?case by blast
next
  case (Introduce s a n b m ev n')
  have m: "nd_self m \<in> members s" using Introduce.hyps(2) by blast
  have n': "node_within (members s) n' \<and> nd_self n' = nd_self n"
    using node_within_update [OF _ Introduce.hyps(3) m Introduce.hyps(4)] net_inv_node [OF Introduce.prems Introduce.hyps(1)] by blast
  let ?s = "s\<lparr>nt_nodes := (nt_nodes s)(a \<mapsto> n')\<rparr>"
  have "members ?s = members s" by (rule members_upd [OF Introduce.hyps(1)]) (use n' in simp_all)
  moreover have "net_inv ?s"
    by (rule net_inv_upd [OF Introduce.prems Introduce.hyps(1) n']) (use net_inv_parts [OF Introduce.prems] in simp_all)
  ultimately show ?case by blast
next
  case (Start s a n ev lk k st)
  have "status_within (members s) st"
    using lookup_start_within [OF Start.hyps(3) [unfolded start_lookup_def]]
      node_within_table [OF _ Start.hyps(2)] net_inv_node [OF Start.prems Start.hyps(1)] by blast
  then show ?case using Start.prems by (simp add: net_inv_def)
next
  case (Lookup s xs a l ys n ev e rq st)
  have "status_within (members s) (Running l)" using net_inv_parts(2) [OF Lookup.prems] Lookup.hyps(1) by simp
  then have st: "status_within (members s) st" by (rule lookup_within [OF Lookup.prems _ Lookup.hyps(5,3,4)])
  have "\<forall>(a, st) \<in> set (xs @ (a, st) # ys). status_within (members s) st"
    using net_inv_parts(2) [OF Lookup.prems] st unfolding Lookup.hyps(1) by simp
  then show ?case using Lookup.prems by (simp add: net_inv_def)
next
  case (Learn s xs a cs ys n ev n')
  have "set cs \<subseteq> members s" using net_inv_parts(2) [OF Learn.prems] Learn.hyps(1) by simp
  then have n': "node_within (members s) n' \<and> nd_self n' = nd_self n"
    using node_within_updates [OF Learn.hyps(4) _ Learn.hyps(3)] net_inv_node [OF Learn.prems Learn.hyps(2)] by blast
  let ?s = "s\<lparr>nt_nodes := (nt_nodes s)(a \<mapsto> n'), nt_lookups := xs @ ys\<rparr>"
  have "members ?s = members s" by (rule members_upd [OF Learn.hyps(2)]) (use n' in simp_all)
  moreover have "net_inv ?s"
    by (rule net_inv_upd [OF Learn.prems Learn.hyps(2) n']) (use net_inv_parts [OF Learn.prems] Learn.hyps(1) in auto)
  ultimately show ?case by blast
qed

lemma net_reachable_inv: "net_reachable s0 s \<Longrightarrow> net_inv s \<and> members s = members s0"
proof (induction rule: net_reachable.induct)
  case Init
  then have "net_inv s0" unfolding net_inv_def net_init_def node_within_def by fastforce
  then show ?case by simp
next
  case (Step s s')
  note i = conjunct1 [OF Step.IH] conjunct2 [OF Step.IH]
  note j = net_step_inv [OF Step.hyps(2) i(1)]
  show ?case by (rule conjI [OF conjunct1 [OF j] trans [OF conjunct2 [OF j] i(2)]])
qed

subsection \<open>Properties\<close>

definition sample_member :: "nat \<Rightarrow> node" where
  "sample_member i = the (start_node 0 (default_node_config\<lparr>cf_port := of_nat (3000 + i), cf_id := parse_uint64 (of_nat i)\<rparr>) [])"

abbreviation sample_member_address :: "nat \<Rightarrow> string" where
  "sample_member_address i \<equiv> contact_address (nd_self (sample_member i))"

definition sample_network :: network where
  "sample_network = \<lparr>nt_nodes = [sample_member_address 1 \<mapsto> sample_member 1, sample_member_address 2 \<mapsto> sample_member 2],
     nt_tasks = [], nt_lookups = [], nt_waiting = []\<rparr>"

lemma sample_member:
  "node_inv ((256 ^ 20 - 1) * 256 ^ 12) (sample_member i)" "table_contacts (nd_rt (sample_member i)) = []"
  "nd_config (sample_member i) = default_node_config\<lparr>cf_port := of_nat (3000 + i), cf_id := parse_uint64 (of_nat i)\<rparr>"
  "sample_member_address i = ''0.0.0.0'' @ '':'' @ show_nat (unat (of_nat (3000 + i) :: u16))"
  "contact_id (nd_self (sample_member i)) = parse_uint64 (of_nat i)"
proof -
  let ?c = "default_node_config\<lparr>cf_port := of_nat (3000 + i), cf_id := parse_uint64 (of_nat i)\<rparr>"
  have K: "cf_k ?c = 20" "cf_alt_host ?c = ''''" "cf_host ?c = ''0.0.0.0''" by (simp_all add: default_node_config_def)
  obtain n where n: "start_node 0 ?c [] = Some n" "node_inv ((256 ^ 20 - 1) * 256 ^ 12) n"
    "table_contacts (nd_rt n) = []" "nd_config n = ?c"
    "contact_address (nd_self n) = ''0.0.0.0'' @ '':'' @ show_nat (unat (of_nat (3000 + i) :: u16))"
    "contact_id (nd_self n) = cf_id ?c"
    using started_node [of ?c "[]" new_trie 0] unfolding K by auto
  have "sample_member i = n" using n(1) by (simp add: sample_member_def)
  then show "node_inv ((256 ^ 20 - 1) * 256 ^ 12) (sample_member i)" "table_contacts (nd_rt (sample_member i)) = []"
    "nd_config (sample_member i) = ?c"
    "sample_member_address i = ''0.0.0.0'' @ '':'' @ show_nat (unat (of_nat (3000 + i) :: u16))" "contact_id (nd_self (sample_member i)) = parse_uint64 (of_nat i)"
    using n by simp_all
qed

lemma sample_addresses: "sample_member_address 1 \<noteq> sample_member_address 2"
  unfolding sample_member(4) by (simp add: show_nat.simps) (simp add: digit_def)

lemma sample_network_init: "net_init sample_network"
  using sample_member(1,2) by (auto simp: net_init_def sample_network_def)

text \<open>
  C16: nobody invents contacts. In a network that starts with empty routing tables and whose nodes
  name themselves truthfully in their requests, every contact that a node's routing table, a
  started update or the result of a lookup ever holds is a node of the network, with its own key and at
  its own address, however the steps of the nodes interleave and whatever calls fail.
\<close>

theorem contacts_are_nodes:
  assumes "net_reachable s0 s"
  shows "(\<forall>a n c. nt_nodes s a = Some n \<and> c \<in> set (table_contacts (nd_rt n)) \<longrightarrow>
        (\<exists>m. nt_nodes s (contact_address c) = Some m \<and> nd_self m = c)) \<and>
     (\<forall>a c. (a, UpdateTask c) \<in> set (nt_tasks s) \<longrightarrow> (\<exists>m. nt_nodes s (contact_address c) = Some m \<and> nd_self m = c)) \<and>
     (\<forall>a cs. (a, Returned (NotFound cs)) \<in> set (nt_lookups s) \<longrightarrow>
        (\<forall>c \<in> set cs. \<exists>m. nt_nodes s (contact_address c) = Some m \<and> nd_self m = c))"
proof -
  have inv: "net_inv s" using net_reachable_inv [OF assms] by blast
  have node: "\<exists>m. nt_nodes s (contact_address c) = Some m \<and> nd_self m = c" if c: "c \<in> members s" for c
  proof -
    obtain m a where m: "c = nd_self m" "nt_nodes s a = Some m" using c by blast
    then have "contact_address c = a" using net_inv_node [OF inv m(2)] by simp
    then show ?thesis using m by blast
  qed
  have "c \<in> members s" if "nt_nodes s a = Some n" "c \<in> set (table_contacts (nd_rt n))" for a n c
    using net_inv_node [OF inv that(1)] that(2) unfolding node_within_def by blast
  moreover have "c \<in> members s" if "(a, UpdateTask c) \<in> set (nt_tasks s)" for a c
    using bspec [OF net_inv_parts(1) [OF inv] that] by (simp add: task_within_def)
  moreover have "set cs \<subseteq> members s" if "(a, Returned (NotFound cs)) \<in> set (nt_lookups s)" for a cs
    using bspec [OF net_inv_parts(2) [OF inv] that] by simp
  ultimately show ?thesis using node by blast
qed

lemma sample_introduced:
  obtains n' where "net_reachable sample_network (sample_network\<lparr>nt_nodes := (nt_nodes sample_network)(sample_member_address 1 \<mapsto> n')\<rparr>)"
    "table_contacts (nd_rt n') = [nd_self (sample_member 2)]" "node_inv ((256 ^ 20 - 1) * 256 ^ 12) n'"
    "nd_self n' = nd_self (sample_member 1)" "nd_config n' = nd_config (sample_member 1)"
proof -
  let ?a = "sample_member_address 1" and ?c = "nd_self (sample_member 2)"
  have nodes: "nt_nodes sample_network ?a = Some (sample_member 1)"
    "nt_nodes sample_network (sample_member_address 2) = Some (sample_member 2)"
    using sample_addresses by (simp_all add: sample_network_def)
  have "contact_id ?c = parse_uint64 2" using sample_member(5) [of 2] by simp
  moreover have "key_nat (parse_uint64 2) \<le> 15" by code_simp
  ultimately have "key_nat (contact_id ?c) \<le> (256 ^ 20 - 1) * 256 ^ 12" by simp
  then obtain n' where n': "node_update_contact sample_env (sample_member 1) ?c = Some n'"
    "learned (ev_ping sample_env) ?c (nd_rt (sample_member 1)) (nd_rt n')"
    "node_inv ((256 ^ 20 - 1) * 256 ^ 12) n'" "nd_self n' = nd_self (sample_member 1)" "nd_config n' = nd_config (sample_member 1)"
    by (rule update_contact_inv [OF sample_member(1) sample_env_ok(1)])
  have "mset (table_contacts (nd_rt n')) = {#?c#}" using n'(2) by (simp add: learned_def sample_member(2) Let_def)
  then have t: "table_contacts (nd_rt n') = [?c]" by simp
  have "net_step sample_network (sample_network\<lparr>nt_nodes := (nt_nodes sample_network)(?a \<mapsto> n')\<rparr>)"
    by (rule net_step.Introduce [OF nodes sample_env_ok(1) n'(1)])
  then show thesis using that t n'(3-5) net_reachable.Step [OF net_reachable.Init [OF sample_network_init]] by blast
qed

lemma contacts_are_nodes_witness:
  "\<exists>s n. net_reachable sample_network s \<and> nt_nodes s (sample_member_address 1) = Some n \<and>
     table_contacts (nd_rt n) = [nd_self (sample_member 2)] \<and>
     (\<exists>m. nt_nodes s (sample_member_address 2) = Some m \<and> nd_self m = nd_self (sample_member 2))"
proof -
  obtain n' where r: "net_reachable sample_network (sample_network\<lparr>nt_nodes := (nt_nodes sample_network)(sample_member_address 1 \<mapsto> n')\<rparr>)"
    and t: "table_contacts (nd_rt n') = [nd_self (sample_member 2)]" by (rule sample_introduced)
  let ?s = "sample_network\<lparr>nt_nodes := (nt_nodes sample_network)(sample_member_address 1 \<mapsto> n')\<rparr>"
  have n': "nt_nodes ?s (sample_member_address 1) = Some n'" by simp
  have "nd_self (sample_member 2) \<in> set (table_contacts (nd_rt n'))" using t by simp
  then have "\<exists>m. nt_nodes ?s (sample_member_address 2) = Some m \<and> nd_self m = nd_self (sample_member 2)"
    using contacts_are_nodes [OF r] n' by blast
  then show ?thesis using r n' t by blast
qed

lemma members_addressed:
  assumes "net_inv s" and "\<forall>b c m m'. nt_nodes s b = Some m \<and> nt_nodes s c = Some m' \<and>
      contact_id (nd_self m) = contact_id (nd_self m') \<longrightarrow> b = c"
  shows "\<exists>A. addressed A (members s)"
proof -
  have "\<forall>id. \<exists>a. \<forall>b m. nt_nodes s b = Some m \<and> contact_id (nd_self m) = id \<longrightarrow> a = b"
    using assms(2) by metis
  then obtain A where A: "\<And>id b m. nt_nodes s b = Some m \<and> contact_id (nd_self m) = id \<Longrightarrow> A id = b" by metis
  have "contact_address c = A (contact_id c)" if c: "c \<in> members s" for c
  proof -
    obtain m b where m: "c = nd_self m" "nt_nodes s b = Some m" using c by blast
    then have "A (contact_id c) = b" using A by blast
    then show ?thesis using net_inv_node [OF assms(1) m(2)] m(1) by simp
  qed
  then show ?thesis unfolding addressed_def by blast
qed

lemma answers_within:
  assumes "net_reachable s0 s'" and "env_ok ev" and "query ev (nt_nodes s') self rq lk c = Nodes cs"
  shows "set cs \<subseteq> members s0"
proof -
  have inv: "net_inv s'" "members s' = members s0" using net_reachable_inv [OF assms(1)] by blast+
  have "set cs \<subseteq> members s'"
    by (rule query_within [OF _ assms(2,3)]) (use net_inv_node [OF inv(1)] in blast)
  then show ?thesis using inv(2) by simp
qed

text \<open>
  C17: a lookup in the network returns. If the nodes have different keys, then a lookup that a
  node starts from its own routing table comes to an end with a result, whenever every query
  fails or is answered by the handlers of the queried node in whatever state the
  network has by then reached, and in whatever order the answers and goroutines run.
\<close>

theorem network_lookup_returns:
  assumes "net_reachable s0 s" and "nt_nodes s a = Some n" and "env_ok ev"
    and "start_lookup ev n lk k = Some st"
    and "\<forall>b c m m'. nt_nodes s b = Some m \<and> nt_nodes s c = Some m' \<and>
        contact_id (nd_self m) = contact_id (nd_self m') \<longrightarrow> b = c"
    and "\<forall>i l. lookup_step l (sched i l) \<noteq> None \<and>
        (\<forall>c ans. sched i l = Reply c ans \<longrightarrow> ans = Unreachable \<or>
           (\<exists>s' ev' rq. net_reachable s0 s' \<and> env_ok ev' \<and>
              ans = query ev' (nt_nodes s') (nd_self n) rq (lk_kind l) c))"
  shows "\<exists>m r. drive sched 0 m st = Some (Returned r)"
proof (cases st)
  case (Returned r)
  then show ?thesis by (intro exI [of _ "Suc 0"]) simp
next
  case (Running l)
  have inv: "net_inv s" "members s = members s0" using net_reachable_inv [OF assms(1)] by blast+
  obtain A where "addressed A (members s)" using members_addressed [OF inv(1) assms(5)] by blast
  then have addr: "addressed A X" if "X \<subseteq> members s" for X
    using that unfolding addressed_def by blast
  have within: "node_within (members s) n" using net_inv_node [OF inv(1) assms(2)] by blast
  have init: "addressed A (set (find_closest (ev_bucket_ord ev) (nd_rt n) k (contact_id (nd_self n))))"
    by (rule addr [OF node_within_table [OF within assms(3)]])
  have K: "0 < nat (cf_k (nd_config n))"
    using within by (auto simp: node_within_def node_inv_def table_inv_def)
  have linv: "lookup_inv A l"
    by (rule lookup_start_inv(1) [OF assms(4) [unfolded start_lookup_def Running] K init])
  have "\<forall>i l. consistent A (sched i l) \<and> lookup_step l (sched i l) \<noteq> None"
  proof (intro allI conjI)
    fix i l
    show "lookup_step l (sched i l) \<noteq> None" using assms(6) by blast
    show "consistent A (sched i l)"
    proof (cases "\<exists>c cs. sched i l = Reply c (Nodes cs)")
      case True
      then obtain c cs where e: "sched i l = Reply c (Nodes cs)" by blast
      then obtain s' ev' rq where q: "net_reachable s0 s'" "env_ok ev'"
        "query ev' (nt_nodes s') (nd_self n) rq (lk_kind l) c = Nodes cs"
        using assms(6) by (metis answer.distinct(1))
      have "set cs \<subseteq> members s0" by (rule answers_within [OF q])
      then show ?thesis using addr inv(2) by (simp add: e)
    next
      case False
      then show ?thesis by (cases "sched i l") (auto elim: consistent.elims intro: answer.exhaust)
    qed
  qed
  from drive_returns [OF this linv] show ?thesis using Running by simp
qed

text \<open>In the witness, a node asks the other one for contacts and gets its answer.\<close>

lemma query_not_peers: "query ev nodes self rq FindNodeLookup c \<noteq> Peers ps"
proof
  assume "query ev nodes self rq FindNodeLookup c = Peers ps"
  then obtain n n' code ps' cs ts where
    "serve ev n RpcFindNode (rq\<lparr>rq_src := Some self\<rparr>) = Some ((code, FindPeersBody True ps' cs), n', ts)"
    by (auto simp: query_def split: option.splits prod.splits if_splits body.splits)
  then show False
    by (auto simp: serve_def serve_begin_def handle_find_node_def auth_swarm_key_def parse_src_def split: option.splits sum.splits if_splits)
qed

definition sample_schedule :: "network \<Rightarrow> contact \<Rightarrow> nat \<Rightarrow> lookup \<Rightarrow> event" where
  "sample_schedule s self i l =
     (case lk_todo l of _ # _ \<Rightarrow> Launch
      | [] \<Rightarrow> (case lk_running l of
          c # _ \<Rightarrow> Reply c (query sample_env (nt_nodes s) self sample_request (lk_kind l) c)
        | [] \<Rightarrow> (case lk_replied l of c # _ \<Rightarrow> Finish c False | [] \<Rightarrow> End_round)))"

lemma network_lookup_returns_witness:
  "\<exists>s n st m r. net_reachable sample_network s \<and> nt_nodes s (sample_member_address 1) = Some n \<and>
     start_lookup sample_env n FindNodeLookup (parse_uint64 2) = Some st \<and>
     drive (sample_schedule s (nd_self n)) 0 m st = Some (Returned r)"
proof -
  obtain n where r: "net_reachable sample_network (sample_network\<lparr>nt_nodes := (nt_nodes sample_network)(sample_member_address 1 \<mapsto> n)\<rparr>)"
    and t: "table_contacts (nd_rt n) = [nd_self (sample_member 2)]" and inv: "node_inv ((256 ^ 20 - 1) * 256 ^ 12) n"
    and self: "nd_self n = nd_self (sample_member 1)" and conf: "nd_config n = nd_config (sample_member 1)"
    by (rule sample_introduced)
  let ?s = "sample_network\<lparr>nt_nodes := (nt_nodes sample_network)(sample_member_address 1 \<mapsto> n)\<rparr>"
  have n: "nt_nodes ?s (sample_member_address 1) = Some n" by simp
  have ids: "contact_id (nd_self (sample_member 1)) = parse_uint64 1" "contact_id (nd_self (sample_member 2)) = parse_uint64 2"
    using sample_member(5) [of 1] sample_member(5) [of 2] by simp_all
  have "parse_uint64 2 \<noteq> parse_uint64 1" by code_simp
  note ids = ids this
  have K: "cf_k (nd_config n) = 20" "cf_alpha (nd_config n) = 3" "rt_k (nd_rt n) = 20"
    using inv by (simp_all add: conf sample_member(3) default_node_config_def node_inv_def)
  have "find_closest (ev_bucket_ord sample_env) (nd_rt n) (parse_uint64 2) (contact_id (nd_self n)) = [nd_self (sample_member 2)]"
  proof -
    obtain hi where ti: "table_inv hi (nd_rt n)" using inv unfolding node_inv_def by blast
    have ord: "iteration_order (ev_bucket_ord sample_env i)" for i using sample_env_ok(1) by (simp add: env_ok_def)
    show ?thesis unfolding find_closest_eq [OF ti ord] t self ids(1) K(3) using ids(2,3) by simp
  qed
  then obtain st where st: "start_lookup sample_env n FindNodeLookup (parse_uint64 2) = Some st"
    by (simp add: start_lookup_def lookup_start_def Let_def K sl_insert_list insert_contact_eq new_shortlist_def)
  have uniq: "\<forall>b c m m'. nt_nodes ?s b = Some m \<and> nt_nodes ?s c = Some m' \<and>
        contact_id (nd_self m) = contact_id (nd_self m') \<longrightarrow> b = c"
    using ids by (auto simp: sample_network_def self split: if_splits)
  have sched: "lookup_step l (sample_schedule ?s (nd_self n) i l) \<noteq> None" for i l
    using query_not_peers [of sample_env "nt_nodes ?s" "nd_self n" sample_request] end_round_no_panic [of l]
    by (auto simp: sample_schedule_def split: list.splits answer.splits)
  have "ans = query sample_env (nt_nodes ?s) (nd_self n) sample_request (lk_kind l) c"
    if "sample_schedule ?s (nd_self n) i l = Reply c ans" for i l c ans
    using that by (auto simp: sample_schedule_def split: list.splits)
  then show ?thesis
    using network_lookup_returns [OF r n sample_env_ok(1) st uniq, of "sample_schedule ?s (nd_self n)"] sched r n st sample_env_ok(1) by blast
qed

end
