(* ===== verification/Base64.thy ===== *)
theory Base64
  imports Base32
begin

text \<open>
  \<^verbatim>\<open>base64.StdEncoding\<close>, in which the JSON encoder writes a \<^verbatim>\<open>[]byte\<close>.  The decoder drops
  line breaks and reads groups of four characters, of which only the last may be padded.
\<close>

definition b64_char :: "u8 \<Rightarrow> char" where
  "b64_char q =
     (let n = unat q
      in char_of (if n < 26 then 65 + n else if n < 52 then 71 + n else if n < 62 then n - 4
                  else if n = 62 then 43 else 47))"

definition b64_value :: "char \<Rightarrow> u8 option" where
  "b64_value c =
     (let n = of_char c :: nat
      in if 65 \<le> n \<and> n \<le> 90 then Some (of_nat (n - 65))
         else if 97 \<le> n \<and> n \<le> 122 then Some (of_nat (n - 71))
         else if 48 \<le> n \<and> n \<le> 57 then Some (of_nat (n + 4))
         else if n = 43 then Some 62
         else if n = 47 then Some 63
         else None)"

definition sextets :: "u8 \<Rightarrow> u8 \<Rightarrow> u8 \<Rightarrow> u8 list" where
  "sextets a b c =
     [drop_bit 2 a,
      (push_bit 4 a OR drop_bit 4 b) AND 63,
      (push_bit 2 b OR drop_bit 6 c) AND 63,
      c AND 63]"

abbreviation pad_char :: char where "pad_char \<equiv> CHR ''=''"

fun b64_encode :: "u8 list \<Rightarrow> string" where
  "b64_encode (a # b # c # rest) = map b64_char (sextets a b c) @ b64_encode rest"
| "b64_encode [a, b] = map b64_char (take 3 (sextets a b 0)) @ [pad_char]"
| "b64_encode [a] = map b64_char (take 2 (sextets a 0 0)) @ [pad_char, pad_char]"
| "b64_encode [] = []"

text \<open>The bytes of a group of four, three or two values.\<close>

definition join1 :: "u8 \<Rightarrow> u8 \<Rightarrow> u8" where "join1 p q = push_bit 2 p OR drop_bit 4 q"
definition join2 :: "u8 \<Rightarrow> u8 \<Rightarrow> u8" where "join2 q r = push_bit 4 q OR drop_bit 2 r"
definition join3 :: "u8 \<Rightarrow> u8 \<Rightarrow> u8" where "join3 r s = push_bit 6 r OR s"

fun b64_groups :: "string \<Rightarrow> u8 list option" where
  "b64_groups [] = Some []"
| "b64_groups (c0 # c1 # c2 # c3 # rest) =
     (case (b64_value c0, b64_value c1) of
        (Some p, Some q) \<Rightarrow>
          if c2 = pad_char then (if c3 = pad_char \<and> rest = [] then Some [join1 p q] else None)
          else (case b64_value c2 of
            None \<Rightarrow> None
          | Some r \<Rightarrow>
              if c3 = pad_char then (if rest = [] then Some [join1 p q, join2 q r] else None)
              else (case b64_value c3 of
                None \<Rightarrow> None
              | Some s \<Rightarrow> map_option (\<lambda>bs. join1 p q # join2 q r # join3 r s # bs) (b64_groups rest)))
      | _ \<Rightarrow> None)"
| "b64_groups _ = None"

definition b64_decode :: "string \<Rightarrow> u8 list option" where
  "b64_decode s = b64_groups (strip_newlines s)"

subsection \<open>Round trip\<close>

lemma b64_char_code: "unat q < 64 \<Longrightarrow> of_char (b64_char q) =
    (let n = unat q in if n < 26 then 65 + n else if n < 52 then 71 + n else if n < 62 then n - 4
                  else if n = 62 then 43 else 47)"
  by (simp add: b64_char_def Let_def)

lemma b64_value_char [simp]: "unat q < 64 \<Longrightarrow> b64_value (b64_char q) = Some q"
  unfolding b64_value_def b64_char_code Let_def
  by (auto simp: word_unat_eq_iff unat_of_nat take_bit_nat_def word_of_nat_eq_iff split: if_splits)

lemma b64_value_special: "b64_value pad_char = None" "b64_value (CHR 0x0D) = None" "b64_value (CHR 0x0A) = None"
  by (simp_all add: b64_value_def Let_def)

lemma b64_char_neq [simp]:
  assumes "unat q < 64"
  shows "b64_char q \<noteq> pad_char" "b64_char q \<noteq> CHR 0x0D" "b64_char q \<noteq> CHR 0x0A"
  using b64_value_char [OF assms] b64_value_special by (metis option.distinct(1))+

lemma word_63: "(63 :: u8) = mask 6"
  by (simp add: mask_eq_exp_minus_1)

lemma sextets_bound: "\<forall>q \<in> set (sextets a b c). unat q < 64"
proof -
  have "unat (x AND 63) < 64" for x :: u8
    using word_and_le1 [of x 63] by (simp add: word_le_nat_alt)
  moreover have "unat (drop_bit 2 a) < 64"
  proof -
    have "unat a div 4 < 64" using unat_u8 [of a] by linarith
    then show ?thesis by (subst unat_drop_bit_eq) (simp add: drop_bit_eq_div)
  qed
  ultimately show ?thesis by (simp add: sextets_def)
qed

lemmas sextet_bits = word_63 bit_simps eval_nat_numeral

lemma join_sextets:
  "join1 (drop_bit 2 a) ((push_bit 4 a OR drop_bit 4 b) AND 63) = a"
  "join2 ((push_bit 4 a OR drop_bit 4 b) AND 63) ((push_bit 2 b OR drop_bit 6 c) AND 63) = b"
  "join3 ((push_bit 2 b OR drop_bit 6 c) AND 63) (c AND 63) = c"
  unfolding join1_def join2_def join3_def
  by (rule byte_eqI; simp add: sextet_bits del: push_bit_Suc)+

text \<open>The characters of an encoding have codes that the JSON encoder copies.\<close>

lemma b64_encode_chars:
  "c \<in> set (b64_encode bs) \<Longrightarrow> (of_char c :: nat) \<in> {43} \<union> {47..57} \<union> {61} \<union> {65..90} \<union> {97..122}"
proof -
  have q: "(of_char (b64_char q) :: nat) \<in> {43} \<union> {47..57} \<union> {61} \<union> {65..90} \<union> {97..122}" if "unat q < 64" for q
    using that by (auto simp: b64_char_code Let_def)
  show "c \<in> set (b64_encode bs) \<Longrightarrow> (of_char c :: nat) \<in> {43} \<union> {47..57} \<union> {61} \<union> {65..90} \<union> {97..122}"
  proof (induction bs rule: b64_encode.induct)
    case (1 a b c' rest)
    consider (here) "c \<in> b64_char ` set (sextets a b c')" | (rest) "c \<in> set (b64_encode rest)" using 1(2) by auto
    then show ?case by cases (use q sextets_bound 1(1) in blast)+
  next
    case (2 a b)
    then consider "c \<in> b64_char ` set (sextets a b 0)" | "c = pad_char" by (auto dest: in_set_takeD)
    then show ?case by cases (use q sextets_bound in blast, simp)
  next
    case (3 a)
    then consider "c \<in> b64_char ` set (sextets a 0 0)" | "c = pad_char" by (auto dest: in_set_takeD)
    then show ?case by cases (use q sextets_bound in blast, simp)
  qed simp
qed

lemma strip_newlines_b64: "strip_newlines (b64_encode bs) = b64_encode bs"
proof -
  have "c \<noteq> CHR 0x0D \<and> c \<noteq> CHR 0x0A" if "c \<in> set (b64_encode bs)" for c
    using b64_encode_chars [OF that] by auto
  then show ?thesis by (simp add: strip_newlines_def filter_id_conv)
qed

lemma b64_groups_encode: "b64_groups (b64_encode bs) = Some bs"
proof (induction bs rule: b64_encode.induct)
  case (1 a b c rest)
  then show ?case using sextets_bound [of a b c] by (simp add: sextets_def join_sextets)
next
  case (2 a b)
  then show ?case using sextets_bound [of a b 0] join_sextets(2) [of a b 0]
    by (simp add: sextets_def join_sextets b64_value_special)
next
  case (3 a)
  then show ?case using sextets_bound [of a 0 0] join_sextets(1) [of a 0]
    by (simp add: sextets_def b64_value_special)
next
  case 4
  then show ?case by simp
qed

lemma b64_decode_encode [simp]: "b64_decode (b64_encode bs) = Some bs"
  by (simp add: b64_decode_def strip_newlines_b64 b64_groups_encode)

interpretation b64: codec b64_encode b64_decode
  by unfold_locales simp

lemma length_b64_encode: "length (b64_encode bs) = 4 * ((length bs + 2) div 3)"
proof (induction bs rule: b64_encode.induct)
  case (1 a b c rest)
  have "(length rest + 3 + 2) div 3 = (length rest + 2) div 3 + 1" by presburger
  then show ?case using 1 by (simp add: sextets_def)
qed (simp_all add: sextets_def)

end
