(* ===== verification/Json.thy ===== *)
theory Json
  imports Decimal
begin

text \<open>
  JSON as \<^verbatim>\<open>encoding/json\<close> reads and writes it.  The bytes of a text are the characters of a
  HOL string.  The writer escapes what \<^verbatim>\<open>Marshal\<close> escapes and replaces bytes that are
  not UTF-8; the reader accepts the grammar that the library accepts, with its limit on
  the nesting depth.
\<close>

subsection \<open>UTF-8\<close>

abbreviation code :: "char \<Rightarrow> nat" where "code c \<equiv> of_char c"

definition within :: "char \<Rightarrow> nat \<Rightarrow> nat \<Rightarrow> bool" where
  "within c lo hi \<longleftrightarrow> lo \<le> code c \<and> code c \<le> hi"

text \<open>
  The number of bytes of the encoded rune at the start of a text, as in
  \<^verbatim>\<open>utf8.DecodeRune\<close>; 0 when the bytes encode none.
\<close>

definition rune_len :: "string \<Rightarrow> nat" where
  "rune_len s =
     (case s of
        [] \<Rightarrow> 0
      | a # cs \<Rightarrow>
          if code a < 0x80 then 1
          else if within a 0xC2 0xDF then
            (case cs of b # _ \<Rightarrow> if within b 0x80 0xBF then 2 else 0 | _ \<Rightarrow> 0)
          else if within a 0xE0 0xEF then
            (case cs of b # c # _ \<Rightarrow>
               if within b (if code a = 0xE0 then 0xA0 else 0x80) (if code a = 0xED then 0x9F else 0xBF) \<and>
                  within c 0x80 0xBF then 3 else 0 | _ \<Rightarrow> 0)
          else if within a 0xF0 0xF4 then
            (case cs of b # c # d # _ \<Rightarrow>
               if within b (if code a = 0xF0 then 0x90 else 0x80) (if code a = 0xF4 then 0x8F else 0xBF) \<and>
                  within c 0x80 0xBF \<and> within d 0x80 0xBF then 4 else 0 | _ \<Rightarrow> 0)
          else 0)"

text \<open>The encoding of a rune, as in \<^verbatim>\<open>utf8.EncodeRune\<close> (surrogates are never passed).\<close>

definition rune_bytes :: "nat \<Rightarrow> string" where
  "rune_bytes r =
     map char_of
       (if r < 0x80 then [r]
        else if r < 0x800 then [0xC0 + r div 64, 0x80 + r mod 64]
        else if r < 0x10000 then [0xE0 + r div 4096, 0x80 + r div 64 mod 64, 0x80 + r mod 64]
        else [0xF0 + r div 262144, 0x80 + r div 4096 mod 64, 0x80 + r div 64 mod 64, 0x80 + r mod 64])"

text \<open>\<^verbatim>\<open>U+FFFD\<close>\<close>

definition replacement :: string where
  "replacement = [CHR 0xEF, CHR 0xBF, CHR 0xBD]"

subsection \<open>Writing strings\<close>

abbreviation dquote :: char where "dquote \<equiv> CHR 0x22"
abbreviation backslash :: char where "backslash \<equiv> CHR 0x5C"

definition hex_char :: "nat \<Rightarrow> char" where
  "hex_char n = char_of (if n < 10 then 48 + n else 87 + n)"

text \<open>One character below 128; \<open><\<close>, \<open>>\<close> and \<open>&\<close> are escaped for HTML.\<close>

definition escape_ascii :: "char \<Rightarrow> string" where
  "escape_ascii c =
     (if c = dquote \<or> c = backslash then [backslash, c]
      else if code c = 8 then [backslash, CHR ''b'']
      else if code c = 12 then [backslash, CHR ''f'']
      else if code c = 10 then [backslash, CHR ''n'']
      else if code c = 13 then [backslash, CHR ''r'']
      else if code c = 9 then [backslash, CHR ''t'']
      else if code c < 32 \<or> c = CHR ''<'' \<or> c = CHR ''>'' \<or> c = CHR ''&''
      then [backslash, CHR ''u'', CHR ''0'', CHR ''0'', hex_char (code c div 16), hex_char (code c mod 16)]
      else [c])"

function escape :: "string \<Rightarrow> string" where
  "escape [] = []"
| "escape (c # cs) =
     (if code c < 0x80 then escape_ascii c @ escape cs
      else if rune_len (c # cs) = 0 then [backslash, CHR ''u'', CHR ''f'', CHR ''f'', CHR ''f'', CHR ''d''] @ escape cs
      else if take 3 (c # cs) = [CHR 0xE2, CHR 0x80, CHR 0xA8]
      then [backslash, CHR ''u'', CHR ''2'', CHR ''0'', CHR ''2'', CHR ''8''] @ escape (drop 3 (c # cs))
      else if take 3 (c # cs) = [CHR 0xE2, CHR 0x80, CHR 0xA9]
      then [backslash, CHR ''u'', CHR ''2'', CHR ''0'', CHR ''2'', CHR ''9''] @ escape (drop 3 (c # cs))
      else take (rune_len (c # cs)) (c # cs) @ escape (drop (rune_len (c # cs)) (c # cs)))"
  by pat_completeness auto
termination by (relation "measure length") auto

declare escape.simps(2) [simp del]

definition quote_string :: "string \<Rightarrow> string" where
  "quote_string s = dquote # escape s @ [dquote]"

subsection \<open>Reading strings\<close>

definition hex_val :: "char \<Rightarrow> nat option" where
  "hex_val c =
     (if within c 48 57 then Some (code c - 48)
      else if within c 97 102 then Some (code c - 87)
      else if within c 65 70 then Some (code c - 55)
      else None)"

fun hex4 :: "string \<Rightarrow> (nat \<times> string) option" where
  "hex4 (a # b # c # d # rest) =
     (case (hex_val a, hex_val b, hex_val c, hex_val d) of
        (Some p, Some q, Some r, Some s) \<Rightarrow> Some (4096 * p + 256 * q + 16 * r + s, rest)
      | _ \<Rightarrow> None)"
| "hex4 _ = None"

definition simple_escape :: "char \<Rightarrow> char option" where
  "simple_escape e =
     (if e = dquote \<or> e = backslash \<or> e = CHR ''/'' then Some e
      else if e = CHR ''b'' then Some (CHR 0x08)
      else if e = CHR ''f'' then Some (CHR 0x0C)
      else if e = CHR ''n'' then Some (CHR 0x0A)
      else if e = CHR ''r'' then Some (CHR 0x0D)
      else if e = CHR ''t'' then Some (CHR 0x09)
      else None)"

text \<open>
  After \<open>\u\<close>: a high surrogate followed by an escaped low one is one rune, any other
  surrogate is replaced.
\<close>

definition unescape_u :: "string \<Rightarrow> (string \<times> string) option" where
  "unescape_u cs =
     (case hex4 cs of
        None \<Rightarrow> None
      | Some (r, rest) \<Rightarrow>
          if r < 0xD800 \<or> 0xDFFF < r then Some (rune_bytes r, rest)
          else (case rest of
             a # b # rest1 \<Rightarrow>
               if a = backslash \<and> b = CHR ''u'' then
                 (case hex4 rest1 of
                    Some (r', rest2) \<Rightarrow>
                      if r < 0xDC00 \<and> 0xDC00 \<le> r' \<and> r' \<le> 0xDFFF
                      then Some (rune_bytes (0x10000 + (r - 0xD800) * 1024 + (r' - 0xDC00)), rest2)
                      else Some (replacement, rest)
                  | None \<Rightarrow> Some (replacement, rest))
               else Some (replacement, rest)
           | _ \<Rightarrow> Some (replacement, rest)))"

lemma hex4_rest: "hex4 cs = Some (r, rest) \<Longrightarrow> length rest < length cs"
  by (induction cs rule: hex4.induct) (auto split: option.splits)

lemma unescape_u_rest: "unescape_u cs = Some (x, rest) \<Longrightarrow> length rest < length cs"
  by (auto simp: unescape_u_def split: option.splits if_splits list.splits dest!: hex4_rest)

text \<open>The text after an opening quote: the string read and what follows its closing quote.\<close>

definition prepend :: "string \<Rightarrow> (string \<times> string) option \<Rightarrow> (string \<times> string) option" where
  "prepend s r = map_option (\<lambda>(t, rest). (s @ t, rest)) r"

function str_body :: "string \<Rightarrow> (string \<times> string) option" where
  "str_body [] = None"
| "str_body (c # cs) =
     (if c = dquote then Some ([], cs)
      else if c = backslash then
        (case cs of
           [] \<Rightarrow> None
         | e # cs' \<Rightarrow>
             if e = CHR ''u'' then
               (case unescape_u cs' of
                  None \<Rightarrow> None
                | Some (s, rest) \<Rightarrow> prepend s (str_body rest))
             else (case simple_escape e of None \<Rightarrow> None | Some d \<Rightarrow> prepend [d] (str_body cs')))
      else if code c < 0x20 then None
      else if code c < 0x80 then prepend [c] (str_body cs)
      else if rune_len (c # cs) = 0 then prepend replacement (str_body cs)
      else prepend (take (rune_len (c # cs)) (c # cs)) (str_body (drop (rune_len (c # cs)) (c # cs))))"
  by pat_completeness auto
termination
  by (relation "measure length") (auto dest: unescape_u_rest)

declare str_body.simps(2) [simp del]

subsection \<open>What is read back\<close>

text \<open>The text with every byte that belongs to no rune replaced.\<close>

function sanitize :: "string \<Rightarrow> string" where
  "sanitize [] = []"
| "sanitize (c # cs) =
     (if rune_len (c # cs) = 0 then replacement @ sanitize cs
      else take (rune_len (c # cs)) (c # cs) @ sanitize (drop (rune_len (c # cs)) (c # cs)))"
  by pat_completeness auto
termination by (relation "measure length") auto

declare sanitize.simps(2) [simp del]

definition valid_utf8 :: "string \<Rightarrow> bool" where
  "valid_utf8 s \<longleftrightarrow> sanitize s = s"

lemma within_ascii: "within c lo hi \<Longrightarrow> 0x80 \<le> lo \<Longrightarrow> 0x80 \<le> code c"
  by (simp add: within_def)

lemma rune_len_ascii: "code c < 0x80 \<Longrightarrow> rune_len (c # cs) = 1"
  by (simp add: rune_len_def)

lemma rune_len_bounds: "rune_len s \<le> length s" "rune_len s \<le> 4"
  by (auto simp: rune_len_def split: list.splits if_splits)

lemma rune_len_prefix:
  assumes "rune_len s \<noteq> 0"
  shows "rune_len (take (rune_len s) s @ t) = rune_len s"
proof -
  obtain a cs where s: "s = a # cs" using assms by (cases s) (auto simp: rune_len_def)
  show ?thesis
  proof (cases "code a < 0x80")
    case True
    then show ?thesis by (simp add: s rune_len_ascii)
  next
    case big: False
    show ?thesis
    proof (cases "within a 0xC2 0xDF")
      case True
      then obtain b t' where "cs = b # t'" "within b 0x80 0xBF"
        using assms big by (cases cs) (simp_all add: s rune_len_def split: if_splits)
      then show ?thesis using big True by (simp add: s rune_len_def)
    next
      case c2: False
      show ?thesis
      proof (cases "within a 0xE0 0xEF")
        case True
        then obtain b c t' where "cs = b # c # t'"
          "within b (if code a = 0xE0 then 0xA0 else 0x80) (if code a = 0xED then 0x9F else 0xBF)" "within c 0x80 0xBF"
          using assms big c2 unfolding s rune_len_def list.case by (simp split: list.splits if_split_asm)
        then show ?thesis using big c2 True by (simp add: s rune_len_def del: if_split)
      next
        case e0: False
        then have "within a 0xF0 0xF4" using assms big c2 by (simp add: s rune_len_def split: if_splits)
        moreover from this obtain b c d t' where "cs = b # c # d # t'"
          "within b (if code a = 0xF0 then 0x90 else 0x80) (if code a = 0xF4 then 0x8F else 0xBF)"
          "within c 0x80 0xBF" "within d 0x80 0xBF"
          using assms big c2 e0 unfolding s rune_len_def list.case by (simp split: list.splits if_split_asm)
        ultimately show ?thesis using big c2 e0 by (simp add: s rune_len_def del: if_split)
      qed
    qed
  qed
qed

lemma hex_val_char: "n < 16 \<Longrightarrow> hex_val (hex_char n) = Some n"
  by (simp add: hex_val_def hex_char_def within_def)

lemma char_of_code [simp]: "char_of (code c) = c"
  by simp

lemma str_body_plain:
  "c \<noteq> dquote \<Longrightarrow> c \<noteq> backslash \<Longrightarrow> 0x20 \<le> code c \<Longrightarrow> code c < 0x80 \<Longrightarrow> str_body (c # t) = prepend [c] (str_body t)"
  by (subst str_body.simps) simp

lemma str_body_simple:
  "e \<noteq> CHR ''u'' \<Longrightarrow> simple_escape e = Some d \<Longrightarrow> str_body (backslash # e # t) = prepend [d] (str_body t)"
  by (subst str_body.simps) simp

lemma str_body_u:
  "hex4 t = Some (r, rest) \<Longrightarrow> r < 0xD800 \<or> 0xDFFF < r \<Longrightarrow>
   str_body (backslash # CHR ''u'' # t) = prepend (rune_bytes r) (str_body rest)"
  by (subst str_body.simps) (simp add: unescape_u_def)

lemma str_body_rune:
  assumes "0x80 \<le> code c" and "rune_len (c # cs) \<noteq> 0"
  shows "str_body (take (rune_len (c # cs)) (c # cs) @ t) = prepend (take (rune_len (c # cs)) (c # cs)) (str_body t)"
proof -
  let ?k = "rune_len (c # cs)"
  obtain x where x: "take ?k (c # cs) = c # x" using assms(2) by (cases ?k) auto
  have len: "length (take ?k (c # cs)) = ?k" using rune_len_bounds(1) [of "c # cs"] by simp
  then have lx: "length (c # x) = ?k" unfolding x .
  have k: "rune_len (c # x @ t) = ?k" using rune_len_prefix [OF assms(2), of t] unfolding x by simp
  have "c \<noteq> dquote" "c \<noteq> backslash" using assms(1) by auto
  then have "str_body (c # x @ t) = prepend (take ?k (c # x @ t)) (str_body (drop ?k (c # x @ t)))"
    using assms k by (subst str_body.simps) simp
  moreover have "take ?k (c # x @ t) = c # x" "drop ?k (c # x @ t) = t"
    using lx by (simp_all flip: lx)
  ultimately show ?thesis unfolding x by simp
qed

lemma code_char: "code c = n \<Longrightarrow> c = char_of n"
  by auto

lemma str_body_escape_ascii:
  assumes "code c < 0x80"
  shows "str_body (escape_ascii c @ t) = prepend [c] (str_body t)"
proof -
  consider (q) "c = dquote \<or> c = backslash" | (e) n where "n \<in> {8, 12, 10, 13, 9}" "code c = n"
    | (u) "c \<noteq> dquote" "c \<noteq> backslash" "code c \<notin> {8, 12, 10, 13, 9}"
        "code c < 32 \<or> c = CHR ''<'' \<or> c = CHR ''>'' \<or> c = CHR ''&''"
    | (p) "c \<noteq> dquote" "c \<noteq> backslash" "32 \<le> code c" "c \<noteq> CHR ''<''" "c \<noteq> CHR ''>''" "c \<noteq> CHR ''&''"
    by (metis not_less)
  then show ?thesis
  proof cases
    case q
    then show ?thesis by (auto simp: escape_ascii_def str_body_simple simple_escape_def)
  next
    case (e n)
    then have "code c = code CHR 0x08 \<or> code c = code CHR 0x0C \<or> code c = code CHR 0x0A \<or>
        code c = code CHR 0x0D \<or> code c = code CHR 0x09" by auto
    then have "c = CHR 0x08 \<or> c = CHR 0x0C \<or> c = CHR 0x0A \<or> c = CHR 0x0D \<or> c = CHR 0x09"
      by (simp only: of_char_eq_iff)
    then show ?thesis by (elim disjE) (simp_all add: escape_ascii_def str_body_simple simple_escape_def)
  next
    case u
    then have esc: "escape_ascii c = [backslash, CHR ''u'', CHR ''0'', CHR ''0'', hex_char (code c div 16), hex_char (code c mod 16)]"
      unfolding escape_ascii_def by simp
    have "code c div 16 < 16" "code c mod 16 < 16" using assms by auto
    moreover have "hex_val (CHR ''0'') = Some 0" by (simp add: hex_val_def within_def)
    ultimately have "hex4 (CHR ''0'' # CHR ''0'' # hex_char (code c div 16) # hex_char (code c mod 16) # t) = Some (code c, t)"
      by (simp add: hex_val_char)
    moreover have "rune_bytes (code c) = [c]" using assms by (simp add: rune_bytes_def)
    ultimately show ?thesis unfolding esc using assms by (simp add: str_body_u)
  next
    case p
    then have "escape_ascii c = [c]" by (auto simp: escape_ascii_def)
    then show ?thesis using p assms by (simp add: str_body_plain)
  qed
qed

lemma str_body_escape: "str_body (escape s @ dquote # rest) = Some (sanitize s, rest)"
proof (induction s rule: escape.induct)
  case 1
  show ?case by (simp add: str_body.simps(2))
next
  case (2 c cs)
  let ?k = "rune_len (c # cs)"
  consider (ascii) "code c < 0x80" | (bad) "0x80 \<le> code c" "?k = 0" | (rune) "0x80 \<le> code c" "?k \<noteq> 0" by linarith
  then show ?case
  proof cases
    case ascii
    then have "escape (c # cs) = escape_ascii c @ escape cs" "sanitize (c # cs) = c # sanitize cs"
      by (simp_all add: escape.simps(2) sanitize.simps(2) rune_len_ascii)
    then show ?thesis using 2(1) [OF ascii] ascii by (simp add: str_body_escape_ascii prepend_def)
  next
    case bad
    then have "escape (c # cs) = [backslash, CHR ''u'', CHR ''f'', CHR ''f'', CHR ''f'', CHR ''d''] @ escape cs"
      "sanitize (c # cs) = replacement @ sanitize cs"
      by (simp_all add: escape.simps(2) sanitize.simps(2))
    moreover have "hex4 (CHR ''f'' # CHR ''f'' # CHR ''f'' # CHR ''d'' # t) = Some (0xFFFD, t)" for t
      by (simp add: hex_val_def within_def)
    moreover have "rune_bytes 0xFFFD = replacement"
      by (simp add: rune_bytes_def replacement_def char_of_def bit_iff_odd)
    ultimately show ?thesis using 2(2) bad by (simp add: str_body_u prepend_def)
  next
    case rune
    have san: "sanitize (c # cs) = take ?k (c # cs) @ sanitize (drop ?k (c # cs))"
      using rune by (simp add: sanitize.simps(2))
    show ?thesis
    proof (cases "take 3 (c # cs) \<in> {[CHR 0xE2, CHR 0x80, CHR 0xA8], [CHR 0xE2, CHR 0x80, CHR 0xA9]}")
      case sep: True
      then obtain d t where cs: "c = CHR 0xE2" "cs = CHR 0x80 # d # t" "d = CHR 0xA8 \<or> d = CHR 0xA9"
      proof -
        obtain x where x: "take 3 (c # cs) = [CHR 0xE2, CHR 0x80, x]" "x = CHR 0xA8 \<or> x = CHR 0xA9" using sep by blast
        have "[CHR 0xE2, CHR 0x80, x] @ drop 3 (c # cs) = c # cs"
          using append_take_drop_id [of 3 "c # cs"] unfolding x(1) .
        then obtain t where "c # cs = [CHR 0xE2, CHR 0x80, x] @ t" by metis
        then show thesis using that x(2) by simp
      qed
      then have k: "?k = 3" by (auto simp: rune_len_def within_def)
      have h: "hex4 (CHR ''2'' # CHR ''0'' # CHR ''2'' # CHR ''8'' # u) = Some (0x2028, u)"
        "hex4 (CHR ''2'' # CHR ''0'' # CHR ''2'' # CHR ''9'' # u) = Some (0x2029, u)" for u
        by (simp_all add: hex_val_def within_def)
      have r: "rune_bytes 0x2028 = [CHR 0xE2, CHR 0x80, CHR 0xA8]" "rune_bytes 0x2029 = [CHR 0xE2, CHR 0x80, CHR 0xA9]"
        by (simp_all add: rune_bytes_def char_of_def bit_iff_odd)
      have IH: "str_body (escape t @ dquote # rest) = Some (sanitize t, rest)"
        using 2(3,4) rune cs k by (auto simp: eval_nat_numeral)
      have b: "str_body (backslash # CHR ''u'' # CHR ''2'' # CHR ''0'' # CHR ''2'' # CHR ''8'' # u) = prepend [CHR 0xE2, CHR 0x80, CHR 0xA8] (str_body u)"
        "str_body (backslash # CHR ''u'' # CHR ''2'' # CHR ''0'' # CHR ''2'' # CHR ''9'' # u) = prepend [CHR 0xE2, CHR 0x80, CHR 0xA9] (str_body u)" for u
        using str_body_u [OF h(1)] str_body_u [OF h(2)] r by simp_all
      have san': "sanitize (c # cs) = [c, CHR 0x80, d] @ sanitize t"
        unfolding san k using cs(2) by (simp add: eval_nat_numeral)
      have esc: "escape (c # cs) = [backslash, CHR ''u'', CHR ''2'', CHR ''0'', CHR ''2'',
          if d = CHR 0xA8 then CHR ''8'' else CHR ''9''] @ escape t"
        using cs rune by (subst escape.simps(2)) (auto simp: eval_nat_numeral)
      show ?thesis unfolding esc san' using cs(1,3) IH b by (auto simp: prepend_def)
    next
      case False
      then have "escape (c # cs) = take ?k (c # cs) @ escape (drop ?k (c # cs))"
        using rune by (auto simp: escape.simps(2))
      moreover have "str_body (escape (drop ?k (c # cs)) @ dquote # rest) = Some (sanitize (drop ?k (c # cs)), rest)"
        using 2(5) rune False by auto
      ultimately show ?thesis using str_body_rune [OF rune] san by (simp add: prepend_def)
    qed
  qed
qed

subsection \<open>Values\<close>

text \<open>A number is kept as its literal, an object as its members in the order of the text.\<close>

datatype json =
    JNull
  | JBool bool
  | JNum string
  | JStr string
  | JArr "json list"
  | JObj "(string \<times> json) list"

fun json_print :: "json \<Rightarrow> string"
  and print_elems :: "json list \<Rightarrow> string"
  and print_members :: "(string \<times> json) list \<Rightarrow> string" where
  "json_print JNull = ''null''"
| "json_print (JBool b) = (if b then ''true'' else ''false'')"
| "json_print (JNum n) = n"
| "json_print (JStr s) = quote_string s"
| "json_print (JArr vs) = CHR ''['' # print_elems vs"
| "json_print (JObj ms) = CHR ''{'' # print_members ms"
| "print_elems [] = '']''"
| "print_elems [v] = json_print v @ '']''"
| "print_elems (v # v' # vs) = json_print v @ '','' @ print_elems (v' # vs)"
| "print_members [] = ''}''"
| "print_members [(k, v)] = quote_string k @ '':'' @ json_print v @ ''}''"
| "print_members ((k, v) # m # ms) = quote_string k @ '':'' @ json_print v @ '','' @ print_members (m # ms)"

text \<open>Literals of numbers\<close>

definition lex_int :: "string \<Rightarrow> (string \<times> string) option" where
  "lex_int s =
     (case s of
        [] \<Rightarrow> None
      | c # cs \<Rightarrow>
          if c = CHR ''0'' then Some ([c], cs)
          else if is_digit c then Some (takeWhile is_digit s, dropWhile is_digit s)
          else None)"

definition lex_digits :: "string \<Rightarrow> (string \<times> string) option" where
  "lex_digits s =
     (if takeWhile is_digit s = [] then None else Some (takeWhile is_digit s, dropWhile is_digit s))"

definition lex_frac :: "string \<Rightarrow> (string \<times> string) option" where
  "lex_frac s =
     (case s of
        c # cs \<Rightarrow> if c = CHR ''.'' then map_option (\<lambda>(d, r). (c # d, r)) (lex_digits cs) else Some ([], s)
      | [] \<Rightarrow> Some ([], s))"

definition lex_exp :: "string \<Rightarrow> (string \<times> string) option" where
  "lex_exp s =
     (case s of
        c # cs \<Rightarrow>
          if c = CHR ''e'' \<or> c = CHR ''E'' then
            (case cs of
               g # cs' \<Rightarrow>
                 if g = CHR ''+'' \<or> g = CHR ''-''
                 then map_option (\<lambda>(d, r). (c # g # d, r)) (lex_digits cs')
                 else map_option (\<lambda>(d, r). (c # d, r)) (lex_digits cs)
             | [] \<Rightarrow> None)
          else Some ([], s)
      | [] \<Rightarrow> Some ([], s))"

definition lex_unsigned :: "string \<Rightarrow> (string \<times> string) option" where
  "lex_unsigned s =
     Option.bind (lex_int s) (\<lambda>(i, r1).
     Option.bind (lex_frac r1) (\<lambda>(f, r2).
     Option.bind (lex_exp r2) (\<lambda>(e, r3). Some (i @ f @ e, r3))))"

definition lex_number :: "string \<Rightarrow> (string \<times> string) option" where
  "lex_number s =
     (case s of
        c # cs \<Rightarrow> if c = CHR ''-'' then map_option (\<lambda>(n, r). (c # n, r)) (lex_unsigned cs) else lex_unsigned s
      | [] \<Rightarrow> None)"

text \<open>White space\<close>

definition is_space :: "char \<Rightarrow> bool" where
  "is_space c \<longleftrightarrow> c = CHR '' '' \<or> c = CHR 0x09 \<or> c = CHR 0x0D \<or> c = CHR 0x0A"

definition skip_ws :: "string \<Rightarrow> string" where
  "skip_ws s = dropWhile is_space s"

text \<open>\<^verbatim>\<open>maxNestingDepth\<close> of the library\<close>

definition max_depth :: nat where
  "max_depth = 10000"

text \<open>
  The first argument is fuel, the second the number of enclosing arrays and objects.  Every
  call is made on a text that has lost a character since the last but one call, so twice the
  length of the text is fuel enough (\<open>parse_fuel\<close> below).
\<close>

fun parse_value :: "nat \<Rightarrow> nat \<Rightarrow> string \<Rightarrow> (json \<times> string) option"
  and parse_elems :: "nat \<Rightarrow> nat \<Rightarrow> string \<Rightarrow> (json list \<times> string) option"
  and parse_members :: "nat \<Rightarrow> nat \<Rightarrow> string \<Rightarrow> ((string \<times> json) list \<times> string) option" where
  "parse_value 0 d s = None"
| "parse_value (Suc n) d s =
     (case s of
        [] \<Rightarrow> None
      | c # cs \<Rightarrow>
          if c = CHR ''{'' then
            (if d \<ge> max_depth then None
             else case skip_ws cs of
                [] \<Rightarrow> None
              | c' # cs' \<Rightarrow>
                  if c' = CHR ''}'' then Some (JObj [], cs')
                  else map_option (\<lambda>(ms, r). (JObj ms, r)) (parse_members n (Suc d) (c' # cs')))
          else if c = CHR ''['' then
            (if d \<ge> max_depth then None
             else case skip_ws cs of
                [] \<Rightarrow> None
              | c' # cs' \<Rightarrow>
                  if c' = CHR '']'' then Some (JArr [], cs')
                  else map_option (\<lambda>(vs, r). (JArr vs, r)) (parse_elems n (Suc d) (c' # cs')))
          else if c = dquote then map_option (\<lambda>(t, r). (JStr t, r)) (str_body cs)
          else if take 4 s = ''null'' then Some (JNull, drop 4 s)
          else if take 4 s = ''true'' then Some (JBool True, drop 4 s)
          else if take 5 s = ''false'' then Some (JBool False, drop 5 s)
          else map_option (\<lambda>(t, r). (JNum t, r)) (lex_number s))"
| "parse_elems 0 d s = None"
| "parse_elems (Suc n) d s =
     (case parse_value n d s of
        None \<Rightarrow> None
      | Some (v, r) \<Rightarrow>
          (case skip_ws r of
             [] \<Rightarrow> None
           | c # r' \<Rightarrow>
               if c = CHR '','' then map_option (\<lambda>(vs, r''). (v # vs, r'')) (parse_elems n d (skip_ws r'))
               else if c = CHR '']'' then Some ([v], r')
               else None))"
| "parse_members 0 d s = None"
| "parse_members (Suc n) d s =
     (case s of
        [] \<Rightarrow> None
      | q # cs \<Rightarrow>
          if q \<noteq> dquote then None
          else case str_body cs of
            None \<Rightarrow> None
          | Some (k, r) \<Rightarrow>
              (case skip_ws r of
                 [] \<Rightarrow> None
               | c # r1 \<Rightarrow>
                   if c \<noteq> CHR '':'' then None
                   else case parse_value n d (skip_ws r1) of
                     None \<Rightarrow> None
                   | Some (v, r2) \<Rightarrow>
                       (case skip_ws r2 of
                          [] \<Rightarrow> None
                        | e # r3 \<Rightarrow>
                            if e = CHR '','' then map_option (\<lambda>(ms, r4). ((k, v) # ms, r4)) (parse_members n d (skip_ws r3))
                            else if e = CHR ''}'' then Some ([(k, v)], r3)
                            else None)))"

text \<open>\<^verbatim>\<open>Decoder.Decode\<close> reads the first value of a text, \<^verbatim>\<open>Unmarshal\<close> wants nothing after it.\<close>

definition json_first :: "string \<Rightarrow> json option" where
  "json_first s = map_option fst (parse_value (2 * length s + 2) 0 (skip_ws s))"

definition json_parse :: "string \<Rightarrow> json option" where
  "json_parse s =
     (case parse_value (2 * length s + 2) 0 (skip_ws s) of
        None \<Rightarrow> None
      | Some (v, r) \<Rightarrow> if skip_ws r = [] then Some v else None)"

subsection \<open>The fuel is enough\<close>

lemma str_body_rest: "str_body s = Some (t, r) \<Longrightarrow> length r < length s"
proof (induction s arbitrary: t r rule: str_body.induct)
  case 1
  then show ?case by simp
next
  case (2 c cs)
  have step: "length r < Suc (length cs)" if p: "prepend x (str_body u) = Some (t, r)" and l: "length u \<le> length cs"
    and IH: "\<And>t r. str_body u = Some (t, r) \<Longrightarrow> length r < length u" for x u
  proof -
    obtain t' where "str_body u = Some (t', r)" using p by (cases "str_body u") (auto simp: prepend_def)
    then show ?thesis using l IH by fastforce
  qed
  consider (q) "c = dquote" | (u) e cs' where "c = backslash" "cs = e # cs'" "e = CHR ''u''"
    | (e) e cs' where "c = backslash" "cs = e # cs'" "e \<noteq> CHR ''u''"
    | (a) "c \<noteq> dquote" "c \<noteq> backslash" "0x20 \<le> code c" "code c < 0x80"
    | (z) "c \<noteq> dquote" "c \<noteq> backslash" "0x80 \<le> code c" "rune_len (c # cs) = 0"
    | (k) "c \<noteq> dquote" "c \<noteq> backslash" "0x80 \<le> code c" "rune_len (c # cs) \<noteq> 0"
    using 2(6) by (cases cs) (force simp: str_body.simps(2) split: if_splits)+
  then show ?case
  proof cases
    case q
    then show ?thesis using 2(6) by (simp add: str_body.simps(2))
  next
    case u
    then obtain s rest where s: "unescape_u cs' = Some (s, rest)" "prepend s (str_body rest) = Some (t, r)"
      using 2(6) by (auto simp: str_body.simps(2) split: option.splits)
    have "length rest \<le> length cs" using unescape_u_rest [OF s(1)] u by simp
    moreover have "\<And>t r. str_body rest = Some (t, r) \<Longrightarrow> length r < length rest"
      using 2(1) u s by auto
    ultimately show ?thesis using step [OF s(2)] by simp
  next
    case e
    then obtain d where "simple_escape e = Some d" "prepend [d] (str_body cs') = Some (t, r)"
      using 2(6) by (auto simp: str_body.simps(2) split: option.splits)
    then show ?thesis using step [of "[d]" cs'] 2(2) e by auto
  next
    case a
    then have "prepend [c] (str_body cs) = Some (t, r)" using 2(6) by (simp add: str_body.simps(2))
    then show ?thesis using step [of "[c]" cs] 2(3) a by auto
  next
    case z
    then have "prepend replacement (str_body cs) = Some (t, r)" using 2(6) by (simp add: str_body.simps(2))
    then show ?thesis using step [of replacement cs] 2(4) z by auto
  next
    case k
    let ?k = "rune_len (c # cs)"
    have "prepend (take ?k (c # cs)) (str_body (drop ?k (c # cs))) = Some (t, r)"
      using 2(6) k by (simp add: str_body.simps(2))
    moreover have "length (drop ?k (c # cs)) \<le> length cs" using k(4) by simp
    moreover have "\<And>t r. str_body (drop ?k (c # cs)) = Some (t, r) \<Longrightarrow> length r < length (drop ?k (c # cs))"
      using 2(5) k by simp
    ultimately show ?thesis using step by simp
  qed
qed

lemma takeWhile_nonempty: "takeWhile P s \<noteq> [] \<Longrightarrow> length (dropWhile P s) < length s"
  by (cases s) (auto simp: length_dropWhile_le less_Suc_eq_le split: if_splits)

lemma lex_rest:
  "lex_int s = Some (t, r) \<Longrightarrow> length r < length s"
  "lex_digits s = Some (t, r) \<Longrightarrow> length r < length s"
  "lex_frac s = Some (t, r) \<Longrightarrow> length r \<le> length s"
  "lex_exp s = Some (t, r) \<Longrightarrow> length r \<le> length s"
proof -
  show int: "length r < length s" if "lex_int s = Some (t, r)" for s t r
    using that length_dropWhile_le [of is_digit] by (auto simp: lex_int_def less_Suc_eq_le split: list.splits if_splits)
  show digits: "length r < length s" if "lex_digits s = Some (t, r)" for s t r
    using that takeWhile_nonempty [of is_digit s] by (auto simp: lex_digits_def split: if_splits)
  show "length r \<le> length s" if "lex_frac s = Some (t, r)" for s t r
    using that by (auto simp: lex_frac_def split: list.splits if_splits dest!: digits)
  show "length r \<le> length s" if "lex_exp s = Some (t, r)" for s t r
    using that by (auto simp: lex_exp_def split: list.splits if_splits dest!: digits)
qed

lemma lex_number_rest: "lex_number s = Some (t, r) \<Longrightarrow> length r < length s"
proof -
  have "length r < length s" if "lex_unsigned s = Some (t, r)" for s t r
    using that by (fastforce simp: lex_unsigned_def bind_eq_Some_conv dest: lex_rest(1,3,4))
  then show "lex_number s = Some (t, r) \<Longrightarrow> length r < length s"
    by (fastforce simp: lex_number_def split: list.splits if_splits)
qed

lemma skip_ws_length: "length (skip_ws s) \<le> length s"
  by (simp add: skip_ws_def length_dropWhile_le)

lemma skip_ws_Cons: "skip_ws s = c # r \<Longrightarrow> length r < length s"
  using skip_ws_length [of s] by simp

lemma parse_rest_all:
  "(\<forall>d s v r. parse_value n d s = Some (v, r) \<longrightarrow> length r < length s) \<and>
   (\<forall>d s vs r. parse_elems n d s = Some (vs, r) \<longrightarrow> length r < length s) \<and>
   (\<forall>d s ms r. parse_members n d s = Some (ms, r) \<longrightarrow> length r < length s)"
proof (induction n)
  case 0
  show ?case by simp
next
  case (Suc n)
  note V = Suc.IH [THEN conjunct1, rule_format]
    and E = Suc.IH [THEN conjunct2, THEN conjunct1, rule_format]
    and M = Suc.IH [THEN conjunct2, THEN conjunct2, rule_format]
  have vals: "length r < length s" if p: "parse_value (Suc n) d s = Some (v, r)" for d s v r
  proof -
    obtain c cs where s: "s = c # cs" using p by (cases s) auto
    consider (obj) "c = CHR ''{''" | (arr) "c = CHR ''[''" | (str) "c = dquote"
      | (rest) "c \<noteq> CHR ''{''" "c \<noteq> CHR ''[''" "c \<noteq> dquote" by blast
    then show ?thesis
    proof cases
      case obj
      then obtain c' cs' where w: "skip_ws cs = c' # cs'" using p s by (auto split: if_splits list.splits)
      then have "length r < Suc (length cs')"
        using p s obj M [of "Suc d" "c' # cs'"] by (auto split: if_splits)
      then show ?thesis using skip_ws_Cons [OF w] s by simp
    next
      case arr
      then obtain c' cs' where w: "skip_ws cs = c' # cs'" using p s by (auto split: if_splits list.splits)
      then have "length r < Suc (length cs')"
        using p s arr E [of "Suc d" "c' # cs'"] by (auto split: if_splits)
      then show ?thesis using skip_ws_Cons [OF w] s by simp
    next
      case str
      then show ?thesis using p s str_body_rest [of cs] by fastforce
    next
      case rest
      then show ?thesis using p s lex_number_rest [of s] by (auto split: if_splits)
    qed
  qed
  have elems: "length r < length s" if p: "parse_elems (Suc n) d s = Some (vs, r)" for d s vs r
  proof -
    obtain v r1 where v: "parse_value n d s = Some (v, r1)" using p by (auto split: option.splits)
    obtain c r2 where w: "skip_ws r1 = c # r2" using p v by (auto split: list.splits)
    have "length r2 < length s" using V [OF v] skip_ws_Cons [OF w] by simp
    moreover have "length r \<le> length r2"
      using p v w E [of d "skip_ws r2"] skip_ws_length [of r2] by (fastforce split: if_splits)
    ultimately show ?thesis by simp
  qed
  have members: "length r < length s" if p: "parse_members (Suc n) d s = Some (ms, r)" for d s ms r
  proof -
    obtain cs k r0 where s: "s = dquote # cs" and k: "str_body cs = Some (k, r0)"
      using p by (auto split: list.splits if_splits option.splits)
    obtain r1 where r1: "skip_ws r0 = CHR '':'' # r1" using p s k by (auto split: list.splits if_splits)
    obtain v r2 where v: "parse_value n d (skip_ws r1) = Some (v, r2)" using p s k r1 by (auto split: option.splits)
    obtain e r3 where e: "skip_ws r2 = e # r3" using p s k r1 v by (auto split: list.splits)
    have "length r0 < length cs" by (rule str_body_rest [OF k])
    moreover have "length r1 < length r0" by (rule skip_ws_Cons [OF r1])
    moreover have "length r2 < length r1" using V [OF v] skip_ws_length [of r1] by simp
    moreover have "length r3 < length r2" by (rule skip_ws_Cons [OF e])
    moreover have "length r \<le> length r3"
      using p s k r1 v e M [of d "skip_ws r3"] skip_ws_length [of r3] by (fastforce split: if_splits)
    ultimately show ?thesis using s by simp
  qed
  show ?case using vals elems members by blast
qed

lemmas parse_rest = parse_rest_all [THEN conjunct1, rule_format] parse_rest_all [THEN conjunct2, THEN conjunct1, rule_format]
  parse_rest_all [THEN conjunct2, THEN conjunct2, rule_format]

lemma parse_fuel_all:
  "(\<forall>d s. 2 * length s + 1 \<le> n \<longrightarrow> parse_value (Suc n) d s = parse_value n d s) \<and>
   (\<forall>d s. 2 * length s + 2 \<le> n \<longrightarrow> parse_elems (Suc n) d s = parse_elems n d s) \<and>
   (\<forall>d s. 2 * length s + 2 \<le> n \<longrightarrow> parse_members (Suc n) d s = parse_members n d s)"
proof (induction n)
  case 0
  show ?case by simp
next
  case (Suc n)
  note V = Suc.IH [THEN conjunct1, rule_format]
    and E = Suc.IH [THEN conjunct2, THEN conjunct1, rule_format]
    and M = Suc.IH [THEN conjunct2, THEN conjunct2, rule_format]
  have vals: "parse_value (Suc (Suc n)) d s = parse_value (Suc n) d s" if n: "2 * length s + 1 \<le> Suc n" for d s
  proof (cases s)
    case (Cons c cs)
    have "parse_elems (Suc n) (Suc d) (c' # cs') = parse_elems n (Suc d) (c' # cs')"
      "parse_members (Suc n) (Suc d) (c' # cs') = parse_members n (Suc d) (c' # cs')" if "skip_ws cs = c' # cs'" for c' cs'
      using E [of "c' # cs'"] M [of "c' # cs'"] skip_ws_Cons [OF that] n Cons by simp_all
    then show ?thesis unfolding Cons parse_value.simps(2) list.case
      by (cases "skip_ws cs") (auto simp del: parse_elems.simps parse_members.simps)
  qed simp
  have elems: "parse_elems (Suc (Suc n)) d s = parse_elems (Suc n) d s" if n: "2 * length s + 2 \<le> Suc n" for d s
  proof (cases "parse_value n d s")
    case None
    then show ?thesis using V [of s d] n by (simp only: parse_elems.simps(2)) simp
  next
    case (Some x)
    obtain v r where v: "parse_value n d s = Some (v, r)" using Some by (cases x) auto
    have v': "parse_value (Suc n) d s = Some (v, r)" using V [of s d] n v by simp
    have "parse_elems (Suc n) d (skip_ws r') = parse_elems n d (skip_ws r')" if "skip_ws r = c # r'" for c r'
      using E [of "skip_ws r'" d] parse_rest(1) [OF v] skip_ws_Cons [OF that] skip_ws_length [of r'] n by simp
    then show ?thesis by (simp only: parse_elems.simps(2) v v') (simp split: list.split)
  qed
  have members: "parse_members (Suc (Suc n)) d s = parse_members (Suc n) d s" if n: "2 * length s + 2 \<le> Suc n" for d s
  proof (cases s)
    case (Cons q cs)
    have val: "parse_value (Suc n) d (skip_ws r1) = parse_value n d (skip_ws r1)"
      if "str_body cs = Some (k, r)" "skip_ws r = c # r1" for k r c r1
      using V [of "skip_ws r1" d] str_body_rest [OF that(1)] skip_ws_Cons [OF that(2)] skip_ws_length [of r1] n Cons by simp
    have mem: "parse_members (Suc n) d (skip_ws r3) = parse_members n d (skip_ws r3)"
      if "str_body cs = Some (k, r)" "skip_ws r = c # r1" "parse_value n d (skip_ws r1) = Some (v, r2)" "skip_ws r2 = e # r3"
      for k r c r1 v r2 e r3
      using M [of "skip_ws r3" d] str_body_rest [OF that(1)] skip_ws_Cons [OF that(2)] skip_ws_length [of r1]
        parse_rest(1) [OF that(3)] skip_ws_Cons [OF that(4)] skip_ws_length [of r3] n Cons by simp
    note unfold = Cons parse_members.simps(2) list.case
    show ?thesis
    proof (cases "q = dquote \<and> (\<exists>k r r1. str_body cs = Some (k, r) \<and> skip_ws r = CHR '':'' # r1)")
      case True
      then obtain k r r1 where q: "q = dquote" and k: "str_body cs = Some (k, r)" and r1: "skip_ws r = CHR '':'' # r1" by blast
      note v = val [OF k r1]
      show ?thesis
      proof (cases "parse_value n d (skip_ws r1)")
        case None
        then show ?thesis unfolding unfold by (simp add: q k r1 v del: parse_value.simps)
      next
        case (Some x)
        then obtain y r2 where y: "parse_value n d (skip_ws r1) = Some (y, r2)" by (cases x) auto
        show ?thesis
        proof (cases "skip_ws r2")
          case Nil
          then show ?thesis unfolding unfold by (simp add: q k r1 v y del: parse_value.simps)
        next
          case e: (Cons e r3)
          show ?thesis unfolding Cons
            by (subst (1 2) parse_members.simps(2))
              (simp add: q k r1 v y e mem [OF k r1 y e] del: parse_value.simps parse_members.simps)
        qed
      qed
    next
      case False
      have "parse_members (Suc m) d (q # cs) = None" for m
      proof (cases "str_body cs")
        case None
        then show ?thesis by (subst parse_members.simps(2)) (simp del: parse_value.simps parse_members.simps)
      next
        case (Some x)
        obtain k r where k: "str_body cs = Some (k, r)" using Some by (cases x) auto
        show ?thesis
        proof (cases "skip_ws r")
          case Nil
          then show ?thesis by (subst parse_members.simps(2)) (simp add: k del: parse_value.simps parse_members.simps)
        next
          case c: (Cons c r1)
          have "q \<noteq> dquote \<or> c \<noteq> CHR '':''" using False k c by auto
          then show ?thesis
            by (subst parse_members.simps(2)) (auto simp: k c simp del: parse_value.simps parse_members.simps)
        qed
      qed
      then show ?thesis unfolding Cons by simp
    qed
  qed simp
  show ?case using vals elems members by blast
qed

lemma parse_fuel:
  assumes "2 * length s + 1 \<le> n"
  shows "parse_value n d s = parse_value (2 * length s + 1) d s"
  using assms
proof (induction n rule: dec_induct)
  case (step n)
  then show ?case using parse_fuel_all [of n] by simp
qed simp

subsection \<open>Reading what was written\<close>

text \<open>
  Values that the writer prints faithfully: numbers are literals of naturals, strings are
  UTF-8 and the nesting is at most \<open>m\<close> deep.
\<close>

fun printable :: "nat \<Rightarrow> json \<Rightarrow> bool" where
  "printable m (JNum n) \<longleftrightarrow> n \<noteq> [] \<and> list_all is_digit n \<and> (hd n = CHR ''0'' \<longrightarrow> n = ''0'')"
| "printable m (JStr s) \<longleftrightarrow> valid_utf8 s"
| "printable m (JArr vs) \<longleftrightarrow> (case m of 0 \<Rightarrow> False | Suc k \<Rightarrow> \<forall>v \<in> set vs. printable k v)"
| "printable m (JObj ms) \<longleftrightarrow>
     (case m of 0 \<Rightarrow> False | Suc k \<Rightarrow> \<forall>p \<in> set ms. valid_utf8 (fst p) \<and> printable k (snd p))"
| "printable m _ \<longleftrightarrow> True"

definition delimited :: "string \<Rightarrow> bool" where
  "delimited s \<longleftrightarrow> (case s of [] \<Rightarrow> True
     | c # _ \<Rightarrow> \<not> is_digit c \<and> c \<noteq> CHR ''.'' \<and> c \<noteq> CHR ''e'' \<and> c \<noteq> CHR ''E'')"

lemma delimited_simps [simp]:
  "delimited []" "delimited (CHR '','' # s)" "delimited (CHR '']'' # s)" "delimited (CHR ''}'' # s)"
  by (simp_all add: delimited_def is_digit_def)

lemma takeWhile_all: "list_all P n \<Longrightarrow> takeWhile P (n @ rest) = n @ takeWhile P rest"
  by (induction n) auto

lemma lex_number_print:
  assumes "n \<noteq> []" "list_all is_digit n" "hd n = CHR ''0'' \<longrightarrow> n = ''0''" "delimited rest"
  shows "lex_number (n @ rest) = Some (n, rest)"
proof -
  obtain c cs where n: "n = c # cs" using assms(1) by (cases n) auto
  have c: "is_digit c" "c \<noteq> CHR ''-''" using assms(2) by (auto simp: n is_digit_def)
  have t: "takeWhile is_digit (n @ rest) = n"
    using assms(2,4) by (cases rest) (auto simp: takeWhile_all delimited_def list_all_iff takeWhile_eq_all_conv)
  then have d: "dropWhile is_digit (n @ rest) = rest"
    by (metis append_eq_append_conv takeWhile_dropWhile_id)
  have i: "lex_int (n @ rest) = Some (n, rest)"
  proof (cases "c = CHR ''0''")
    case True
    then show ?thesis using assms(3) by (simp add: n lex_int_def)
  next
    case False
    then show ?thesis using t d c by (simp add: n lex_int_def)
  qed
  have "lex_frac rest = Some ([], rest)" "lex_exp rest = Some ([], rest)"
    using assms(4) by (simp_all add: lex_frac_def lex_exp_def delimited_def split: list.splits)
  then have "lex_unsigned (n @ rest) = Some (n, rest)" using i by (simp add: lex_unsigned_def)
  then show ?thesis using c by (simp add: lex_number_def n)
qed

lemma digit_char_neq:
  "is_digit c \<Longrightarrow> \<not> is_space c \<and> c \<noteq> CHR ''{'' \<and> c \<noteq> CHR ''['' \<and> c \<noteq> dquote \<and> c \<noteq> CHR '']'' \<and> c \<noteq> CHR ''}'' \<and>
   c \<noteq> CHR ''n'' \<and> c \<noteq> CHR ''t'' \<and> c \<noteq> CHR ''f''"
  by (auto simp: is_digit_def is_space_def)

lemma print_head:
  "printable m v \<Longrightarrow> \<exists>c cs. json_print v = c # cs \<and> \<not> is_space c \<and> c \<noteq> CHR '']'' \<and> c \<noteq> CHR ''}''"
proof (cases v)
  case (JNum n)
  assume "printable m v"
  then obtain c cs where "n = c # cs" "is_digit c" using JNum by (cases n) auto
  then show ?thesis using JNum digit_char_neq [of c] by simp
qed (auto simp: is_space_def quote_string_def)

lemma skip_ws_print: "printable m v \<Longrightarrow> skip_ws (json_print v @ rest) = json_print v @ rest"
  using print_head [of m v] by (auto simp: skip_ws_def)

lemma skip_ws_char [simp]: "\<not> is_space c \<Longrightarrow> skip_ws (c # s) = c # s"
  by (simp add: skip_ws_def)

lemma not_space [simp]: "\<not> is_space CHR '',''" "\<not> is_space CHR '']''" "\<not> is_space CHR ''}''" "\<not> is_space CHR '':''"
  "\<not> is_space dquote"
  by (simp_all add: is_space_def)

lemma str_body_quote: "valid_utf8 s \<Longrightarrow> str_body (escape s @ dquote # rest) = Some (s, rest)"
  by (simp add: str_body_escape valid_utf8_def)

lemma print_elems_head:
  "printable m v \<Longrightarrow> \<exists>c cs. print_elems (v # vs) @ rest = c # cs \<and> \<not> is_space c \<and> c \<noteq> CHR '']''"
  using print_head [of m v] by (cases vs) auto

lemma print_members_head: "\<exists>cs. print_members (p # ms) @ rest = dquote # cs"
  by (cases p; cases ms) (auto simp: quote_string_def)

text \<open>What the three readers do on printed text.\<close>

definition value_ok :: "json \<Rightarrow> bool" where
  "value_ok v \<longleftrightarrow> (\<forall>m d n rest. printable m v \<longrightarrow> d + m \<le> max_depth \<longrightarrow> length (json_print v) \<le> n \<longrightarrow> delimited rest \<longrightarrow>
      parse_value n d (json_print v @ rest) = Some (v, rest))"

definition elems_ok :: "json list \<Rightarrow> bool" where
  "elems_ok vs \<longleftrightarrow> (\<forall>m d n rest. (\<forall>v \<in> set vs. printable m v) \<longrightarrow> d + m \<le> max_depth \<longrightarrow> length (print_elems vs) \<le> n \<longrightarrow> vs \<noteq> [] \<longrightarrow>
      parse_elems n d (print_elems vs @ rest) = Some (vs, rest))"

definition members_ok :: "(string \<times> json) list \<Rightarrow> bool" where
  "members_ok ms \<longleftrightarrow> (\<forall>m d n rest. (\<forall>p \<in> set ms. valid_utf8 (fst p) \<and> printable m (snd p)) \<longrightarrow> d + m \<le> max_depth \<longrightarrow>
      length (print_members ms) \<le> n \<longrightarrow> ms \<noteq> [] \<longrightarrow>
      parse_members n d (print_members ms @ rest) = Some (ms, rest))"

lemma ok_num: "value_ok (JNum k)"
  unfolding value_ok_def
proof (intro allI impI)
  fix m d n rest
  assume p: "printable m (JNum k)" and l: "length (json_print (JNum k)) \<le> n" and r: "delimited rest"
  obtain c cs where k: "k = c # cs" "is_digit c" using p by (cases k) auto
  obtain n' where n: "n = Suc n'" using l k by (cases n) auto
  have "lex_number (k @ rest) = Some (k, rest)" using p r by (intro lex_number_print) auto
  then show "parse_value n d (json_print (JNum k) @ rest) = Some (JNum k, rest)"
    using digit_char_neq [OF k(2)] by (simp add: n k(1))
qed

lemma ok_str: "value_ok (JStr s)"
  unfolding value_ok_def
proof (intro allI impI)
  fix m d n rest
  assume p: "printable m (JStr s)" and l: "length (json_print (JStr s)) \<le> n"
  obtain n' where n: "n = Suc n'" using l by (cases n) (auto simp: quote_string_def)
  show "parse_value n d (json_print (JStr s) @ rest) = Some (JStr s, rest)"
    using p by (simp add: n quote_string_def str_body_quote)
qed

lemma ok_arr:
  assumes "elems_ok vs"
  shows "value_ok (JArr vs)"
  unfolding value_ok_def
proof (intro allI impI)
  fix m d n rest
  assume p: "printable m (JArr vs)" and dm: "d + m \<le> max_depth" and l: "length (json_print (JArr vs)) \<le> n"
  obtain n' where n: "n = Suc n'" using l by (cases n) auto
  obtain k where m: "m = Suc k" and vs: "\<forall>v \<in> set vs. printable k v" using p by (cases m) auto
  have d: "\<not> max_depth \<le> d" using dm m by simp
  show "parse_value n d (json_print (JArr vs) @ rest) = Some (JArr vs, rest)"
  proof (cases vs)
    case Nil
    then show ?thesis using d by (simp add: n)
  next
    case (Cons v vs')
    obtain c cs where c: "print_elems vs @ rest = c # cs" "\<not> is_space c" "c \<noteq> CHR '']''"
      using print_elems_head [of k v vs' rest] vs Cons by auto
    have "parse_elems n' (Suc d) (print_elems vs @ rest) = Some (vs, rest)"
      using assms vs dm m l Cons unfolding elems_ok_def n by auto
    then show ?thesis using c d by (simp add: n del: parse_elems.simps)
  qed
qed

lemma ok_obj:
  assumes "members_ok ms"
  shows "value_ok (JObj ms)"
  unfolding value_ok_def
proof (intro allI impI)
  fix m d n rest
  assume p: "printable m (JObj ms)" and dm: "d + m \<le> max_depth" and l: "length (json_print (JObj ms)) \<le> n"
  obtain n' where n: "n = Suc n'" using l by (cases n) auto
  obtain k where m: "m = Suc k" and ms: "\<forall>p \<in> set ms. valid_utf8 (fst p) \<and> printable k (snd p)" using p by (cases m) auto
  have d: "\<not> max_depth \<le> d" using dm m by simp
  show "parse_value n d (json_print (JObj ms) @ rest) = Some (JObj ms, rest)"
  proof (cases ms)
    case Nil
    then show ?thesis using d by (simp add: n)
  next
    case (Cons q ms')
    obtain cs where c: "print_members ms @ rest = dquote # cs"
      using print_members_head [of q ms' rest] Cons by auto
    have "parse_members n' (Suc d) (print_members ms @ rest) = Some (ms, rest)"
      using assms ms dm m l Cons unfolding members_ok_def n by auto
    then show ?thesis using c d by (simp add: n del: parse_members.simps)
  qed
qed

lemma ok_elem:
  assumes v: "value_ok v" and t: "t = CHR '']'' # rest \<and> us = [] \<or> t = CHR '','' # print_elems us @ rest \<and> us \<noteq> [] \<and> elems_ok us"
    and p: "printable m v" "\<forall>v \<in> set us. printable m v" and dm: "d + m \<le> max_depth"
    and l: "length (json_print v) \<le> n" "us \<noteq> [] \<longrightarrow> length (print_elems us) \<le> n"
  shows "parse_elems (Suc n) d (json_print v @ t) = Some (v # us, rest)"
proof -
  have pv: "parse_value n d (json_print v @ t) = Some (v, t)"
    using v p(1) dm l(1) t unfolding value_ok_def by auto
  show ?thesis
  proof (cases us)
    case Nil
    then show ?thesis using pv t by (simp del: parse_value.simps)
  next
    case (Cons u us')
    obtain c cs where c: "print_elems us @ rest = c # cs" "\<not> is_space c"
      using print_elems_head [of m u us' rest] p(2) Cons by auto
    have "parse_elems n d (print_elems us @ rest) = Some (us, rest)"
      using t p(2) dm l(2) Cons unfolding elems_ok_def by auto
    then show ?thesis using pv t Cons c
      by (subst parse_elems.simps(2)) (simp del: parse_value.simps parse_elems.simps)
  qed
qed

lemma ok_member:
  assumes v: "value_ok v" and t: "t = CHR ''}'' # rest \<and> us = [] \<or> t = CHR '','' # print_members us @ rest \<and> us \<noteq> [] \<and> members_ok us"
    and k: "valid_utf8 k" and p: "printable m v" "\<forall>p \<in> set us. valid_utf8 (fst p) \<and> printable m (snd p)"
    and dm: "d + m \<le> max_depth"
    and l: "length (json_print v) \<le> n" "us \<noteq> [] \<longrightarrow> length (print_members us) \<le> n"
  shows "parse_members (Suc n) d (quote_string k @ CHR '':'' # json_print v @ t) = Some ((k, v) # us, rest)"
proof -
  have pv: "parse_value n d (json_print v @ t) = Some (v, t)"
    using v p(1) dm l(1) t unfolding value_ok_def by auto
  have ws: "skip_ws (json_print v @ t) = json_print v @ t" by (rule skip_ws_print [OF p(1)])
  have b: "str_body (escape k @ dquote # CHR '':'' # json_print v @ t) = Some (k, CHR '':'' # json_print v @ t)"
    by (rule str_body_quote [OF k])
  show ?thesis
  proof (cases us)
    case Nil
    then show ?thesis using pv t b ws by (simp add: quote_string_def del: parse_value.simps)
  next
    case (Cons u us')
    obtain cs where c: "print_members us @ rest = dquote # cs"
      using print_members_head [of u us' rest] Cons by auto
    have "parse_members n d (print_members us @ rest) = Some (us, rest)"
      using t p(2) dm l(2) Cons unfolding members_ok_def by auto
    then show ?thesis using pv t Cons c b ws
      by (subst parse_members.simps(2)) (simp add: quote_string_def del: parse_value.simps parse_members.simps)
  qed
qed

lemma print_parse_all: "value_ok v" "elems_ok vs" "members_ok ms"
proof (induction v and vs and ms rule: json_print_print_elems_print_members.induct)
  case 1
  show ?case unfolding value_ok_def
  proof (intro allI impI)
    fix m d n :: nat and rest assume "length (json_print JNull) \<le> n"
    then obtain n' where "n = Suc n'" by (cases n) auto
    then show "parse_value n d (json_print JNull @ rest) = Some (JNull, rest)" by simp
  qed
next
  case (2 b)
  show ?case unfolding value_ok_def
  proof (intro allI impI)
    fix m d n :: nat and rest assume "length (json_print (JBool b)) \<le> n"
    then obtain n' where "n = Suc n'" by (cases n) (auto split: if_splits)
    then show "parse_value n d (json_print (JBool b) @ rest) = Some (JBool b, rest)" by simp
  qed
next
  case (7)
  show ?case by (simp add: elems_ok_def)
next
  case (8 v)
  show ?case unfolding elems_ok_def
  proof (intro allI impI)
    fix m d n rest
    assume h: "\<forall>v \<in> set [v]. printable m v" "d + m \<le> max_depth" "length (print_elems [v]) \<le> n"
    then obtain n' where n: "n = Suc n'" by (cases n) auto
    show "parse_elems n d (print_elems [v] @ rest) = Some ([v], rest)"
      using ok_elem [OF 8, of "CHR '']'' # rest" rest "[]" m d n'] h by (simp add: n del: parse_elems.simps)
  qed
next
  case (9 v v' vs)
  show ?case unfolding elems_ok_def
  proof (intro allI impI)
    fix m d n rest
    assume h: "\<forall>u \<in> set (v # v' # vs). printable m u" "d + m \<le> max_depth" "length (print_elems (v # v' # vs)) \<le> n"
    then obtain n' where n: "n = Suc n'" by (cases n) auto
    show "parse_elems n d (print_elems (v # v' # vs) @ rest) = Some (v # v' # vs, rest)"
      using ok_elem [OF 9(1), of "CHR '','' # print_elems (v' # vs) @ rest" rest "v' # vs" m d n'] 9(2) h
      by (simp add: n del: parse_elems.simps)
  qed
next
  case (10)
  show ?case by (simp add: members_ok_def)
next
  case (11 k v)
  show ?case unfolding members_ok_def
  proof (intro allI impI)
    fix m d n rest
    assume h: "\<forall>p \<in> set [(k, v)]. valid_utf8 (fst p) \<and> printable m (snd p)" "d + m \<le> max_depth" "length (print_members [(k, v)]) \<le> n"
    then obtain n' where n: "n = Suc n'" by (cases n) auto
    show "parse_members n d (print_members [(k, v)] @ rest) = Some ([(k, v)], rest)"
      using ok_member [OF 11, of "CHR ''}'' # rest" rest "[]" k m d n'] h by (simp add: n del: parse_members.simps)
  qed
next
  case (12 k v p ms)
  show ?case unfolding members_ok_def
  proof (intro allI impI)
    fix m d n rest
    assume h: "\<forall>q \<in> set ((k, v) # p # ms). valid_utf8 (fst q) \<and> printable m (snd q)" "d + m \<le> max_depth" "length (print_members ((k, v) # p # ms)) \<le> n"
    then obtain n' where n: "n = Suc n'" by (cases n) auto
    show "parse_members n d (print_members ((k, v) # p # ms) @ rest) = Some ((k, v) # p # ms, rest)"
      using ok_member [OF 12(1), of "CHR '','' # print_members (p # ms) @ rest" rest "p # ms" k m d n'] 12(2) h
      by (simp add: n del: parse_members.simps)
  qed
qed (simp_all add: ok_num ok_str ok_arr ok_obj)

lemma json_parse_print:
  assumes "printable m v" and "m \<le> max_depth"
  shows "json_parse (json_print v) = Some v" and "json_first (json_print v @ rest) = Some v \<or> \<not> delimited rest"
proof -
  have ok: "parse_value n 0 (json_print v @ r) = Some (v, r)" if "length (json_print v) \<le> n" "delimited r" for n r
    using print_parse_all(1) [of v] assms that unfolding value_ok_def by auto
  have ws: "skip_ws (json_print v @ r) = json_print v @ r" for r by (rule skip_ws_print [OF assms(1)])
  show "json_parse (json_print v) = Some v"
    using ok [of "2 * length (json_print v) + 2" "[]"] ws [of "[]"]
    by (simp add: json_parse_def skip_ws_def del: parse_value.simps)
  show "json_first (json_print v @ rest) = Some v \<or> \<not> delimited rest"
    using ok [of "2 * length (json_print v @ rest) + 2" rest] ws [of rest] by (auto simp: json_first_def simp del: parse_value.simps)
qed

end
