(* ===== verification/Cid.thy ===== *)
theory Cid
  imports Base32
begin

text \<open>
  Content identifiers (\<^verbatim>\<open>cid/cid.go\<close>): the SHA-256 digest of the content, as base32 text. The
  digest is that of \<^verbatim>\<open>crypto/sha256\<close>: words of 32 bits, blocks of 64 bytes.
\<close>

unbundle bit_operations_syntax

type_synonym u32 = "32 word"

type_synonym cid = string

subsection \<open>SHA-256\<close>

definition rotr :: "nat \<Rightarrow> u32 \<Rightarrow> u32" where
  "rotr n w = drop_bit n w OR push_bit (32 - n) w"

definition sha_ch :: "u32 \<Rightarrow> u32 \<Rightarrow> u32 \<Rightarrow> u32" where
  "sha_ch e f g = (e AND f) XOR (NOT e AND g)"

definition sha_maj :: "u32 \<Rightarrow> u32 \<Rightarrow> u32 \<Rightarrow> u32" where
  "sha_maj a b c = (a AND b) XOR (a AND c) XOR (b AND c)"

definition big_sigma0 :: "u32 \<Rightarrow> u32" where "big_sigma0 a = rotr 2 a XOR rotr 13 a XOR rotr 22 a"
definition big_sigma1 :: "u32 \<Rightarrow> u32" where "big_sigma1 e = rotr 6 e XOR rotr 11 e XOR rotr 25 e"
definition small_sigma0 :: "u32 \<Rightarrow> u32" where "small_sigma0 w = rotr 7 w XOR rotr 18 w XOR drop_bit 3 w"
definition small_sigma1 :: "u32 \<Rightarrow> u32" where "small_sigma1 w = rotr 17 w XOR rotr 19 w XOR drop_bit 10 w"

text \<open>
  The constants are the first 32 bits behind the point of roots of the first primes: of the cube
  roots of 64 of them for the rounds, of the square roots of eight for the initial state.  The
  root of a number is found bit by bit.
\<close>

fun int_root :: "nat \<Rightarrow> int \<Rightarrow> int \<Rightarrow> int list \<Rightarrow> int" where
  "int_root k n r [] = r"
| "int_root k n r (b # bs) = int_root k n (if (r + b) ^ k \<le> n then r + b else r) bs"

definition root_bits :: "nat \<Rightarrow> int \<Rightarrow> u32" where
  "root_bits k p = of_int (int_root k (p * 2 ^ (32 * k)) 0 (map ((^) 2) (rev [0..<38])))"

definition sha_constants :: "u32 list" where
  "sha_constants = map (root_bits 3) (filter (\<lambda>n. \<forall>d \<in> set [2..n - 1]. n mod d \<noteq> 0) [2..311])"

definition sha_initial :: "u32 list" where
  "sha_initial = map (root_bits 2) [2, 3, 5, 7, 11, 13, 17, 19]"

text \<open>Big-endian words\<close>

definition word_of_bytes :: "u8 list \<Rightarrow> u32" where
  "word_of_bytes bs = fold (\<lambda>b w. push_bit 8 w OR ucast b) bs 0"

definition bytes_of_word :: "u32 \<Rightarrow> u8 list" where
  "bytes_of_word w = [ucast (drop_bit 24 w), ucast (drop_bit 16 w), ucast (drop_bit 8 w), ucast w]"

function group :: "nat \<Rightarrow> 'a list \<Rightarrow> 'a list list" where
  "group n xs = (if xs = [] \<or> n = 0 then [] else take n xs # group n (drop n xs))"
  by pat_completeness auto
termination by (relation "measure (\<lambda>(n, xs). length xs)") auto

declare group.simps [simp del]

text \<open>The message followed by a bit 1, zeros and its length in bits.\<close>

definition sha_pad :: "u8 list \<Rightarrow> u8 list" where
  "sha_pad m =
     m @ [0x80] @ replicate ((119 - length m mod 64) mod 64) 0 @
     map (\<lambda>i. ucast (drop_bit (8 * i) (of_nat (8 * length m) :: u64))) (rev [0..<8])"

text \<open>The schedule of a block, its last word first.\<close>

fun expand :: "nat \<Rightarrow> u32 list \<Rightarrow> u32 list" where
  "expand 0 ws = ws"
| "expand (Suc n) ws =
     expand n ((small_sigma1 (ws ! 1) + ws ! 6 + small_sigma0 (ws ! 14) + ws ! 15) # ws)"

fun sha_round :: "u32 \<times> u32 \<Rightarrow> u32 list \<Rightarrow> u32 list" where
  "sha_round (k, w) [a, b, c, d, e, f, g, h] =
     (let t1 = h + big_sigma1 e + sha_ch e f g + k + w;
          t2 = big_sigma0 a + sha_maj a b c
      in [t1 + t2, a, b, c, d + t1, e, f, g])"
| "sha_round _ s = s"

definition sha_block :: "u8 list \<Rightarrow> u32 list \<Rightarrow> u32 list" where
  "sha_block block s =
     (let ws = rev (expand 48 (rev (map word_of_bytes (group 4 block))))
      in map2 (+) s (fold sha_round (zip sha_constants ws) s))"

definition sha256 :: "u8 list \<Rightarrow> u8 list" where
  "sha256 m = concat (map bytes_of_word (fold sha_block (group 64 (sha_pad m)) sha_initial))"

subsection \<open>Identifiers\<close>

text \<open>The length check in \<^verbatim>\<open>New\<close> is the first \<open>if\<close>.\<close>

definition new_cid :: "u8 list \<Rightarrow> cid option" where
  "new_cid data =
     (let digest = sha256 data
      in if length digest \<noteq> 32 then None else Some (b32_encode digest))"

subsection \<open>The digest has 32 bytes\<close>

lemma sha_round_length: "length s = 8 \<Longrightarrow> length (sha_round kw s) = 8"
  by (cases "(kw, s)" rule: sha_round.cases) (auto simp: Let_def)

lemma sha_rounds_length: "length s = 8 \<Longrightarrow> length (fold sha_round kws s) = 8"
  by (induction kws arbitrary: s) (simp_all add: sha_round_length)

lemma sha_block_length: "length s = 8 \<Longrightarrow> length (sha_block b s) = 8"
  by (simp add: sha_block_def Let_def sha_rounds_length)

lemma length_sha256 [simp]: "length (sha256 m) = 32"
proof -
  have "length (fold sha_block bs s) = 8" if "length s = 8" for bs s
    using that by (induction bs arbitrary: s) (simp_all add: sha_block_length)
  then have "length (fold sha_block (group 64 (sha_pad m)) sha_initial) = 8" by (simp add: sha_initial_def)
  then show ?thesis
    by (simp add: sha256_def length_concat comp_def bytes_of_word_def sum_list_triv)
qed

definition cid_of :: "u8 list \<Rightarrow> cid" where
  "cid_of data = b32_encode (sha256 data)"

lemma new_cid_eq [simp]: "new_cid data = Some (cid_of data)"
  by (simp add: new_cid_def cid_of_def Let_def)

lemma length_cid_of [simp]: "length (cid_of data) = 52"
  by (simp add: cid_of_def length_b32_encode)

lemma cid_of_inject: "cid_of x = cid_of y \<longleftrightarrow> sha256 x = sha256 y"
  by (simp add: cid_of_def)

text \<open>The padded message is a sequence of whole blocks.\<close>

lemma sha_pad_blocks: "64 dvd length (sha_pad m)"
proof -
  have "length (sha_pad m) = length m + 9 + (119 - length m mod 64) mod 64" by (simp add: sha_pad_def)
  moreover have "64 dvd l + 9 + (119 - l mod 64) mod 64" for l :: nat
  proof -
    define q r where "q = l div 64" "r = l mod 64"
    have l: "l = 64 * q + r" "r < 64" by (simp_all add: q_r_def)
    show ?thesis
    proof (cases "r \<le> 55")
      case True
      then have "119 - r = 64 + (55 - r)" by simp
      then have "(119 - r) mod 64 = 55 - r" using True by (metis mod_add_self1 mod_less le_less_trans diff_le_self less_numeral_extra(4) numeral_less_iff semiring_norm(76,78,80,81))
      then have "l + 9 + (119 - r) mod 64 = 64 * (q + 1)" using l True by simp
      then show ?thesis using q_r_def by (metis dvd_triv_left)
    next
      case False
      then have "(119 - r) mod 64 = 119 - r" using l(2) by simp
      then have "l + 9 + (119 - r) mod 64 = 64 * (q + 2)" using l False by simp
      then show ?thesis using q_r_def by (metis dvd_triv_left)
    qed
  qed
  ultimately show ?thesis by simp
qed

end
