(* ===== verification/Store.thy ===== *)
theory Store
  imports Cid
begin

text \<open>
  Blocks (\<^verbatim>\<open>store/block.go\<close>) and the block store (\<^verbatim>\<open>store/store.go\<close>).  The store is the table
  of its SQL statements: \<^verbatim>\<open>cid\<close> is the primary key, so \<^verbatim>\<open>REPLACE\<close> leaves one row for it.
  The pool has one connection, so each operation is one step.  A closed store fails on
  every operation; a failing disk is not modelled.
\<close>

definition max_block_size :: nat where
  "max_block_size = 5 * 1024 * 1024"

record block =
  block_cid :: cid
  block_data :: "u8 list"

definition new_block :: "u8 list \<Rightarrow> error + block" where
  "new_block data =
     (if length data > max_block_size then Inl DataTooLarge
      else Inr \<lparr>block_cid = cid_of data, block_data = data\<rparr>)"

definition block_valid :: "block \<Rightarrow> bool" where
  "block_valid b \<longleftrightarrow> cid_of (block_data b) = block_cid b"

definition block_copy :: "block \<Rightarrow> block" where
  "block_copy b =
     \<lparr>block_cid = block_cid b, block_data = go_copy (replicate (length (block_data b)) 0) 0 (block_data b)\<rparr>"

record store =
  st_rows :: "(cid \<times> u8 list) list"
  st_open :: bool

text \<open>\<^verbatim>\<open>NewStore\<close> on a database with the table, if it is there already; otherwise it is created.\<close>

definition open_store :: "(cid \<times> u8 list) list option \<Rightarrow> store" where
  "open_store table = \<lparr>st_rows = (case table of None \<Rightarrow> [] | Some rows \<Rightarrow> rows), st_open = True\<rparr>"

definition new_store :: store where
  "new_store = open_store None"

definition store_close :: "store \<Rightarrow> store" where
  "store_close s = s\<lparr>st_open := False\<rparr>"

definition store_get :: "store \<Rightarrow> cid \<Rightarrow> error + block" where
  "store_get s c =
     (if \<not> st_open s then Inl StoreFailed
      else case map_of (st_rows s) c of
        None \<Rightarrow> Inl StoreFailed
      | Some d \<Rightarrow> Inr \<lparr>block_cid = c, block_data = d\<rparr>)"

definition store_put :: "store \<Rightarrow> block \<Rightarrow> error option \<times> store" where
  "store_put s b =
     (if \<not> st_open s then (Some StoreFailed, s)
      else (None, s\<lparr>st_rows := AList.update (block_cid b) (block_data b) (st_rows s)\<rparr>))"

definition store_delete :: "store \<Rightarrow> cid \<Rightarrow> error option \<times> store" where
  "store_delete s c =
     (if \<not> st_open s then (Some StoreFailed, s)
      else (None, s\<lparr>st_rows := AList.delete c (st_rows s)\<rparr>))"

definition store_size :: "store \<Rightarrow> error + nat" where
  "store_size s = (if \<not> st_open s then Inl StoreFailed else Inr (length (st_rows s)))"

subsection \<open>Invariant\<close>

text \<open>One row for a key, and every row is a valid block.\<close>

definition rows_inv :: "store \<Rightarrow> bool" where
  "rows_inv s \<longleftrightarrow> distinct (map fst (st_rows s)) \<and> (\<forall>(c, d) \<in> set (st_rows s). cid_of d = c)"

definition stored :: "store \<Rightarrow> cid \<Rightarrow> u8 list option" where
  "stored s c = map_of (st_rows s) c"

lemma rows_inv_new [simp, inv_intros]: "rows_inv new_store"
  by (simp add: rows_inv_def new_store_def open_store_def)

lemma block_copy_eq [simp]: "block_copy b = b"
  by (simp add: block_copy_def go_copy_def)

lemma new_block_valid: "new_block d = Inr b \<Longrightarrow> block_valid b \<and> block_data b = d \<and> block_cid b = cid_of d"
  by (auto simp: new_block_def block_valid_def split: if_splits)

lemma rows_inv_put [inv_intros]:
  assumes "rows_inv s" and "block_valid b" and "store_put s b = (e, s')"
  shows "rows_inv s'"
proof -
  have "\<forall>(c, d) \<in> set (AList.update (block_cid b) (block_data b) (st_rows s)). cid_of d = c"
    using assms(1,2) by (auto simp: rows_inv_def block_valid_def set_update_distinct)
  then show ?thesis
    using assms(1,3) by (auto simp: store_put_def rows_inv_def distinct_update split: if_splits)
qed

lemma rows_inv_delete [inv_intros]: "rows_inv s \<Longrightarrow> store_delete s c = (e, s') \<Longrightarrow> rows_inv s'"
  by (auto simp: store_delete_def rows_inv_def distinct_delete set_delete split: if_splits)

lemma stored_valid: "rows_inv s \<Longrightarrow> stored s c = Some d \<Longrightarrow> cid_of d = c"
  by (auto simp: rows_inv_def stored_def dest!: map_of_SomeD)

lemma store_put_open: "st_open s \<Longrightarrow> store_put s b = (None, s\<lparr>st_rows := AList.update (block_cid b) (block_data b) (st_rows s)\<rparr>)"
  by (simp add: store_put_def)

lemma store_get_eq:
  "store_get s c = (if st_open s then (case stored s c of None \<Rightarrow> Inl StoreFailed | Some d \<Rightarrow> Inr \<lparr>block_cid = c, block_data = d\<rparr>)
     else Inl StoreFailed)"
  by (simp add: store_get_def stored_def)

lemma stored_put:
  "store_put s b = (e, s') \<Longrightarrow> st_open s \<Longrightarrow> stored s' c = (if c = block_cid b then Some (block_data b) else stored s c)"
  by (auto simp: store_put_def stored_def update_conv')

lemma stored_delete:
  "store_delete s c = (e, s') \<Longrightarrow> st_open s \<Longrightarrow> stored s' c' = (if c' = c then None else stored s c')"
  by (auto simp: store_delete_def stored_def delete_conv')

subsection \<open>The contract the file system relies on\<close>

text \<open>A store of blocks under their identifiers.\<close>

locale block_store =
  fixes put :: "'s \<Rightarrow> block \<Rightarrow> error option \<times> 's"
    and get :: "'s \<Rightarrow> cid \<Rightarrow> error + block"
    and usable :: "'s \<Rightarrow> bool"
    and inv :: "'s \<Rightarrow> bool"
  assumes put_usable: "usable s \<Longrightarrow> put s b = (e, s') \<Longrightarrow> e = None \<and> usable s'"
    and inv_put: "inv s \<Longrightarrow> block_valid b \<Longrightarrow> put s b = (e, s') \<Longrightarrow> inv s'"
    and get_put: "usable s \<Longrightarrow> put s b = (e, s') \<Longrightarrow> get s' (block_cid b) = Inr b"
    and get_other: "usable s \<Longrightarrow> put s b = (e, s') \<Longrightarrow> c \<noteq> block_cid b \<Longrightarrow> get s' c = get s c"
    and get_valid: "inv s \<Longrightarrow> get s c = Inr b \<Longrightarrow> block_cid b = c \<and> block_valid b"
begin

text \<open>
  A valid block that is put leaves what the store returns for every other block as it is, unless
  two contents have one identifier.
\<close>

lemma get_keeps:
  assumes "usable s" and "inv s" and "block_valid b" and "put s b = (e, s')" and "get s c = Inr b'"
    and "cid_of (block_data b) = cid_of (block_data b') \<Longrightarrow> block_data b = block_data b'"
  shows "get s' c = Inr b'"
proof (cases "c = block_cid b")
  case True
  have b': "block_cid b' = c" "block_valid b'" using get_valid [OF assms(2,5)] by auto
  then have "block_data b = block_data b'" using True assms(3,6) by (simp add: block_valid_def)
  then have "b' = b" using b'(1) True by simp
  then show ?thesis using get_put [OF assms(1,4)] True by simp
next
  case False
  then show ?thesis using get_other [OF assms(1,4)] assms(5) by simp
qed

end

interpretation rows: block_store store_put store_get st_open rows_inv
proof (unfold_locales, goal_cases)
  case 1 then show ?case by (auto simp: store_put_def)
next
  case 2 then show ?case by (rule rows_inv_put)
next
  case (3 s b e s')
  have "st_open s'" using 3 by (auto simp: store_put_def)
  then show ?case using stored_put [OF 3(2,1)] by (simp add: store_get_eq)
next
  case (4 s b e s' c)
  have "st_open s'" using 4 by (auto simp: store_put_def)
  then show ?case using stored_put [OF 4(2,1)] 4(1,3) by (simp add: store_get_eq)
next
  case (5 s c b)
  then show ?case using stored_valid [of s c] by (auto simp: store_get_eq block_valid_def split: if_splits option.splits)
qed

end
