(* ===== verification/Typed_Json.thy ===== *)
theory Typed_Json
  imports Json Base64
begin

text \<open>
  How \<^verbatim>\<open>encoding/json\<close> maps JSON to the Go types of the program: strings, byte slices, unsigned
  integers and structs.  A decoding error is \<open>None\<close>; the library goes on after a mismatch
  and returns the error at the end.

  \<^item> A member is matched by its name, if need be without regard to case; members with other names
    are skipped, a later one overwrites an earlier one.
  \<^item> \<open>null\<close> leaves a string, a number or a struct as it is and makes a slice nil.
  \<^item> A slice that is decoded twice reuses its old elements, so a slice under construction is its
    elements with those left from before, and its length (\<open>None\<close> for nil).
\<close>

subsection \<open>Bytes and text\<close>

definition bytes_of :: "string \<Rightarrow> u8 list" where
  "bytes_of s = map (\<lambda>c. of_nat (of_char c)) s"

definition text_of :: "u8 list \<Rightarrow> string" where
  "text_of bs = map (\<lambda>b. char_of (unat b)) bs"

lemma text_bytes [simp]: "text_of (bytes_of s) = s"
proof -
  have "unat (of_nat (of_char c) :: u8) = of_char c" for c :: char
    by (simp add: unat_of_nat)
  then show ?thesis by (simp add: text_of_def bytes_of_def comp_def)
qed

lemma length_bytes_of [simp]: "length (bytes_of s) = length s"
  by (simp add: bytes_of_def)

subsection \<open>Decoding\<close>

text \<open>
  Names are compared after folding: ASCII letters, and the two other runes that fold to one
  (\<^verbatim>\<open>U+017F\<close> and \<^verbatim>\<open>U+212A\<close>).
\<close>

fun fold_name :: "string \<Rightarrow> string" where
  "fold_name [] = []"
| "fold_name (c # cs) =
     (if take 2 (c # cs) = [CHR 0xC5, CHR 0xBF] then CHR ''S'' # fold_name (drop 1 cs)
      else if take 3 (c # cs) = [CHR 0xE2, CHR 0x84, CHR 0xAA] then CHR ''K'' # fold_name (drop 2 cs)
      else (if within c 97 122 then char_of (code c - 32) else c) # fold_name cs)"

declare fold_name.simps(2) [simp del]

definition is_field :: "string \<Rightarrow> string \<Rightarrow> bool" where
  "is_field name key \<longleftrightarrow> fold_name key = fold_name name"

definition decode_string :: "string \<Rightarrow> json \<Rightarrow> string option" where
  "decode_string old j = (case j of JStr s \<Rightarrow> Some s | JNull \<Rightarrow> Some old | _ \<Rightarrow> None)"

definition decode_uint :: "nat \<Rightarrow> nat \<Rightarrow> json \<Rightarrow> nat option" where
  "decode_uint max_val old j =
     (case j of
        JNum s \<Rightarrow> if s \<noteq> [] \<and> list_all is_digit s \<and> read_nat s \<le> max_val then Some (read_nat s) else None
      | JNull \<Rightarrow> Some old
      | _ \<Rightarrow> None)"

type_synonym 'a slice = "'a list \<times> nat option"

definition nil_slice :: "'a slice" where
  "nil_slice = ([], None)"

definition slice_val :: "'a slice \<Rightarrow> 'a list option" where
  "slice_val s = map_option (\<lambda>n. take n (fst s)) (snd s)"

fun decode_elems :: "('a \<Rightarrow> json \<Rightarrow> 'a option) \<Rightarrow> 'a \<Rightarrow> 'a list \<Rightarrow> json list \<Rightarrow> 'a list option" where
  "decode_elems dec z olds [] = Some olds"
| "decode_elems dec z olds (v # vs) =
     (case dec (case olds of [] \<Rightarrow> z | x # _ \<Rightarrow> x) v of
        None \<Rightarrow> None
      | Some x \<Rightarrow> map_option (Cons x) (decode_elems dec z (drop 1 olds) vs))"

definition decode_slice :: "('a \<Rightarrow> json \<Rightarrow> 'a option) \<Rightarrow> 'a \<Rightarrow> 'a slice \<Rightarrow> json \<Rightarrow> 'a slice option" where
  "decode_slice dec z old j =
     (case j of
        JNull \<Rightarrow> Some nil_slice
      | JArr vs \<Rightarrow>
          if vs = [] then Some ([], Some 0)
          else map_option (\<lambda>xs. (xs, Some (length vs))) (decode_elems dec z (fst old) vs)
      | _ \<Rightarrow> None)"

text \<open>A \<^verbatim>\<open>[]byte\<close> is base64 text, but an array of numbers is decoded as well.\<close>

definition decode_bytes :: "u8 slice \<Rightarrow> json \<Rightarrow> u8 slice option" where
  "decode_bytes old j =
     (case j of
        JStr s \<Rightarrow> map_option (\<lambda>b. (b, Some (length b))) (b64_decode s)
      | _ \<Rightarrow> decode_slice (\<lambda>x v. map_option of_nat (decode_uint 255 (unat x) v)) 0 old j)"

fun decode_members :: "('a \<Rightarrow> string \<Rightarrow> json \<Rightarrow> 'a option) \<Rightarrow> 'a \<Rightarrow> (string \<times> json) list \<Rightarrow> 'a option" where
  "decode_members set_field x [] = Some x"
| "decode_members set_field x ((k, v) # ms) =
     (case set_field x k v of None \<Rightarrow> None | Some x' \<Rightarrow> decode_members set_field x' ms)"

definition decode_struct :: "('a \<Rightarrow> string \<Rightarrow> json \<Rightarrow> 'a option) \<Rightarrow> 'a \<Rightarrow> json \<Rightarrow> 'a option" where
  "decode_struct set_field x j =
     (case j of JObj ms \<Rightarrow> decode_members set_field x ms | JNull \<Rightarrow> Some x | _ \<Rightarrow> None)"

lemma decode_struct_simps [simp]:
  "decode_struct f x (JObj ms) = decode_members f x ms" "decode_struct f x JNull = Some x"
  by (simp_all add: decode_struct_def)

text \<open>\<^verbatim>\<open>json.Unmarshal\<close> and \<^verbatim>\<open>json.NewDecoder(r).Decode\<close> into a zero value\<close>

definition unmarshal :: "(json \<Rightarrow> 'a option) \<Rightarrow> u8 list \<Rightarrow> 'a option" where
  "unmarshal dec data = Option.bind (json_parse (text_of data)) dec"

definition decode_first :: "(json \<Rightarrow> 'a option) \<Rightarrow> u8 list \<Rightarrow> 'a option" where
  "decode_first dec data = Option.bind (json_first (text_of data)) dec"

subsection \<open>Encoding\<close>

definition bytes_json :: "u8 list option \<Rightarrow> json" where
  "bytes_json b = (case b of None \<Rightarrow> JNull | Some bs \<Rightarrow> JStr (b64_encode bs))"

definition uint_json :: "nat \<Rightarrow> json" where
  "uint_json n = JNum (show_nat n)"

definition marshal :: "json \<Rightarrow> u8 list" where
  "marshal j = bytes_of (json_print j)"

subsection \<open>Round trips\<close>

lemma sanitize_ascii: "\<forall>c \<in> set s. code c < 0x80 \<Longrightarrow> sanitize s = s"
  by (induction s) (simp_all add: sanitize.simps(2) rune_len_ascii)

lemma valid_utf8_ascii: "\<forall>c \<in> set s. code c < 0x80 \<Longrightarrow> valid_utf8 s"
  by (simp add: valid_utf8_def sanitize_ascii)

lemma valid_utf8_b64 [simp]: "valid_utf8 (b64_encode bs)"
  by (rule valid_utf8_ascii) (auto dest: b64_encode_chars)

lemma printable_bytes [simp]: "printable m (bytes_json b)"
  by (cases b) (simp_all add: bytes_json_def)

lemma printable_uint [simp]: "printable m (uint_json n)"
  using show_nat_digits [of n] show_nat_head [of n] by (simp add: uint_json_def list_all_iff)

lemma decode_uint_json [simp]: "n \<le> max_val \<Longrightarrow> decode_uint max_val old (uint_json n) = Some n"
  using show_nat_digits [of n] by (simp add: decode_uint_def uint_json_def list_all_iff)

lemma decode_bytes_json:
  "decode_bytes old (bytes_json b) = Some (case b of None \<Rightarrow> nil_slice | Some bs \<Rightarrow> (bs, Some (length bs)))"
  by (cases b) (simp_all add: bytes_json_def decode_bytes_def decode_slice_def)

lemma slice_val_simps [simp]: "slice_val nil_slice = None" "slice_val (xs, Some (length xs)) = Some xs"
  by (simp_all add: slice_val_def nil_slice_def)

lemma unmarshal_marshal_json:
  "printable m j \<Longrightarrow> m \<le> max_depth \<Longrightarrow> unmarshal dec (marshal j) = dec j"
  by (simp add: unmarshal_def marshal_def json_parse_print(1))

end
