(* ===== verification/Merkle.thy ===== *)
theory Merkle
  imports Typed_Json Store
begin

text \<open>
  Merkle nodes (\<^verbatim>\<open>merkle/node.go\<close>, \<^verbatim>\<open>merkle/link.go\<close>) and inodes (\<^verbatim>\<open>fs/inode.go\<close>) with their
  JSON form.  A node keeps its attributes and the block that encodes them.  A slice that Go
  distinguishes from nil when it encodes is an option.
\<close>

subsection \<open>Nodes\<close>

record link =
  link_name :: string
  link_cid :: cid

record attributes =
  at_links :: "link list option"
  at_data :: "u8 list option"

record mnode =
  mn_attr :: attributes
  mn_block :: block

definition mn_links :: "mnode \<Rightarrow> link list" where
  "mn_links n = (case at_links (mn_attr n) of None \<Rightarrow> [] | Some ls \<Rightarrow> ls)"

definition mn_data :: "mnode \<Rightarrow> u8 list" where
  "mn_data n = (case at_data (mn_attr n) of None \<Rightarrow> [] | Some d \<Rightarrow> d)"

definition link_json :: "link \<Rightarrow> json" where
  "link_json l = JObj [(''name'', JStr (link_name l)), (''cid'', JStr (link_cid l))]"

definition attributes_json :: "attributes \<Rightarrow> json" where
  "attributes_json a =
     JObj [(''links'', case at_links a of None \<Rightarrow> JNull | Some ls \<Rightarrow> JArr (map link_json ls)),
           (''data'', bytes_json (at_data a))]"

definition set_link_field :: "link \<Rightarrow> string \<Rightarrow> json \<Rightarrow> link option" where
  "set_link_field l k v =
     (if is_field ''name'' k then map_option (\<lambda>s. l\<lparr>link_name := s\<rparr>) (decode_string (link_name l) v)
      else if is_field ''cid'' k then map_option (\<lambda>s. l\<lparr>link_cid := s\<rparr>) (decode_string (link_cid l) v)
      else Some l)"

definition empty_link :: link where
  "empty_link = \<lparr>link_name = '''', link_cid = ''''\<rparr>"

text \<open>Attributes under construction: the two slices.\<close>

type_synonym attr_slices = "link slice \<times> u8 slice"

definition set_attr_field :: "attr_slices \<Rightarrow> string \<Rightarrow> json \<Rightarrow> attr_slices option" where
  "set_attr_field a k v =
     (if is_field ''links'' k
      then map_option (\<lambda>ls. (ls, snd a)) (decode_slice (decode_struct set_link_field) empty_link (fst a) v)
      else if is_field ''data'' k then map_option (\<lambda>d. (fst a, d)) (decode_bytes (snd a) v)
      else Some a)"

definition decode_attributes :: "json \<Rightarrow> attributes option" where
  "decode_attributes j =
     map_option (\<lambda>(ls, d). \<lparr>at_links = slice_val ls, at_data = slice_val d\<rparr>)
       (decode_struct set_attr_field (nil_slice, nil_slice) j)"

definition parse_block :: "block \<Rightarrow> error + mnode" where
  "parse_block b =
     (case unmarshal decode_attributes (block_data b) of
        None \<Rightarrow> Inl BadEncoding
      | Some a \<Rightarrow> Inr \<lparr>mn_attr = a, mn_block = block_copy b\<rparr>)"

subsection \<open>The builder\<close>

type_synonym builder = attributes

definition new_builder :: builder where
  "new_builder = \<lparr>at_links = Some [], at_data = None\<rparr>"

definition set_data :: "u8 list option \<Rightarrow> builder \<Rightarrow> builder" where
  "set_data d b = b\<lparr>at_data := d\<rparr>"

definition add_link :: "string \<Rightarrow> mnode \<Rightarrow> builder \<Rightarrow> builder" where
  "add_link name n b =
     b\<lparr>at_links := Some ((case at_links b of None \<Rightarrow> [] | Some ls \<Rightarrow> ls) @
        [\<lparr>link_name = name, link_cid = block_cid (mn_block n)\<rparr>])\<rparr>"

definition builder_reset :: "builder \<Rightarrow> builder" where
  "builder_reset b = \<lparr>at_links = Some [], at_data = None\<rparr>"

definition build :: "builder \<Rightarrow> error + mnode" where
  "build b =
     (case new_block (marshal (attributes_json b)) of
        Inl e \<Rightarrow> Inl e
      | Inr block \<Rightarrow> Inr \<lparr>mn_attr = b, mn_block = block\<rparr>)"

subsection \<open>Inodes\<close>

datatype inode = Raw "u8 list option" | Directory

definition raw_kind :: nat where "raw_kind = 0"
definition directory_kind :: nat where "directory_kind = 1"

fun inode_kind :: "inode \<Rightarrow> nat" where
  "inode_kind (Raw _) = raw_kind"
| "inode_kind Directory = directory_kind"

fun inode_json :: "inode \<Rightarrow> json" where
  "inode_json (Raw d) = JObj [(''kind'', uint_json raw_kind), (''data'', bytes_json d)]"
| "inode_json Directory = JObj [(''kind'', uint_json directory_kind)]"

text \<open>\<^verbatim>\<open>uint\<close> has 64 bits.\<close>

definition max_uint :: nat where
  "max_uint = 2 ^ 64 - 1"

definition set_kind_field :: "nat \<Rightarrow> string \<Rightarrow> json \<Rightarrow> nat option" where
  "set_kind_field x k v = (if is_field ''kind'' k then decode_uint max_uint x v else Some x)"

definition set_raw_field :: "nat \<times> u8 slice \<Rightarrow> string \<Rightarrow> json \<Rightarrow> (nat \<times> u8 slice) option" where
  "set_raw_field x k v =
     (if is_field ''kind'' k then map_option (\<lambda>n. (n, snd x)) (decode_uint max_uint (fst x) v)
      else if is_field ''data'' k then map_option (\<lambda>d. (fst x, d)) (decode_bytes (snd x) v)
      else Some x)"

definition unmarshal_inode :: "u8 list \<Rightarrow> error + inode" where
  "unmarshal_inode data =
     (case unmarshal (decode_struct set_kind_field 0) data of
        None \<Rightarrow> Inl BadEncoding
      | Some k \<Rightarrow>
          if k = raw_kind then
            (case unmarshal (decode_struct set_raw_field (0, nil_slice)) data of
               None \<Rightarrow> Inl BadEncoding
             | Some (_, d) \<Rightarrow> Inr (Raw (slice_val d)))
          else if k = directory_kind then Inr Directory
          else Inl InvalidInodeKind)"

subsection \<open>Round trips\<close>

lemma fold_names [simp]:
  "fold_name ''name'' = ''NAME''" "fold_name ''cid'' = ''CID''" "fold_name ''links'' = ''LINKS''"
  "fold_name ''data'' = ''DATA''" "fold_name ''kind'' = ''KIND''"
  by (simp_all add: fold_name.simps within_def char_of_def bit_iff_odd)

lemma valid_names [simp]:
  "valid_utf8 ''name''" "valid_utf8 ''cid''" "valid_utf8 ''links''" "valid_utf8 ''data''" "valid_utf8 ''kind''"
  by (rule valid_utf8_ascii, simp)+

lemma decode_link_json [simp]: "decode_struct set_link_field l (link_json x) = Some x"
  by (simp add: link_json_def set_link_field_def is_field_def decode_string_def)

lemma decode_links: "decode_elems (decode_struct set_link_field) empty_link [] (map link_json ls) = Some ls"
  by (induction ls) simp_all

definition links_valid :: "attributes \<Rightarrow> bool" where
  "links_valid a \<longleftrightarrow> (\<forall>ls. at_links a = Some ls \<longrightarrow> (\<forall>l \<in> set ls. valid_utf8 (link_name l) \<and> valid_utf8 (link_cid l)))"

lemma printable_attributes: "links_valid a \<Longrightarrow> printable 3 (attributes_json a)"
  by (auto simp: attributes_json_def links_valid_def link_json_def eval_nat_numeral split: option.splits)

lemma decode_links_slice:
  "decode_slice (decode_struct set_link_field) empty_link nil_slice (JArr (map link_json ls)) = Some (ls, Some (length ls))"
  using decode_links [of ls] by (simp add: decode_slice_def nil_slice_def)

lemma decode_attributes_json: "decode_attributes (attributes_json a) = Some a"
proof -
  obtain ls d where a: "a = \<lparr>at_links = ls, at_data = d\<rparr>" by (cases a)
  let ?d = "case d of None \<Rightarrow> nil_slice | Some bs \<Rightarrow> (bs, Some (length bs))"
  let ?l = "case ls of None \<Rightarrow> nil_slice | Some xs \<Rightarrow> (xs, Some (length xs))"
  have l: "set_attr_field (nil_slice, nil_slice) ''links'' (case ls of None \<Rightarrow> JNull | Some xs \<Rightarrow> JArr (map link_json xs)) =
      Some (?l, nil_slice)"
    by (cases ls) (simp_all add: set_attr_field_def is_field_def decode_links_slice, simp add: decode_slice_def nil_slice_def)
  have dd: "set_attr_field (?l, nil_slice) ''data'' (bytes_json d) = Some (?l, ?d)"
    by (simp add: set_attr_field_def is_field_def decode_bytes_json)
  have "slice_val ?l = ls" "slice_val ?d = d" by (cases ls; simp) (cases d; simp)
  then show ?thesis using l dd by (simp add: decode_attributes_def attributes_json_def a)
qed

lemma build_parse:
  assumes "build b = Inr n" and "links_valid b"
  shows "parse_block (mn_block n) = Inr n" and "mn_attr n = b" and "block_valid (mn_block n)"
    and "block_data (mn_block n) = marshal (attributes_json b)"
proof -
  obtain bl where bl: "new_block (marshal (attributes_json b)) = Inr bl" and n: "n = \<lparr>mn_attr = b, mn_block = bl\<rparr>"
    using assms(1) by (auto simp: build_def split: sum.splits)
  note B = new_block_valid [OF bl]
  show "mn_attr n = b" "block_valid (mn_block n)" "block_data (mn_block n) = marshal (attributes_json b)"
    using B by (simp_all add: n)
  have "unmarshal decode_attributes (marshal (attributes_json b)) = Some b"
    using printable_attributes [OF assms(2)] decode_attributes_json [of b]
    by (simp add: unmarshal_marshal_json [of 3] max_depth_def)
  then show "parse_block (mn_block n) = Inr n" using B by (simp add: n parse_block_def)
qed

lemma unmarshal_inode_json: "unmarshal_inode (marshal (inode_json i)) = Inr i"
proof -
  have "printable (Suc 0) (inode_json i)" by (cases i) simp_all
  note u = unmarshal_marshal_json [OF this]
  have m: "Suc 0 \<le> max_depth" by (simp add: max_depth_def)
  show ?thesis
  proof (cases i)
    case (Raw d)
    have k: "unmarshal (decode_struct set_kind_field 0) (marshal (inode_json i)) = Some raw_kind"
      unfolding u [OF m] by (simp add: Raw set_kind_field_def is_field_def raw_kind_def max_uint_def)
    have r: "unmarshal (decode_struct set_raw_field (0, nil_slice)) (marshal (inode_json i)) =
        Some (raw_kind, case d of None \<Rightarrow> nil_slice | Some bs \<Rightarrow> (bs, Some (length bs)))"
      unfolding u [OF m] by (simp add: Raw set_raw_field_def is_field_def raw_kind_def max_uint_def decode_bytes_json)
    show ?thesis using k r by (cases d) (simp_all add: unmarshal_inode_def Raw)
  next
    case Directory
    have k: "unmarshal (decode_struct set_kind_field 0) (marshal (inode_json i)) = Some directory_kind"
      unfolding u [OF m] by (simp add: Directory set_kind_field_def is_field_def directory_kind_def max_uint_def)
    then show ?thesis by (simp add: unmarshal_inode_def Directory raw_kind_def directory_kind_def)
  qed
qed

lemma unmarshal_inode_empty: "unmarshal_inode [] = Inl BadEncoding"
  by (simp add: unmarshal_inode_def unmarshal_def text_of_def json_parse_def skip_ws_def eval_nat_numeral)

end
