(* ===== verification/Fs.thy ===== *)
theory Fs
  imports Merkle
begin

text \<open>
  The file system on top of the block store (\<^verbatim>\<open>fs/fs.go\<close>): files become balanced trees of Merkle
  nodes with at most 15 children, directories become nodes with named links.

  \<^item> An operation that writes returns its result and the new store; what was put before an error stays.
  \<^item> \<^verbatim>\<open>ReadBytes\<close> and \<^verbatim>\<open>DAG\<close> follow the links of whatever the store holds, so they take fuel, the depth
    to which links are followed; \<open>None\<close> is a search that goes deeper.
  \<^item> What \<^verbatim>\<open>AddPath\<close> finds on disk is an argument: a tree as \<^verbatim>\<open>os.Stat\<close>, \<^verbatim>\<open>os.ReadFile\<close> and
    \<^verbatim>\<open>os.ReadDir\<close> report it.
\<close>

definition num_children :: nat where
  "num_children = 15"

definition chunk_size :: nat where
  "chunk_size = 256 * 1024"

text \<open>It is called with positive sizes only; with size 0 the loop of the code does not end.\<close>

function chunks :: "'a list \<Rightarrow> nat \<Rightarrow> 'a list list" where
  "chunks xs sz =
     (if 0 < sz \<and> sz < length xs then take sz xs # chunks (drop sz xs) sz else [xs])"
  by pat_completeness auto
termination by (relation "measure (\<lambda>(xs, sz). length xs)") auto

declare chunks.simps [simp del]

text \<open>A nil slice has one chunk, which is nil.\<close>

definition data_chunks :: "u8 list option \<Rightarrow> u8 list option list" where
  "data_chunks data = (case data of None \<Rightarrow> [None] | Some bs \<Rightarrow> map Some (chunks bs chunk_size))"

subsection \<open>Adding bytes\<close>

text \<open>The two loops of \<^verbatim>\<open>AddBytes\<close> and \<^verbatim>\<open>buildDAGLevel\<close>, each with the builder they share.\<close>

fun put_chunks :: "store \<Rightarrow> builder \<Rightarrow> u8 list option list \<Rightarrow> (error + mnode list) \<times> store" where
  "put_chunks s b [] = (Inr [], s)"
| "put_chunks s b (c # cs) =
     (let b1 = set_data (Some (marshal (inode_json (Raw c)))) (builder_reset b) in
      case build b1 of
        Inl e \<Rightarrow> (Inl e, s)
      | Inr n \<Rightarrow>
          (case store_put s (mn_block n) of
             (Some e, s1) \<Rightarrow> (Inl e, s1)
           | (None, s1) \<Rightarrow>
               (case put_chunks s1 b1 cs of
                  (Inl e, s2) \<Rightarrow> (Inl e, s2)
                | (Inr ns, s2) \<Rightarrow> (Inr (n # ns), s2))))"

fun put_parents :: "store \<Rightarrow> builder \<Rightarrow> mnode list list \<Rightarrow> (error + mnode list) \<times> store" where
  "put_parents s b [] = (Inr [], s)"
| "put_parents s b (cs # css) =
     (let b1 = fold (add_link '''') cs (builder_reset b) in
      case build b1 of
        Inl e \<Rightarrow> (Inl e, s)
      | Inr p \<Rightarrow>
          (case store_put s (mn_block p) of
             (Some e, s1) \<Rightarrow> (Inl e, s1)
           | (None, s1) \<Rightarrow>
               (case put_parents s1 b1 css of
                  (Inl e, s2) \<Rightarrow> (Inl e, s2)
                | (Inr ps, s2) \<Rightarrow> (Inr (p # ps), s2))))"

lemma put_parents_length: "put_parents s b css = (Inr ps, s') \<Longrightarrow> length ps = length css"
  by (induction css arbitrary: s b ps) (auto simp: Let_def split: sum.splits prod.splits option.splits)

lemma length_chunks: "0 < sz \<Longrightarrow> length (chunks xs sz) = (if xs = [] then 1 else (length xs + sz - 1) div sz)"
proof (induction xs sz rule: chunks.induct)
  case (1 xs sz)
  show ?case
  proof (cases "sz < length xs")
    case True
    then have len: "length (chunks (drop sz xs) sz) = (length xs - sz + sz - 1) div sz"
      using 1 by simp
    have "length xs - sz + sz - 1 + sz = length xs + sz - 1" using True by simp
    then have "Suc ((length xs - sz + sz - 1) div sz) = (length xs + sz - 1) div sz"
      using 1(2) by (metis add.commute div_add_self1 less_numeral_extra(3) plus_1_eq_Suc)
    then show ?thesis using True 1(2) len by (subst chunks.simps) auto
  next
    case False
    have "(l + sz - 1) div sz = 1" if "0 < l" "l \<le> sz" for l
      using that by (intro div_nat_eqI) simp_all
    from this [of "length xs"] have "xs \<noteq> [] \<Longrightarrow> (length xs + sz - 1) div sz = 1" using False by simp
    then show ?thesis using False by (subst chunks.simps) auto
  qed
qed

text \<open>A level above more than one node has fewer nodes.\<close>

lemma chunks_fewer: "1 < length xs \<Longrightarrow> length (chunks xs num_children) < length xs"
proof -
  assume "1 < length xs"
  moreover have "(l + 15 - 1) div 15 < l" if "1 < l" for l :: nat
    using that by (simp add: div_less_iff_less_mult)
  ultimately show ?thesis by (auto simp: length_chunks num_children_def)
qed

definition level_measure :: "mnode list list \<Rightarrow> nat" where
  "level_measure css = (if css = [] then 2 else length css)"

lemma level_decreases:
  assumes "(Inr ps, s') = put_parents s b css" and "length ps \<noteq> Suc 0"
  shows "level_measure (chunks ps num_children) < level_measure css"
proof (cases "ps = []")
  case True
  then have "css = []" using put_parents_length [OF assms(1) [symmetric]] by simp
  then show ?thesis using True by (simp add: level_measure_def chunks.simps [of "[]"])
next
  case False
  then have "1 < length ps" using assms(2) by (cases ps) auto
  from chunks_fewer [OF this] have "length (chunks ps num_children) < length css" "css \<noteq> []"
    using put_parents_length [OF assms(1) [symmetric]] False by auto
  moreover have "chunks ps num_children \<noteq> []" by (subst chunks.simps) simp
  ultimately show ?thesis by (simp add: level_measure_def)
qed

function build_dag_level :: "store \<Rightarrow> mnode list list \<Rightarrow> (error + mnode) \<times> store" where
  "build_dag_level s children =
     (case put_parents s new_builder children of
        (Inl e, s') \<Rightarrow> (Inl e, s')
      | (Inr parents, s') \<Rightarrow>
          if length parents = 1 then (Inr (parents ! 0), s')
          else build_dag_level s' (chunks parents num_children))"
  by pat_completeness auto
termination
  by (relation "measure (level_measure \<circ> snd)") (auto dest: level_decreases)

declare build_dag_level.simps [simp del]

definition add_bytes :: "store \<Rightarrow> u8 list option \<Rightarrow> (error + mnode) \<times> store" where
  "add_bytes s data =
     (case put_chunks s new_builder (data_chunks data) of
        (Inl e, s') \<Rightarrow> (Inl e, s')
      | (Inr nodes, s') \<Rightarrow>
          if length nodes = 1 then (Inr (nodes ! 0), s')
          else build_dag_level s' (chunks nodes num_children))"

subsection \<open>Adding a path\<close>

datatype tree =
    File "u8 list"
  | Dir "(string \<times> tree) list"   \<comment> \<open>the entries in the order of \<^verbatim>\<open>os.ReadDir\<close>\<close>
  | Unreadable                     \<comment> \<open>one of the three calls fails\<close>

type_synonym record_entry = "cid \<times> string"

fun add_path :: "store \<Rightarrow> string \<Rightarrow> tree \<Rightarrow> (error + mnode \<times> record_entry list) \<times> store"
  and add_entries :: "store \<Rightarrow> string \<Rightarrow> builder \<Rightarrow> record_entry list \<Rightarrow> (string \<times> tree) list \<Rightarrow>
        (error + builder \<times> record_entry list) \<times> store" where
  "add_path s path Unreadable = (Inl OsError, s)"
| "add_path s path (File data) =
     (case add_bytes s (Some data) of
        (Inl e, s1) \<Rightarrow> (Inl e, s1)
      | (Inr n, s1) \<Rightarrow> (Inr (n, [(block_cid (mn_block n), path)]), s1))"
| "add_path s path (Dir entries) =
     (case add_entries s path new_builder [] entries of
        (Inl e, s1) \<Rightarrow> (Inl e, s1)
      | (Inr (b, records), s1) \<Rightarrow>
          (case build b of
             Inl e \<Rightarrow> (Inl e, s1)
           | Inr n \<Rightarrow>
               (case store_put s1 (mn_block n) of
                  (Some e, s2) \<Rightarrow> (Inl e, s2)
                | (None, s2) \<Rightarrow> (Inr (n, records @ [(block_cid (mn_block n), path)]), s2))))"
| "add_entries s path b records [] = (Inr (b, records), s)"
| "add_entries s path b records ((name, t) # es) =
     (case add_path s (path @ ''/'' @ name) t of
        (Inl e, s1) \<Rightarrow> (Inl e, s1)
      | (Inr (child, recs), s1) \<Rightarrow> add_entries s1 path (add_link name child b) (records @ recs) es)"

subsection \<open>Reading\<close>

fun read_bytes :: "nat \<Rightarrow> store \<Rightarrow> mnode \<Rightarrow> (error + u8 list) option"
  and read_links :: "nat \<Rightarrow> store \<Rightarrow> link list \<Rightarrow> (error + u8 list) option" where
  "read_bytes 0 s n = None"
| "read_bytes (Suc f) s n =
     (if length (mn_links n) = 0
      then Some (case unmarshal_inode (mn_data n) of
                   Inl e \<Rightarrow> Inl e
                 | Inr (Raw d) \<Rightarrow> Inr (case d of None \<Rightarrow> [] | Some bs \<Rightarrow> bs)
                 | Inr Directory \<Rightarrow> Inl CannotReadDirectory)
      else read_links f s (mn_links n))"
| "read_links f s [] = Some (Inr [])"
| "read_links f s (l # ls) =
     (case store_get s (link_cid l) of
        Inl e \<Rightarrow> Some (Inl e)
      | Inr b \<Rightarrow>
     (case parse_block b of
        Inl e \<Rightarrow> Some (Inl e)
      | Inr m \<Rightarrow>
     (case read_bytes f s m of
        None \<Rightarrow> None
      | Some (Inl e) \<Rightarrow> Some (Inl e)
      | Some (Inr chunk) \<Rightarrow>
     (case read_links f s ls of
        None \<Rightarrow> None
      | Some (Inl e) \<Rightarrow> Some (Inl e)
      | Some (Inr data) \<Rightarrow> Some (Inr (chunk @ data))))))"

fun find_link :: "string \<Rightarrow> link list \<Rightarrow> cid option" where
  "find_link name [] = None"
| "find_link name (l # ls) = (if name = link_name l then Some (link_cid l) else find_link name ls)"

fun resolve :: "store \<Rightarrow> cid \<Rightarrow> string list \<Rightarrow> error + mnode" where
  "resolve s c parts =
     (case store_get s c of
        Inl e \<Rightarrow> Inl e
      | Inr b \<Rightarrow>
     (case parse_block b of
        Inl e \<Rightarrow> Inl e
      | Inr n \<Rightarrow>
     (case parts of
        [] \<Rightarrow> Inr n
      | name # rest \<Rightarrow>
          (case find_link name (mn_links n) of
             None \<Rightarrow> Inl InvalidPath
           | Some c' \<Rightarrow> resolve s c' rest))))"

declare resolve.simps [simp del]

definition resolve_path :: "store \<Rightarrow> string \<Rightarrow> error + mnode" where
  "resolve_path s path =
     (case split_at (CHR ''/'') path of
        [] \<Rightarrow> Inl InvalidPath
      | c # parts \<Rightarrow> resolve s c parts)"

fun dag :: "nat \<Rightarrow> store \<Rightarrow> cid \<Rightarrow> (error + cid list \<times> nat) option"
  and dag_links :: "nat \<Rightarrow> store \<Rightarrow> link list \<Rightarrow> (error + cid list \<times> nat) option" where
  "dag 0 s c = None"
| "dag (Suc f) s c =
     (case store_get s c of
        Inl e \<Rightarrow> Some (Inl e)
      | Inr b \<Rightarrow>
     (case parse_block b of
        Inl e \<Rightarrow> Some (Inl e)
      | Inr m \<Rightarrow>
     (case dag_links f s (mn_links m) of
        None \<Rightarrow> None
      | Some (Inl e) \<Rightarrow> Some (Inl e)
      | Some (Inr (cs, sz)) \<Rightarrow> Some (Inr (c # cs, length (block_data (mn_block m)) + sz)))))"
| "dag_links f s [] = Some (Inr ([], 0))"
| "dag_links f s (l # ls) =
     (case dag f s (link_cid l) of
        None \<Rightarrow> None
      | Some (Inl e) \<Rightarrow> Some (Inl e)
      | Some (Inr (cs, sz)) \<Rightarrow>
     (case dag_links f s ls of
        None \<Rightarrow> None
      | Some (Inl e) \<Rightarrow> Some (Inl e)
      | Some (Inr (cs', sz')) \<Rightarrow> Some (Inr (cs @ cs', sz + sz'))))"

subsection \<open>Chunks\<close>

lemma concat_chunks: "concat (chunks xs sz) = xs"
proof (induction xs sz rule: chunks.induct)
  case (1 xs sz)
  then show ?case by (subst chunks.simps) simp
qed

lemma chunks_nonempty: "xs \<noteq> [] \<Longrightarrow> c \<in> set (chunks xs sz) \<Longrightarrow> c \<noteq> []"
proof (induction xs sz rule: chunks.induct)
  case (1 xs sz)
  then show ?case by (subst (asm) (2) chunks.simps) (auto split: if_splits)
qed

lemma chunks_length_le: "0 < sz \<Longrightarrow> c \<in> set (chunks xs sz) \<Longrightarrow> length c \<le> sz"
proof (induction xs sz rule: chunks.induct)
  case (1 xs sz)
  then show ?case by (subst (asm) (2) chunks.simps) (auto split: if_splits)
qed

lemma chunks_not_Nil [simp]: "chunks xs sz \<noteq> []"
  by (subst chunks.simps) simp

lemma set_chunks: "set (concat (chunks xs sz)) = set xs"
  by (simp only: concat_chunks)

subsection \<open>Sizes\<close>

text \<open>Strings that the JSON encoder copies: base64 text and identifiers.\<close>

definition plain :: "string \<Rightarrow> bool" where
  "plain s \<longleftrightarrow> (\<forall>c \<in> set s. code c \<in> {43} \<union> {47..57} \<union> {61} \<union> {65..90} \<union> {97..122})"

lemma escape_ascii_plain:
  assumes "code c \<in> {43} \<union> {47..57} \<union> {61} \<union> {65..90} \<union> {97..122}"
  shows "escape_ascii c = [c]"
proof -
  have "code c \<noteq> 34" "code c \<noteq> 92" "32 \<le> code c" "code c \<noteq> 60" "code c \<noteq> 62" "code c \<noteq> 38"
    using assms by auto
  moreover have "code CHR 0x22 = 34" "code CHR 0x5C = 92" "code CHR ''<'' = 60" "code CHR ''>'' = 62" "code CHR ''&'' = 38"
    by simp_all
  ultimately show ?thesis by (auto simp: escape_ascii_def)
qed

lemma escape_plain: "plain s \<Longrightarrow> escape s = s"
proof (induction s)
  case (Cons c s)
  then have "code c \<in> {43} \<union> {47..57} \<union> {61} \<union> {65..90} \<union> {97..122}" by (simp add: plain_def)
  then have "code c < 0x80" "escape_ascii c = [c]" using escape_ascii_plain by auto
  then show ?case using Cons by (simp add: escape.simps(2) plain_def)
qed simp

lemma length_quote_plain: "plain s \<Longrightarrow> length (quote_string s) = length s + 2"
  by (simp add: quote_string_def escape_plain)

lemma plain_b64: "plain (b64_encode bs)"
  using b64_encode_chars [of _ bs] by (auto simp: plain_def)

lemma plain_names: "plain ''name''" "plain ''cid''" "plain ''links''" "plain ''data''" "plain ''kind''" "plain ''''"
  by (simp_all add: plain_def)

lemma cid_chars: "c \<in> set (cid_of d) \<Longrightarrow> code c \<in> {50..55} \<union> {65..90}"
proof -
  have "code (b32_char q) \<in> {50..55} \<union> {65..90}" if "unat q < 32" for q
    using b32_value_char [OF that] by (auto simp: b32_value_def Let_def split: if_splits)
  then have "code c \<in> {50..55} \<union> {65..90}" if "c \<in> set (b32_encode bs)" for bs
    using that b32_quintets_quints [of bs] by (fastforce simp: b32_encode_def)
  then show "c \<in> set (cid_of d) \<Longrightarrow> code c \<in> {50..55} \<union> {65..90}" by (simp add: cid_of_def)
qed

lemma plain_cid: "plain (cid_of d)"
  using cid_chars [of _ d] by (fastforce simp: plain_def)

lemma length_raw_json:
  "length (marshal (inode_json (Raw (Some bs)))) = 20 + 4 * ((length bs + 2) div 3)"
  "length (marshal (inode_json (Raw None))) = 22"
  by (simp_all add: marshal_def raw_kind_def uint_json_def show_nat.simps bytes_json_def length_quote_plain
      plain_names plain_b64 length_b64_encode)

lemma length_leaf_json:
  "length (marshal (attributes_json \<lparr>at_links = Some [], at_data = Some d\<rparr>)) = 22 + 4 * ((length d + 2) div 3)"
  by (simp add: marshal_def attributes_json_def bytes_json_def length_quote_plain plain_names plain_b64 length_b64_encode)

subsection \<open>The nodes of a file\<close>

text \<open>The nodes that \<^verbatim>\<open>AddBytes\<close> builds, as a function of the content.\<close>

definition node_of :: "attributes \<Rightarrow> mnode" where
  "node_of a = \<lparr>mn_attr = a, mn_block =
     \<lparr>block_cid = cid_of (marshal (attributes_json a)), block_data = marshal (attributes_json a)\<rparr>\<rparr>"

abbreviation node_cid :: "mnode \<Rightarrow> cid" where
  "node_cid n \<equiv> block_cid (mn_block n)"

abbreviation node_bytes :: "mnode \<Rightarrow> u8 list" where
  "node_bytes n \<equiv> block_data (mn_block n)"

definition leaf :: "u8 list option \<Rightarrow> mnode" where
  "leaf c = node_of \<lparr>at_links = Some [], at_data = Some (marshal (inode_json (Raw c)))\<rparr>"

definition parent :: "mnode list \<Rightarrow> mnode" where
  "parent cs = node_of \<lparr>at_links = Some (map (\<lambda>c. \<lparr>link_name = '''', link_cid = node_cid c\<rparr>) cs), at_data = None\<rparr>"

function upper_nodes :: "mnode list list \<Rightarrow> mnode list \<times> mnode" where
  "upper_nodes css =
     (let ps = map parent css
      in if length ps = 1 then (ps, ps ! 0)
         else (case upper_nodes (chunks ps num_children) of (ns, root) \<Rightarrow> (ps @ ns, root)))"
  by pat_completeness auto
termination
proof (relation "measure level_measure", goal_cases)
  case (2 css ps)
  have "level_measure (chunks ps num_children) < level_measure css"
  proof (cases "ps = []")
    case True
    then show ?thesis using 2 by (simp add: level_measure_def chunks.simps [of "[]"])
  next
    case False
    then have "1 < length ps" using 2(2) by (cases ps) auto
    from chunks_fewer [OF this] show ?thesis using 2(1) False by (auto simp: level_measure_def)
  qed
  then show ?case by simp
qed simp

declare upper_nodes.simps [simp del]

definition file_dag :: "u8 list option \<Rightarrow> mnode list \<times> mnode" where
  "file_dag data =
     (let ls = map leaf (data_chunks data)
      in if length ls = 1 then (ls, ls ! 0)
         else (case upper_nodes (chunks ls num_children) of (ns, root) \<Rightarrow> (ls @ ns, root)))"

definition put_all :: "store \<Rightarrow> mnode list \<Rightarrow> store" where
  "put_all s ns = fold (\<lambda>n s. snd (store_put s (mn_block n))) ns s"

lemma put_all_simps [simp]:
  "put_all s [] = s" "put_all s (n # ns) = put_all (snd (store_put s (mn_block n))) ns"
  "put_all s (ms @ ns) = put_all (put_all s ms) ns"
  by (simp_all add: put_all_def)

lemma put_open: "st_open s \<Longrightarrow> fst (store_put s b) = None \<and> st_open (snd (store_put s b))"
  by (simp add: store_put_def)

lemma put_all_open [simp]: "st_open (put_all s ns) = st_open s"
proof (induction ns arbitrary: s)
  case (Cons n ns)
  have "st_open (snd (store_put s (mn_block n))) = st_open s" by (simp add: store_put_def)
  then show ?case using Cons by simp
qed simp

lemma node_of_sel [simp]:
  "mn_attr (node_of a) = a" "node_bytes (node_of a) = marshal (attributes_json a)"
  "node_cid (node_of a) = cid_of (marshal (attributes_json a))"
  by (simp_all add: node_of_def)

lemma build_eq:
  "build b = (if length (marshal (attributes_json b)) > max_block_size then Inl DataTooLarge else Inr (node_of b))"
  by (simp add: build_def new_block_def node_of_def)

lemma build_ok: "length (marshal (attributes_json b)) \<le> max_block_size \<Longrightarrow> build b = Inr (node_of b)"
  by (simp add: build_eq)

text \<open>Every node of a file fits into a block.\<close>

lemma leaf_fits:
  assumes "case c of None \<Rightarrow> True | Some bs \<Rightarrow> length bs \<le> chunk_size"
  shows "length (node_bytes (leaf c)) \<le> max_block_size"
proof (cases c)
  case None
  show ?thesis unfolding None leaf_def node_of_sel length_leaf_json length_raw_json(2) by (simp add: max_block_size_def)
next
  case (Some bs)
  have "length bs \<le> 262144" using assms by (simp add: Some chunk_size_def)
  then have "(length bs + 2) div 3 \<le> 87382" by linarith
  then have "length (marshal (inode_json (Raw c))) \<le> 349548" unfolding Some length_raw_json(1) by simp
  then have "(length (marshal (inode_json (Raw c))) + 2) div 3 \<le> 116516" by linarith
  then show ?thesis by (simp add: leaf_def length_leaf_json max_block_size_def del: inode_json.simps)
qed

lemma length_print_elems:
  "\<forall>v \<in> set vs. length (json_print v) \<le> k \<Longrightarrow> length (print_elems vs) \<le> 1 + length vs * (k + 1)"
proof (induction vs)
  case (Cons v vs)
  show ?case
  proof (cases vs)
    case Nil
    then show ?thesis using Cons.prems by simp
  next
    case (Cons v' vs')
    then show ?thesis using Cons.IH Cons.prems by (simp add: Cons)
  qed
qed simp

lemma parent_fits:
  assumes "length cs \<le> num_children" and "\<forall>c \<in> set cs. \<exists>d. node_cid c = cid_of d"
  shows "length (node_bytes (parent cs)) \<le> max_block_size"
proof -
  have l: "length (json_print (link_json \<lparr>link_name = '''', link_cid = node_cid c\<rparr>)) = 72" if "c \<in> set cs" for c
  proof -
    obtain d where "node_cid c = cid_of d" using assms(2) \<open>c \<in> set cs\<close> by blast
    then show ?thesis by (simp add: link_json_def length_quote_plain plain_names plain_cid)
  qed
  let ?vs = "map link_json (map (\<lambda>c. \<lparr>link_name = '''', link_cid = node_cid c\<rparr>) cs)"
  have "length (print_elems ?vs) \<le> 1 + length ?vs * (72 + 1)" by (rule length_print_elems) (use l in auto)
  also have "\<dots> \<le> 1 + 15 * 73" using assms(1) by (simp add: num_children_def)
  finally have "length (print_elems ?vs) \<le> 1096" by simp
  then show ?thesis
    by (simp add: parent_def marshal_def attributes_json_def bytes_json_def length_quote_plain plain_names max_block_size_def)
qed

subsection \<open>The loops build these nodes\<close>

lemma put_chunks_spec:
  assumes "st_open s" and "\<forall>c \<in> set cs. case c of None \<Rightarrow> True | Some bs \<Rightarrow> length bs \<le> chunk_size"
  shows "put_chunks s b cs = (Inr (map leaf cs), put_all s (map leaf cs))"
  using assms
proof (induction cs arbitrary: s b)
  case (Cons c cs)
  let ?b = "set_data (Some (marshal (inode_json (Raw c)))) (builder_reset b)"
  have b: "?b = \<lparr>at_links = Some [], at_data = Some (marshal (inode_json (Raw c)))\<rparr>"
    by (simp add: set_data_def builder_reset_def)
  have "length (marshal (attributes_json ?b)) \<le> max_block_size"
    using leaf_fits [of c] Cons.prems(2) unfolding b leaf_def by simp
  then have "build ?b = Inr (leaf c)" using build_ok [of ?b] unfolding b leaf_def by simp
  moreover obtain s1 where s1: "store_put s (mn_block (leaf c)) = (None, s1)" "st_open s1"
    using put_open [OF Cons.prems(1), of "mn_block (leaf c)"] by (cases "store_put s (mn_block (leaf c))") auto
  ultimately show ?case using Cons.IH [OF s1(2), of ?b] Cons.prems(2) by (simp add: Let_def)
qed simp

lemma fold_add_link:
  "fold (add_link '''') cs \<lparr>at_links = Some ls, at_data = d\<rparr> =
     \<lparr>at_links = Some (ls @ map (\<lambda>c. \<lparr>link_name = '''', link_cid = node_cid c\<rparr>) cs), at_data = d\<rparr>"
  by (induction cs arbitrary: ls) (simp_all add: add_link_def)

definition small :: "mnode list list \<Rightarrow> bool" where
  "small css \<longleftrightarrow> (\<forall>cs \<in> set css. length cs \<le> num_children \<and> (\<forall>c \<in> set cs. \<exists>d. node_cid c = cid_of d))"

lemma put_parents_spec:
  assumes "st_open s" and "small css"
  shows "put_parents s b css = (Inr (map parent css), put_all s (map parent css))"
  using assms
proof (induction css arbitrary: s b)
  case (Cons cs css)
  let ?b = "fold (add_link '''') cs (builder_reset b)"
  have b: "?b = \<lparr>at_links = Some (map (\<lambda>c. \<lparr>link_name = '''', link_cid = node_cid c\<rparr>) cs), at_data = None\<rparr>"
    by (simp add: builder_reset_def fold_add_link)
  have "length (marshal (attributes_json ?b)) \<le> max_block_size"
    using parent_fits [of cs] Cons.prems(2) unfolding b parent_def small_def by simp
  then have "build ?b = Inr (parent cs)" using build_ok [of ?b] unfolding b parent_def by simp
  moreover obtain s1 where s1: "store_put s (mn_block (parent cs)) = (None, s1)" "st_open s1"
    using put_open [OF Cons.prems(1), of "mn_block (parent cs)"] by (cases "store_put s (mn_block (parent cs))") auto
  moreover have "small css" using Cons.prems(2) by (simp add: small_def)
  ultimately show ?case using Cons.IH [OF s1(2), of ?b] by (simp add: Let_def)
qed simp

lemma small_chunks:
  assumes "\<forall>n \<in> set ns. \<exists>d. node_cid n = cid_of d"
  shows "small (chunks ns num_children)"
  unfolding small_def
proof (intro ballI conjI)
  fix cs assume cs: "cs \<in> set (chunks ns num_children)"
  show "length cs \<le> num_children" by (rule chunks_length_le [OF _ cs]) (simp add: num_children_def)
  fix c assume "c \<in> set cs"
  then have "c \<in> set ns" using cs set_chunks [of ns num_children] by auto
  then show "\<exists>d. node_cid c = cid_of d" using assms by blast
qed

lemma parents_cid: "\<forall>n \<in> set (map parent css). \<exists>d. node_cid n = cid_of d"
  by (auto simp: parent_def)

lemma build_dag_level_spec:
  assumes "st_open s" and "small css"
  shows "build_dag_level s css = (Inr (snd (upper_nodes css)), put_all s (fst (upper_nodes css)))"
  using assms
proof (induction css arbitrary: s rule: upper_nodes.induct)
  case (1 css)
  note ps = put_parents_spec [OF 1(2,3), of new_builder]
  show ?case
  proof (cases "length (map parent css) = 1")
    case True
    then show ?thesis by (subst build_dag_level.simps, subst (1 2) upper_nodes.simps) (simp add: ps Let_def)
  next
    case False
    let ?s = "put_all s (map parent css)"
    have "build_dag_level ?s (chunks (map parent css) num_children) =
        (Inr (snd (upper_nodes (chunks (map parent css) num_children))),
         put_all ?s (fst (upper_nodes (chunks (map parent css) num_children))))"
      by (rule 1(1) [OF refl False]) (use 1(2) small_chunks [OF parents_cid] in simp_all)
    then show ?thesis using False
      by (subst build_dag_level.simps, subst (1 2) upper_nodes.simps)
        (simp add: ps Let_def split: prod.split)
  qed
qed

lemma data_chunks_fit: "\<forall>c \<in> set (data_chunks data). case c of None \<Rightarrow> True | Some bs \<Rightarrow> length bs \<le> chunk_size"
  using chunks_length_le [of chunk_size] by (auto simp: data_chunks_def chunk_size_def split: option.splits)

lemma add_bytes_spec:
  assumes "st_open s"
  shows "add_bytes s data = (Inr (snd (file_dag data)), put_all s (fst (file_dag data)))"
proof -
  let ?ls = "map leaf (data_chunks data)"
  have pc: "put_chunks s new_builder (data_chunks data) = (Inr ?ls, put_all s ?ls)"
    by (rule put_chunks_spec [OF assms data_chunks_fit])
  have "small (chunks ?ls num_children)" by (rule small_chunks) (auto simp: leaf_def)
  from build_dag_level_spec [OF _ this, of "put_all s ?ls"] show ?thesis
    using assms by (simp add: add_bytes_def pc file_dag_def Let_def split: prod.split)
qed

subsection \<open>Reading a file back\<close>

text \<open>More fuel does not change a result.\<close>

lemma read_mono:
  "read_bytes f s n = Some r \<Longrightarrow> read_bytes (Suc f) s n = Some r"
  "read_links f s ls = Some r \<Longrightarrow> read_links (Suc f) s ls = Some r"
proof (induction f s n and f s ls arbitrary: r and r rule: read_bytes_read_links.induct)
  case (2 f s n)
  then show ?case by (cases "length (mn_links n) = 0") simp_all
next
  case (4 f s l ls)
  show ?case
  proof (cases "store_get s (link_cid l)")
    case (Inl e)
    then show ?thesis using 4(3) by simp
  next
    case b: (Inr b)
    show ?thesis
    proof (cases "parse_block b")
      case (Inl e)
      then show ?thesis using 4(3) b by simp
    next
      case m: (Inr m)
      obtain x where x: "read_bytes f s m = Some x" using 4(3) b m by (cases "read_bytes f s m") auto
      have x': "read_bytes (Suc f) s m = Some x" by (rule 4(1) [OF b m x])
      show ?thesis
      proof (cases x)
        case (Inl e)
        then show ?thesis using 4(3) b m x x' by (auto simp del: read_bytes.simps)
      next
        case (Inr chunk)
        obtain y where y: "read_links f s ls = Some y"
          using 4(3) b m x Inr by (cases "read_links f s ls") auto
        have "read_links (Suc f) s ls = Some y" using 4(2) [OF b m _ _ y] x Inr by simp
        then show ?thesis using 4(3) b m x x' Inr y by (simp del: read_bytes.simps)
      qed
    qed
  qed
qed simp_all

lemma read_mono_le:
  assumes "f \<le> f'"
  shows "read_bytes f s n = Some r \<Longrightarrow> read_bytes f' s n = Some r"
    and "read_links f s ls = Some r' \<Longrightarrow> read_links f' s ls = Some r'"
  using assms by (induction f' rule: dec_induct) (simp_all add: read_mono del: read_bytes.simps)

definition reads :: "store \<Rightarrow> mnode \<Rightarrow> u8 list \<Rightarrow> bool" where
  "reads s n d \<longleftrightarrow> (\<exists>f. read_bytes f s n = Some (Inr d))"

lemma reads_fun: "reads s n d \<Longrightarrow> reads s n d' \<Longrightarrow> d = d'"
proof -
  assume "reads s n d" "reads s n d'"
  then obtain f f' where "read_bytes f s n = Some (Inr d)" "read_bytes f' s n = Some (Inr d')"
    unfolding reads_def by blast
  then have "read_bytes (max f f') s n = Some (Inr d)" "read_bytes (max f f') s n = Some (Inr d')"
    using read_mono_le(1) by (meson max.cobounded1 max.cobounded2)+
  then show "d = d'" by simp
qed

text \<open>The content of a node, for a node that can be read.\<close>

definition content :: "store \<Rightarrow> mnode \<Rightarrow> u8 list" where
  "content s n = (THE d. reads s n d)"

lemma content_eq: "reads s n d \<Longrightarrow> content s n = d"
  unfolding content_def using reads_fun by blast

text \<open>A node as it was built, and a store that has its block.\<close>

definition genuine :: "mnode \<Rightarrow> bool" where
  "genuine n \<longleftrightarrow> parse_block (mn_block n) = Inr n \<and> node_cid n = cid_of (node_bytes n)"

definition holds :: "store \<Rightarrow> mnode \<Rightarrow> bool" where
  "holds s n \<longleftrightarrow> store_get s (node_cid n) = Inr (mn_block n)"

lemma genuine_node_of: "links_valid a \<Longrightarrow> genuine (node_of a)"
proof -
  assume a: "links_valid a"
  have "unmarshal decode_attributes (marshal (attributes_json a)) = Some a"
    using printable_attributes [OF a] decode_attributes_json [of a]
    by (simp add: unmarshal_marshal_json [of 3] max_depth_def)
  then show ?thesis by (simp add: genuine_def parse_block_def node_of_def)
qed

lemma genuine_leaf [simp]: "genuine (leaf c)"
  unfolding leaf_def by (rule genuine_node_of) (simp add: links_valid_def)

lemma valid_utf8_plain: "plain s \<Longrightarrow> valid_utf8 s"
  by (rule valid_utf8_ascii) (force simp: plain_def)

lemma genuine_parent: "\<forall>c \<in> set cs. genuine c \<Longrightarrow> genuine (parent cs)"
  unfolding parent_def
  by (rule genuine_node_of) (auto simp: links_valid_def genuine_def intro: valid_utf8_plain plain_cid plain_names)

lemma links_parent: "mn_links (parent cs) = map (\<lambda>c. \<lparr>link_name = '''', link_cid = node_cid c\<rparr>) cs"
  by (simp add: mn_links_def parent_def)

lemma reads_leaf: "reads s (leaf c) (case c of None \<Rightarrow> [] | Some bs \<Rightarrow> bs)"
proof -
  have "read_bytes 1 s (leaf c) = Some (Inr (case c of None \<Rightarrow> [] | Some bs \<Rightarrow> bs))"
    using unmarshal_inode_json [of "Raw c"] by (simp add: leaf_def mn_links_def mn_data_def)
  then show ?thesis unfolding reads_def by blast
qed

lemma read_links_nodes:
  assumes "\<forall>c \<in> set cs. genuine c \<and> holds s c \<and> reads s c (content s c)"
  shows "\<exists>f. read_links f s (map (\<lambda>c. \<lparr>link_name = nm c, link_cid = node_cid c\<rparr>) cs) = Some (Inr (concat (map (content s) cs)))"
  using assms
proof (induction cs)
  case (Cons c cs)
  obtain f where f: "read_links f s (map (\<lambda>c. \<lparr>link_name = nm c, link_cid = node_cid c\<rparr>) cs) = Some (Inr (concat (map (content s) cs)))"
    using Cons by auto
  obtain g where g: "read_bytes g s c = Some (Inr (content s c))" using Cons.prems unfolding reads_def by auto
  have "read_bytes (max f g) s c = Some (Inr (content s c))" by (rule read_mono_le(1) [OF _ g]) simp
  moreover have "read_links (max f g) s (map (\<lambda>c. \<lparr>link_name = nm c, link_cid = node_cid c\<rparr>) cs) = Some (Inr (concat (map (content s) cs)))"
    by (rule read_mono_le(2) [OF _ f]) simp
  moreover have "store_get s (node_cid c) = Inr (mn_block c)" "parse_block (mn_block c) = Inr c"
    using Cons.prems by (auto simp: holds_def genuine_def)
  ultimately have "read_links (max f g) s (map (\<lambda>c. \<lparr>link_name = nm c, link_cid = node_cid c\<rparr>) (c # cs)) = Some (Inr (concat (map (content s) (c # cs))))"
    by (simp del: read_bytes.simps)
  then show ?case by blast
qed simp

lemma reads_parent:
  assumes "\<forall>c \<in> set cs. genuine c \<and> holds s c \<and> reads s c (content s c)" and "cs \<noteq> []"
  shows "reads s (parent cs) (concat (map (content s) cs))"
proof -
  obtain f where "read_links f s (mn_links (parent cs)) = Some (Inr (concat (map (content s) cs)))"
    using read_links_nodes [OF assms(1), of "\<lambda>_. ''''"] unfolding links_parent by blast
  then have "read_bytes (Suc f) s (parent cs) = Some (Inr (concat (map (content s) cs)))"
    using assms(2) by (simp add: links_parent)
  then show ?thesis unfolding reads_def by blast
qed

lemma upper_nodes_read:
  assumes "\<forall>c \<in> set (concat css). genuine c \<and> holds s c \<and> reads s c (content s c)"
    and "[] \<notin> set css" and "css \<noteq> []" and "\<forall>n \<in> set (fst (upper_nodes css)). holds s n"
  shows "genuine (snd (upper_nodes css)) \<and> snd (upper_nodes css) \<in> set (fst (upper_nodes css)) \<and>
    reads s (snd (upper_nodes css)) (concat (map (content s) (concat css)))"
  using assms
proof (induction css rule: upper_nodes.induct)
  case (1 css)
  let ?ps = "map parent css"
  have par: "genuine (parent cs) \<and> reads s (parent cs) (concat (map (content s) cs))" if "cs \<in> set css" for cs
  proof -
    have "\<forall>c \<in> set cs. genuine c \<and> holds s c \<and> reads s c (content s c)" using 1(2) that by auto
    moreover have "cs \<noteq> []" using 1(3) that by auto
    ultimately show ?thesis using genuine_parent reads_parent by blast
  qed
  have con: "content s (parent cs) = concat (map (content s) cs)" if "cs \<in> set css" for cs
    using par [OF that] content_eq by blast
  have all: "concat (map (content s) ?ps) = concat (map (content s) (concat css))"
  proof -
    have "map (content s) ?ps = map (\<lambda>cs. concat (map (content s) cs)) css" using con by simp
    moreover have "concat (map (\<lambda>cs. concat (map g cs)) css) = concat (map g (concat css))" for g :: "mnode \<Rightarrow> u8 list"
      by (induction css) auto
    ultimately show ?thesis by (simp only:)
  qed
  show ?case
  proof (cases "length ?ps = 1")
    case True
    then obtain cs where cs: "css = [cs]" by (cases css) auto
    then show ?thesis using par [of cs] True by (subst (1 2 3 4) upper_nodes.simps) (simp add: Let_def)
  next
    case False
    let ?next = "upper_nodes (chunks ?ps num_children)"
    have un: "upper_nodes css = (?ps @ fst ?next, snd ?next)"
      using False by (subst upper_nodes.simps) (simp add: Let_def split: prod.split)
    have h: "\<forall>n \<in> set ?ps. holds s n" "\<forall>n \<in> set (fst ?next). holds s n" using 1(5) un by auto
    have ne: "?ps \<noteq> []" using 1(4) by simp
    have "genuine (snd ?next) \<and> snd ?next \<in> set (fst ?next) \<and>
        reads s (snd ?next) (concat (map (content s) (concat (chunks ?ps num_children))))"
    proof (rule 1(1) [OF refl False])
      show "\<forall>c \<in> set (concat (chunks ?ps num_children)). genuine c \<and> holds s c \<and> reads s c (content s c)"
        unfolding concat_chunks using par con h(1) by auto
      show "[] \<notin> set (chunks ?ps num_children)" using chunks_nonempty [OF ne] by blast
    qed (use h(2) in simp_all)
    then show ?thesis unfolding un concat_chunks using all by auto
  qed
qed

lemma data_chunks_content:
  "concat (map (\<lambda>c. case c of None \<Rightarrow> [] | Some bs \<Rightarrow> bs) (data_chunks data)) = (case data of None \<Rightarrow> [] | Some bs \<Rightarrow> bs)"
  by (cases data) (simp_all add: data_chunks_def comp_def concat_chunks)

text \<open>
  A store that has all blocks of a file, whatever else it has, gives the content back.
\<close>

lemma file_dag_reads:
  assumes "\<forall>n \<in> set (fst (file_dag data)). holds s n"
  shows "genuine (snd (file_dag data)) \<and> snd (file_dag data) \<in> set (fst (file_dag data)) \<and>
    reads s (snd (file_dag data)) (case data of None \<Rightarrow> [] | Some bs \<Rightarrow> bs)"
proof -
  let ?ls = "map leaf (data_chunks data)" and ?bytes = "\<lambda>c. case c of None \<Rightarrow> [] | Some bs \<Rightarrow> bs"
  have leaf: "content s (leaf c) = ?bytes c" for c by (rule content_eq [OF reads_leaf])
  have ne: "data_chunks data \<noteq> []" by (cases data) (simp_all add: data_chunks_def)
  show ?thesis
  proof (cases "length ?ls = 1")
    case True
    then obtain c where c: "data_chunks data = [c]" by (cases "data_chunks data") auto
    then have "?bytes c = (case data of None \<Rightarrow> [] | Some bs \<Rightarrow> bs)" using data_chunks_content [of data] by simp
    then show ?thesis using reads_leaf [of s c] c by (simp add: file_dag_def Let_def)
  next
    case False
    let ?css = "chunks ?ls num_children"
    have fd: "file_dag data = (?ls @ fst (upper_nodes ?css), snd (upper_nodes ?css))"
      using False by (simp add: file_dag_def Let_def split: prod.split)
    have h: "\<forall>n \<in> set ?ls. holds s n" "\<forall>n \<in> set (fst (upper_nodes ?css)). holds s n" using assms fd by auto
    have "genuine (snd (upper_nodes ?css)) \<and> snd (upper_nodes ?css) \<in> set (fst (upper_nodes ?css)) \<and>
        reads s (snd (upper_nodes ?css)) (concat (map (content s) (concat ?css)))"
    proof (rule upper_nodes_read)
      show "\<forall>c \<in> set (concat ?css). genuine c \<and> holds s c \<and> reads s c (content s c)"
        unfolding concat_chunks using h(1) leaf reads_leaf [of s] by auto
      show "[] \<notin> set ?css" using chunks_nonempty [of ?ls _ num_children] ne by auto
    qed (use h(2) in simp_all)
    then show ?thesis unfolding fd concat_chunks using data_chunks_content [of data] by (simp add: leaf comp_def)
  qed
qed

subsection \<open>What a store holds after the writes\<close>

definition honest :: "mnode \<Rightarrow> bool" where
  "honest n \<longleftrightarrow> node_cid n = cid_of (node_bytes n)"

lemma honest_node_of [simp]: "honest (node_of a)"
  by (simp add: honest_def)

lemma honest_upper: "n \<in> set (fst (upper_nodes css)) \<Longrightarrow> honest n"
proof (induction css arbitrary: n rule: upper_nodes.induct)
  case (1 css)
  show ?case
  proof (cases "length (map parent css) = 1")
    case True
    then have "n \<in> set (map parent css)" using 1(2) by (subst (asm) upper_nodes.simps) (simp add: Let_def)
    then show ?thesis by (auto simp: parent_def)
  next
    case False
    then have "n \<in> set (map parent css) \<or> n \<in> set (fst (upper_nodes (chunks (map parent css) num_children)))"
      using 1(2) by (subst (asm) upper_nodes.simps) (simp add: Let_def split: prod.splits)
    then show ?thesis using 1(1) [OF refl False] by (auto simp: parent_def)
  qed
qed

lemma honest_file: "n \<in> set (fst (file_dag data)) \<Longrightarrow> honest n"
proof (cases "length (data_chunks data) = 1")
  case True
  then show "n \<in> set (fst (file_dag data)) \<Longrightarrow> honest n" by (auto simp: file_dag_def Let_def leaf_def)
next
  case False
  let ?ls = "map leaf (data_chunks data)"
  assume "n \<in> set (fst (file_dag data))"
  then have "n \<in> set ?ls \<or> n \<in> set (fst (upper_nodes (chunks ?ls num_children)))"
    using False by (simp add: file_dag_def Let_def split: prod.splits)
  then show "honest n" using honest_upper by (auto simp: leaf_def)
qed

text \<open>No two of the blocks have one identifier.\<close>

definition no_collision :: "mnode list \<Rightarrow> bool" where
  "no_collision ns \<longleftrightarrow> inj_on cid_of (node_bytes ` set ns)"

lemma put_all_holds:
  assumes "st_open s" and "\<forall>n \<in> set ns. honest n" and "no_collision ns"
  shows "\<forall>n \<in> set ns. holds (put_all s ns) n"
  using assms
proof (induction ns rule: rev_induct)
  case (snoc m ns)
  have IH: "\<forall>n \<in> set ns. holds (put_all s ns) n"
    using snoc by (simp add: no_collision_def)
  obtain s' where put: "store_put (put_all s ns) (mn_block m) = (None, s')"
    using snoc.prems(1) by (simp add: store_put_def)
  have s': "put_all s (ns @ [m]) = s'" using put by simp
  have op: "st_open (put_all s ns)" using snoc.prems(1) by simp
  show ?case
  proof
    fix n assume n: "n \<in> set (ns @ [m])"
    show "holds (put_all s (ns @ [m])) n"
    proof (cases "node_cid n = node_cid m")
      case True
      have "cid_of (node_bytes n) = cid_of (node_bytes m)" using True n snoc.prems(2) by (auto simp: honest_def)
      then have "node_bytes n = node_bytes m"
        by (rule inj_onD [OF snoc.prems(3) [unfolded no_collision_def]]) (use n in auto)
      then have "mn_block n = mn_block m" using True by (cases "mn_block n"; cases "mn_block m") simp
      then show ?thesis using rows.get_put [OF op put] unfolding s' holds_def by simp
    next
      case False
      then have "holds (put_all s ns) n" using n IH by auto
      then show ?thesis using rows.get_other [OF op put False] unfolding s' holds_def by simp
    qed
  qed
qed simp

subsection \<open>The nodes of a tree\<close>

fun tree_nodes :: "tree \<Rightarrow> mnode list \<times> mnode"
  and entry_nodes :: "(string \<times> tree) list \<Rightarrow> mnode list \<times> link list" where
  "tree_nodes (File d) = file_dag (Some d)"
| "tree_nodes (Dir es) =
     (let d = node_of \<lparr>at_links = Some (snd (entry_nodes es)), at_data = None\<rparr>
      in (fst (entry_nodes es) @ [d], d))"
| "tree_nodes Unreadable = ([], node_of new_builder)"
| "entry_nodes [] = ([], [])"
| "entry_nodes ((nm, t) # es) =
     (fst (tree_nodes t) @ fst (entry_nodes es),
      \<lparr>link_name = nm, link_cid = node_cid (snd (tree_nodes t))\<rparr> # snd (entry_nodes es))"

lemma add_path_spec:
  "add_path s path t = (Inr (n, recs), s') \<Longrightarrow> st_open s \<Longrightarrow>
     n = snd (tree_nodes t) \<and> s' = put_all s (fst (tree_nodes t))"
  "add_entries s path b recs0 es = (Inr (b', recs'), s') \<Longrightarrow> st_open s \<Longrightarrow> at_links b = Some ls \<Longrightarrow>
     b' = b\<lparr>at_links := Some (ls @ snd (entry_nodes es))\<rparr> \<and> s' = put_all s (fst (entry_nodes es))"
proof (induction s path t and s path b recs0 es arbitrary: n recs s' and b' recs' s' ls rule: add_path_add_entries.induct)
  case (1 s path)
  then show ?case by simp
next
  case (2 s path data)
  then show ?case by (simp add: add_bytes_spec)
next
  case (3 s path entries)
  obtain b records s1 where e: "add_entries s path new_builder [] entries = (Inr (b, records), s1)"
    using 3(2) by (auto split: prod.splits sum.splits)
  have b: "b = \<lparr>at_links = Some (snd (entry_nodes entries)), at_data = None\<rparr>" "s1 = put_all s (fst (entry_nodes entries))"
    using 3(1) [OF e 3(3)] by (simp_all add: new_builder_def)
  obtain m where m: "build b = Inr m" using 3(2) e by (auto split: sum.splits)
  then have mb: "m = node_of b" by (auto simp: build_eq split: if_splits)
  have "store_put s1 (mn_block m) = (None, snd (store_put s1 (mn_block m)))"
    using 3(3) b(2) by (simp add: store_put_def)
  then show ?case using 3(2) e m b mb by (auto simp: Let_def split: prod.splits)
next
  case (4 s path b records)
  then show ?case by (cases b) simp
next
  case (5 s path b records name t es)
  obtain child recs s1 where c: "add_path s (path @ ''/'' @ name) t = (Inr (child, recs), s1)"
    using 5(3) by (auto split: prod.splits sum.splits)
  have ch: "child = snd (tree_nodes t)" "s1 = put_all s (fst (tree_nodes t))" using 5(1) [OF c 5(4)] by simp_all
  have rest: "add_entries s1 path (add_link name child b) (records @ recs) es = (Inr (b', recs'), s')"
    using 5(3) c by simp
  have "st_open s1" using 5(4) ch(2) by simp
  from 5(2) [OF c [symmetric] refl refl rest this, of "ls @ [\<lparr>link_name = name, link_cid = node_cid child\<rparr>]"]
  show ?case using 5(5) ch by (simp add: add_link_def)
qed

end
