(* ===== verification/Fs_Correct.thy ===== *)
theory Fs_Correct
  imports Fs
begin

text \<open>
  What the file system promises: a file that is added can be resolved and read back, from this
  store or from any store that has the blocks its DAG lists; adding bytes never fails on an open
  store; paths resolve as in the tree that was added.  Statements about stored blocks allow for
  two contents with one SHA-256 digest.
\<close>

subsection \<open>Two contents with one digest\<close>

definition collides :: "mnode list \<Rightarrow> bool" where
  "collides ns \<longleftrightarrow>
     (\<exists>m \<in> set ns. \<exists>n \<in> set ns. node_bytes m \<noteq> node_bytes n \<and> sha256 (node_bytes m) = sha256 (node_bytes n))"

lemma no_collision_or: "collides ns \<or> no_collision ns"
  by (auto simp: collides_def no_collision_def inj_on_def cid_of_inject)

subsection \<open>Nodes that a store holds\<close>

lemma holds_get: "holds s n \<Longrightarrow> store_get s (node_cid n) = Inr (mn_block n)"
  by (simp add: holds_def)

lemma resolve_held:
  assumes "genuine n" and "holds s n"
  shows "resolve s (node_cid n) [] = Inr n"
    and "resolve s (node_cid n) (p # ps) =
      (case find_link p (mn_links n) of None \<Rightarrow> Inl InvalidPath | Some c \<Rightarrow> resolve s c ps)"
proof -
  have "store_get s (node_cid n) = Inr (mn_block n)" "parse_block (mn_block n) = Inr n"
    using assms by (simp_all add: holds_def genuine_def)
  then show "resolve s (node_cid n) [] = Inr n"
    and "resolve s (node_cid n) (p # ps) =
      (case find_link p (mn_links n) of None \<Rightarrow> Inl InvalidPath | Some c \<Rightarrow> resolve s c ps)"
    by (simp_all add: resolve.simps [of s "node_cid n"])
qed

lemma upper_nodes_one: "upper_nodes [cs] = ([parent cs], parent cs)"
  by (subst upper_nodes.simps) simp

lemma upper_nodes_more:
  assumes "length css \<noteq> 1"
  shows "upper_nodes css =
    (map parent css @ fst (upper_nodes (chunks (map parent css) num_children)),
     snd (upper_nodes (chunks (map parent css) num_children)))"
  using assms by (subst upper_nodes.simps) (simp add: Let_def split: prod.split)

lemma upper_root: "snd (upper_nodes css) \<in> set (fst (upper_nodes css)) \<and>
    (\<exists>cs. snd (upper_nodes css) = parent cs)"
proof (induction css rule: upper_nodes.induct)
  case (1 css)
  show ?case
  proof (cases "length css = 1")
    case True
    then obtain cs where "css = [cs]" by (cases css) auto
    then show ?thesis by (auto simp: upper_nodes_one)
  next
    case False
    then show ?thesis using 1 [OF refl] unfolding upper_nodes_more [OF False] by simp
  qed
qed

lemma file_root: "snd (file_dag d) \<in> set (fst (file_dag d)) \<and>
   ((\<exists>c. data_chunks d = [c] \<and> snd (file_dag d) = leaf c) \<or> (\<exists>cs. snd (file_dag d) = parent cs))"
proof (cases "length (data_chunks d) = 1")
  case True
  then obtain c where "data_chunks d = [c]" by (cases "data_chunks d") auto
  then show ?thesis by (simp add: file_dag_def Let_def)
next
  case False
  let ?css = "chunks (map leaf (data_chunks d)) num_children"
  have "file_dag d = (map leaf (data_chunks d) @ fst (upper_nodes ?css), snd (upper_nodes ?css))"
    using False by (simp add: file_dag_def Let_def split: prod.split)
  then show ?thesis using upper_root [of ?css] by auto
qed

lemma links_leaf [simp]: "mn_links (leaf c) = []"
  by (simp add: leaf_def mn_links_def)

lemma file_link_names: "l \<in> set (mn_links (snd (file_dag d))) \<Longrightarrow> link_name l = ''''"
proof -
  assume l: "l \<in> set (mn_links (snd (file_dag d)))"
  from file_root [of d] show ?thesis
  proof (elim conjE disjE exE)
    fix c assume "snd (file_dag d) = leaf c"
    then show ?thesis using l by simp
  next
    fix cs assume "snd (file_dag d) = parent cs"
    then have "l \<in> set (map (\<lambda>c. \<lparr>link_name = '''', link_cid = node_cid c\<rparr>) cs)" using l by (simp only: links_parent)
    then show ?thesis by auto
  qed
qed

lemma file_nodes_small: "n \<in> set (fst (file_dag d)) \<Longrightarrow>
   length (node_bytes n) \<le> max_block_size \<and> length (mn_links n) \<le> num_children \<and> genuine n"
proof -
  have small_par: "length (node_bytes (parent cs)) \<le> max_block_size \<and>
      length (mn_links (parent cs)) \<le> num_children \<and> genuine (parent cs)"
    if "small css" "cs \<in> set css" "\<forall>c \<in> set cs. genuine c" for css cs
    using that parent_fits [of cs] genuine_parent [of cs] by (simp add: small_def links_parent)
  have upper: "length (node_bytes n) \<le> max_block_size \<and> length (mn_links n) \<le> num_children \<and> genuine n"
    if "n \<in> set (fst (upper_nodes css))" "small css" "\<forall>cs \<in> set css. \<forall>c \<in> set cs. genuine c" for css n
    using that
  proof (induction css rule: upper_nodes.induct)
    case (1 css)
    let ?next = "chunks (map parent css) num_children"
    have "n \<in> set (map parent css) \<or> (length (map parent css) \<noteq> 1 \<and> n \<in> set (fst (upper_nodes ?next)))"
      using 1(2) by (subst (asm) upper_nodes.simps) (auto simp: Let_def split: prod.splits if_splits)
    then show ?case
    proof
      assume "n \<in> set (map parent css)"
      then show ?thesis using small_par [OF 1(3)] 1(4) by auto
    next
      assume n: "length (map parent css) \<noteq> 1 \<and> n \<in> set (fst (upper_nodes ?next))"
      have "small ?next" by (rule small_chunks [OF parents_cid])
      moreover have "genuine c" if cs: "cs \<in> set ?next" and c: "c \<in> set cs" for cs c
      proof -
        have "c \<in> set (concat ?next)" using cs c by auto
        then have "c \<in> set (map parent css)" by (simp only: concat_chunks)
        then obtain cs' where "cs' \<in> set css" "c = parent cs'" by auto
        then show ?thesis using genuine_parent [of cs'] 1(4) by blast
      qed
      ultimately show ?thesis using 1(1) [OF refl] n by blast
    qed
  qed
  let ?ls = "map leaf (data_chunks d)"
  have leaf: "length (node_bytes n) \<le> max_block_size \<and> length (mn_links n) \<le> num_children \<and> genuine n"
    if n: "n \<in> set ?ls" for n
  proof -
    obtain c where c: "n = leaf c" "c \<in> set (data_chunks d)" using n by (auto simp del: node_of_sel)
    then have "case c of None \<Rightarrow> True | Some bs \<Rightarrow> length bs \<le> chunk_size" using data_chunks_fit by blast
    then show ?thesis unfolding c(1) using leaf_fits [of c] by (simp del: node_of_sel)
  qed
  assume n: "n \<in> set (fst (file_dag d))"
  show ?thesis
  proof (cases "n \<in> set ?ls")
    case True
    then show ?thesis by (rule leaf)
  next
    case False
    then have "n \<in> set (fst (upper_nodes (chunks ?ls num_children)))"
      using n by (auto simp: file_dag_def Let_def split: prod.splits if_splits)
    moreover have "small (chunks ?ls num_children)" by (rule small_chunks) (auto simp: leaf_def)
    moreover have "genuine c" if cs: "cs \<in> set (chunks ?ls num_children)" and c: "c \<in> set cs" for cs c
    proof -
      have "c \<in> set (concat (chunks ?ls num_children))" using cs c by auto
      then have "c \<in> set ?ls" by (simp only: concat_chunks)
      then show ?thesis by auto
    qed
    ultimately show ?thesis using upper by blast
  qed
qed

subsection \<open>Following a DAG\<close>

text \<open>What a successful \<^verbatim>\<open>DAG\<close> has seen.\<close>

lemma dag_SucE:
  assumes "dag (Suc f) s c = Some (Inr (cs, sz))"
  obtains b m cs1 sz1 where "store_get s c = Inr b" "parse_block b = Inr m"
    "dag_links f s (mn_links m) = Some (Inr (cs1, sz1))" "cs = c # cs1"
    "sz = length (block_data (mn_block m)) + sz1"
  using assms by (auto split: sum.splits option.splits prod.splits)

lemma dag_links_ConsE:
  assumes "dag_links f s (l # ls) = Some (Inr (cs, sz))"
  obtains cs1 sz1 cs2 sz2 where "dag f s (link_cid l) = Some (Inr (cs1, sz1))"
    "dag_links f s ls = Some (Inr (cs2, sz2))" "cs = cs1 @ cs2" "sz = sz1 + sz2"
  using assms by (auto split: sum.splits option.splits prod.splits)

lemma dag_agrees:
  "dag f s c = Some (Inr (cs, sz)) \<Longrightarrow> \<forall>c \<in> set cs. store_get s' c = store_get s c \<Longrightarrow>
     dag f s' c = Some (Inr (cs, sz))"
  "dag_links f s ls = Some (Inr (cs, sz)) \<Longrightarrow> \<forall>c \<in> set cs. store_get s' c = store_get s c \<Longrightarrow>
     dag_links f s' ls = Some (Inr (cs, sz))"
proof (induction f s c and f s ls arbitrary: cs sz and cs sz rule: dag_dag_links.induct)
  case (2 f s c)
  from 2(2) show ?case
  proof (rule dag_SucE)
    fix b m cs1 sz1
    assume *: "store_get s c = Inr b" "parse_block b = Inr m" "dag_links f s (mn_links m) = Some (Inr (cs1, sz1))"
      "cs = c # cs1" "sz = length (block_data (mn_block m)) + sz1"
    have "dag_links f s' (mn_links m) = Some (Inr (cs1, sz1))" using 2(1) [OF *(1-3)] 2(3) *(4) by simp
    moreover have "store_get s' c = Inr b" using 2(3) * by simp
    ultimately show ?thesis using * by simp
  qed
next
  case (4 f s l ls)
  from 4(3) show ?case
  proof (rule dag_links_ConsE)
    fix cs1 sz1 cs2 sz2
    assume *: "dag f s (link_cid l) = Some (Inr (cs1, sz1))" "dag_links f s ls = Some (Inr (cs2, sz2))"
      "cs = cs1 @ cs2" "sz = sz1 + sz2"
    have "dag f s' (link_cid l) = Some (Inr (cs1, sz1))" using 4(1) [OF *(1)] 4(4) *(3) by simp
    moreover have "dag_links f s' ls = Some (Inr (cs2, sz2))" using 4(2) [OF *(1) refl refl *(2)] 4(4) *(3) by simp
    ultimately show ?thesis using *(3,4) by simp
  qed
qed simp_all

lemma dag_root: "dag f s c = Some (Inr (cs, sz)) \<Longrightarrow> c \<in> set cs"
  by (cases f) (auto elim!: dag_SucE simp del: dag.simps(2))

lemma dag_links_sub:
  "dag_links f s ls = Some (Inr (cs, sz)) \<Longrightarrow> l \<in> set ls \<Longrightarrow>
     \<exists>cs1 sz1. dag f s (link_cid l) = Some (Inr (cs1, sz1)) \<and> set cs1 \<subseteq> set cs"
proof (induction ls arbitrary: cs sz)
  case (Cons l' ls)
  from Cons.prems(1) show ?case
  proof (rule dag_links_ConsE)
    fix cs1 sz1 cs2 sz2
    assume *: "dag f s (link_cid l') = Some (Inr (cs1, sz1))" "dag_links f s ls = Some (Inr (cs2, sz2))" "cs = cs1 @ cs2"
    show ?thesis
    proof (cases "l = l'")
      case True
      then show ?thesis using * by auto
    next
      case False
      then show ?thesis using Cons.IH [OF *(2)] Cons.prems(2) *(3) by auto
    qed
  qed
qed simp

lemma find_link_in: "find_link p ls = Some c \<Longrightarrow> \<exists>l \<in> set ls. link_cid l = c"
  by (induction ls) (auto split: if_splits)

lemma dag_resolve:
  "dag f s c = Some (Inr (cs, sz)) \<Longrightarrow> \<forall>c \<in> set cs. store_get s' c = store_get s c \<Longrightarrow>
     resolve s' c parts = resolve s c parts"
proof (induction parts arbitrary: f c cs sz)
  case Nil
  then show ?case using dag_root [OF Nil(1)] by (simp add: resolve.simps [of _ c "[]"] split: sum.split)
next
  case (Cons p ps)
  obtain g where g: "f = Suc g" using Cons.prems(1) by (cases f) auto
  from Cons.prems(1) [unfolded g] show ?case
  proof (rule dag_SucE)
    fix b m cs1 sz1
    assume *: "store_get s c = Inr b" "parse_block b = Inr m" "dag_links g s (mn_links m) = Some (Inr (cs1, sz1))"
      "cs = c # cs1"
    have "store_get s' c = Inr b" using Cons.prems(2) * by simp
    moreover have "resolve s' c' ps = resolve s c' ps" if c': "find_link p (mn_links m) = Some c'" for c'
    proof -
      obtain l where l: "l \<in> set (mn_links m)" "link_cid l = c'" using find_link_in [OF c'] by auto
      obtain cs2 sz2 where d: "dag g s c' = Some (Inr (cs2, sz2))" "set cs2 \<subseteq> set cs1"
        using dag_links_sub [OF *(3) l(1)] l(2) by auto
      then have "\<forall>c \<in> set cs2. store_get s' c = store_get s c" using Cons.prems(2) *(4) by auto
      then show ?thesis by (rule Cons.IH [OF d(1)])
    qed
    ultimately show ?thesis using * by (simp add: resolve.simps [of _ c] split: option.split)
  qed
qed

lemma dag_read:
  "dag f s c = Some (Inr (cs, sz)) \<Longrightarrow> \<forall>c \<in> set cs. store_get s' c = store_get s c \<Longrightarrow>
     resolve s c [] = Inr n \<Longrightarrow> read_bytes g s' n = read_bytes g s n"
  "dag_links f s ls = Some (Inr (cs, sz)) \<Longrightarrow> \<forall>c \<in> set cs. store_get s' c = store_get s c \<Longrightarrow>
     read_links g s' ls = read_links g s ls"
proof (induction f s c and f s ls arbitrary: cs sz g n and cs sz g rule: dag_dag_links.induct)
  case (2 f s c)
  from 2(2) show ?case
  proof (rule dag_SucE)
    fix b m cs1 sz1
    assume *: "store_get s c = Inr b" "parse_block b = Inr m" "dag_links f s (mn_links m) = Some (Inr (cs1, sz1))"
      "cs = c # cs1"
    have n: "n = m" using 2(4) * by (simp add: resolve.simps [of s c])
    have "read_links h s' (mn_links m) = read_links h s (mn_links m)" for h
      using 2(1) [OF *(1-3)] 2(3) *(4) by simp
    then show ?thesis unfolding n by (cases g) simp_all
  qed
next
  case (4 f s l ls)
  from 4(3) show ?case
  proof (rule dag_links_ConsE)
    fix cs1 sz1 cs2 sz2
    assume *: "dag f s (link_cid l) = Some (Inr (cs1, sz1))" "dag_links f s ls = Some (Inr (cs2, sz2))"
      "cs = cs1 @ cs2"
    have links: "read_links g s' ls = read_links g s ls" using 4(2) [OF *(1) refl refl *(2)] 4(4) *(3) by simp
    have same: "store_get s' (link_cid l) = store_get s (link_cid l)" using dag_root [OF *(1)] 4(4) *(3) by simp
    have sub: "read_bytes g s' m = read_bytes g s m"
      if "store_get s (link_cid l) = Inr b" "parse_block b = Inr m" for b m
      using 4(1) [OF *(1)] 4(4) *(3) that by (simp add: resolve.simps [of s "link_cid l"])
    show ?thesis
    proof (cases "store_get s (link_cid l)")
      case b: (Inr b)
      then show ?thesis using links same sub [OF b]
        by (cases "parse_block b") (simp_all cong: option.case_cong sum.case_cong)
    qed (simp add: same)
  qed
qed simp_all

text \<open>A DAG that ends can be read, and one that can be read ends.\<close>

lemma dag_read_ends:
  "dag f s c = Some (Inr (cs, sz)) \<Longrightarrow> resolve s c [] = Inr n \<Longrightarrow> \<exists>r. read_bytes f s n = Some r"
  "dag_links f s ls = Some (Inr (cs, sz)) \<Longrightarrow> \<exists>r. read_links f s ls = Some r"
proof (induction f s c and f s ls arbitrary: cs sz n and cs sz rule: dag_dag_links.induct)
  case (2 f s c)
  from 2(2) show ?case
  proof (rule dag_SucE)
    fix b m cs1 sz1
    assume *: "store_get s c = Inr b" "parse_block b = Inr m" "dag_links f s (mn_links m) = Some (Inr (cs1, sz1))"
    have n: "n = m" using 2(3) * by (simp add: resolve.simps [of s c])
    show ?thesis using 2(1) [OF *] unfolding n by simp
  qed
next
  case (4 f s l ls)
  from 4(3) show ?case
  proof (rule dag_links_ConsE)
    fix cs1 sz1 cs2 sz2
    assume *: "dag f s (link_cid l) = Some (Inr (cs1, sz1))" "dag_links f s ls = Some (Inr (cs2, sz2))"
      "cs = cs1 @ cs2"
    obtain r where r: "read_links f s ls = Some r" using 4(2) [OF *(1) refl refl *(2)] by blast
    have sub: "\<exists>r. read_bytes f s m = Some r"
      if "store_get s (link_cid l) = Inr b" "parse_block b = Inr m" for b m
      using 4(1) [OF *(1)] that by (simp add: resolve.simps [of s "link_cid l"])
    show ?thesis
    proof (cases "store_get s (link_cid l)")
      case b: (Inr b)
      show ?thesis
      proof (cases "parse_block b")
        case (Inr m)
        from sub [OF b Inr] obtain r' where "read_bytes f s m = Some r'" by blast
        then show ?thesis using b Inr r by (cases r'; cases r) simp_all
      qed (simp add: b)
    qed simp
  qed
qed simp_all

lemma read_dag_ends:
  "read_bytes f s n = Some (Inr d) \<Longrightarrow> resolve s c [] = Inr n \<Longrightarrow> \<exists>cs sz. dag f s c = Some (Inr (cs, sz))"
  "read_links f s ls = Some (Inr d) \<Longrightarrow> \<exists>cs sz. dag_links f s ls = Some (Inr (cs, sz))"
proof (induction f s n and f s ls arbitrary: d c and d rule: read_bytes_read_links.induct)
  case (2 f s n)
  have n: "\<exists>b. store_get s c = Inr b \<and> parse_block b = Inr n"
    using 2(3) by (auto simp: resolve.simps [of s c] split: sum.splits)
  have "\<exists>cs sz. dag_links f s (mn_links n) = Some (Inr (cs, sz))"
    using 2(1,2) by (cases "length (mn_links n) = 0") auto
  then show ?case using n by auto
next
  case (4 f s l ls)
  obtain b where b: "store_get s (link_cid l) = Inr b" using 4(3) by (cases "store_get s (link_cid l)") auto
  obtain m where m: "parse_block b = Inr m" using 4(3) b by (cases "parse_block b") auto
  obtain x where x: "read_bytes f s m = Some (Inr x)"
    using 4(3) b m by (auto split: option.splits sum.splits simp del: read_bytes.simps)
  obtain y where y: "read_links f s ls = Some (Inr y)"
    using 4(3) b m x by (auto split: option.splits sum.splits simp del: read_bytes.simps)
  have r: "resolve s (link_cid l) [] = Inr m" using b m by (simp add: resolve.simps [of s "link_cid l"])
  obtain cs sz where c: "dag f s (link_cid l) = Some (Inr (cs, sz))" using 4(1) [OF b m x r] by blast
  obtain cs' sz' where "dag_links f s ls = Some (Inr (cs', sz'))" using 4(2) [OF b m x refl y] by blast
  then show ?case using c by (simp del: dag.simps)
qed simp_all

text \<open>The size of a DAG is that of the blocks it lists.\<close>

definition block_size :: "store \<Rightarrow> cid \<Rightarrow> nat" where
  "block_size s c = (case store_get s c of Inl _ \<Rightarrow> 0 | Inr b \<Rightarrow> length (block_data b))"

lemma parse_block_keeps: "parse_block b = Inr m \<Longrightarrow> mn_block m = b"
  by (auto simp: parse_block_def split: option.splits)

lemma dag_size:
  "dag f s c = Some (Inr (cs, sz)) \<Longrightarrow> sz = sum_list (map (block_size s) cs)"
  "dag_links f s ls = Some (Inr (cs, sz)) \<Longrightarrow> sz = sum_list (map (block_size s) cs)"
proof (induction f s c and f s ls arbitrary: cs sz and cs sz rule: dag_dag_links.induct)
  case (2 f s c)
  from 2(2) show ?case
  proof (rule dag_SucE)
    fix b m cs1 sz1
    assume *: "store_get s c = Inr b" "parse_block b = Inr m" "dag_links f s (mn_links m) = Some (Inr (cs1, sz1))"
      "cs = c # cs1" "sz = length (block_data (mn_block m)) + sz1"
    show ?thesis using 2(1) [OF *(1-3)] * parse_block_keeps [OF *(2)] by (simp add: block_size_def)
  qed
next
  case (4 f s l ls)
  from 4(3) show ?case
  proof (rule dag_links_ConsE)
    fix cs1 sz1 cs2 sz2
    assume *: "dag f s (link_cid l) = Some (Inr (cs1, sz1))" "dag_links f s ls = Some (Inr (cs2, sz2))"
      "cs = cs1 @ cs2" "sz = sz1 + sz2"
    show ?thesis using 4(1) [OF *(1)] 4(2) [OF *(1) refl refl *(2)] *(3,4) by simp
  qed
qed simp_all

subsection \<open>Paths in a tree\<close>

text \<open>The tree as the specification of what a path names.\<close>

fun lookup_tree :: "tree \<Rightarrow> string list \<Rightarrow> tree option" where
  "lookup_tree t [] = Some t"
| "lookup_tree (Dir es) (p # ps) = (case map_of es p of None \<Rightarrow> None | Some t \<Rightarrow> lookup_tree t ps)"
| "lookup_tree (File d) (p # ps) = None"
| "lookup_tree Unreadable (p # ps) = None"

definition name_ok :: "string \<Rightarrow> bool" where
  "name_ok p \<longleftrightarrow> p \<noteq> '''' \<and> CHR ''/'' \<notin> set p"

text \<open>Names that a directory can have, in UTF-8; everything readable.\<close>

fun tree_ok :: "tree \<Rightarrow> bool" where
  "tree_ok (File d) = True"
| "tree_ok (Dir es) = list_all (\<lambda>(p, t). name_ok p \<and> valid_utf8 p \<and> tree_ok t) es"
| "tree_ok Unreadable = False"

text \<open>A path below a root, as \<^verbatim>\<open>Cat\<close> and \<^verbatim>\<open>Upload\<close> take it.\<close>

definition path_text :: "cid \<Rightarrow> string list \<Rightarrow> string" where
  "path_text c parts = c @ concat (map (\<lambda>p. CHR ''/'' # p) parts)"

lemma split_path:
  "CHR ''/'' \<notin> set c \<Longrightarrow> \<forall>p \<in> set parts. CHR ''/'' \<notin> set p \<Longrightarrow> split_at (CHR ''/'') (path_text c parts) = c # parts"
proof (induction parts arbitrary: c)
  case Nil
  then show ?case by (simp add: path_text_def split_at_none)
next
  case (Cons p ps)
  have "path_text c (p # ps) = c @ CHR ''/'' # path_text p ps" by (simp add: path_text_def)
  then show ?case using Cons split_at_append [of "CHR ''/''" c] by simp
qed

lemma no_slash_cid: "CHR ''/'' \<notin> set (cid_of d)"
  using cid_chars [of "CHR ''/''" d] by auto

lemma resolve_path_text:
  "\<forall>p \<in> set parts. CHR ''/'' \<notin> set p \<Longrightarrow> resolve_path s (path_text (cid_of d) parts) = resolve s (cid_of d) parts"
  by (simp add: resolve_path_def split_path no_slash_cid)

subsection \<open>The nodes of a tree\<close>

lemma tree_root: "snd (tree_nodes t) \<in> set (fst (tree_nodes t)) \<or> t = Unreadable"
  using file_root by (cases t) (simp_all add: Let_def)

lemma honest_tree [simp]: "node_cid (snd (tree_nodes t)) = cid_of (node_bytes (snd (tree_nodes t)))"
proof (cases t)
  case (File d)
  then show ?thesis using honest_file [of "snd (file_dag (Some d))" "Some d"] file_root by (simp add: honest_def)
qed (simp_all add: Let_def)

lemma find_entry:
  "find_link p (snd (entry_nodes es)) = map_option (\<lambda>t. node_cid (snd (tree_nodes t))) (map_of es p)"
  by (induction es) auto

lemma entries_sub: "(p, t) \<in> set es \<Longrightarrow> set (fst (tree_nodes t)) \<subseteq> set (fst (entry_nodes es))"
  by (induction es) auto

lemma entry_links: "l \<in> set (snd (entry_nodes es)) \<Longrightarrow>
    \<exists>(p, t) \<in> set es. l = \<lparr>link_name = p, link_cid = node_cid (snd (tree_nodes t))\<rparr>"
  by (induction es) fastforce+

lemma genuine_tree: "tree_ok t \<Longrightarrow> genuine (snd (tree_nodes t))"
proof (cases t)
  case (File d)
  then show ?thesis using file_nodes_small file_root by auto
next
  case (Dir es)
  assume ok: "tree_ok t"
  have "valid_utf8 (link_name l) \<and> valid_utf8 (link_cid l)" if l: "l \<in> set (snd (entry_nodes es))" for l
  proof -
    obtain p t' where e: "(p, t') \<in> set es" "l = \<lparr>link_name = p, link_cid = node_cid (snd (tree_nodes t'))\<rparr>"
      using entry_links [OF l] by blast
    have "valid_utf8 p" using ok e(1) by (auto simp: Dir list_all_iff)
    moreover have "valid_utf8 (cid_of x)" for x by (rule valid_utf8_plain [OF plain_cid])
    ultimately show ?thesis by (simp add: e(2))
  qed
  then show ?thesis using genuine_node_of by (simp add: Dir Let_def links_valid_def)
qed simp

lemma find_unnamed: "\<forall>l \<in> set ls. link_name l = '''' \<Longrightarrow> p \<noteq> '''' \<Longrightarrow> find_link p ls = None"
  by (induction ls) auto

lemma tree_resolve:
  assumes "tree_ok t" and "\<forall>n \<in> set (fst (tree_nodes t)). holds s n" and "\<forall>p \<in> set parts. name_ok p"
  shows "resolve s (node_cid (snd (tree_nodes t))) parts =
    (case lookup_tree t parts of None \<Rightarrow> Inl InvalidPath | Some t' \<Rightarrow> Inr (snd (tree_nodes t')))"
  using assms
proof (induction t parts rule: lookup_tree.induct)
  case (1 t)
  then have "holds s (snd (tree_nodes t))" using tree_root [of t] by auto
  then show ?case using resolve_held(1) [OF genuine_tree [OF 1(1)]] by (simp del: honest_tree)
next
  case (2 es p ps)
  let ?n = "snd (tree_nodes (Dir es))"
  have h: "holds s ?n" using 2(3) tree_root [of "Dir es"] by auto
  have links: "mn_links ?n = snd (entry_nodes es)" by (simp add: Let_def mn_links_def)
  note r = resolve_held(2) [OF genuine_tree [OF 2(2)] h, of p ps, unfolded links find_entry]
  show ?case
  proof (cases "map_of es p")
    case None
    then show ?thesis using r by (simp del: honest_tree tree_nodes.simps)
  next
    case (Some t)
    have t: "(p, t) \<in> set es" using Some by (rule map_of_SomeD)
    have ok: "tree_ok t" using 2(2) t by (auto simp: list_all_iff)
    have "\<forall>n \<in> set (fst (tree_nodes t)). holds s n" using 2(3) entries_sub [OF t] by (auto simp: Let_def)
    from 2(1) [OF Some ok this] show ?thesis using 2(4) r Some by (simp del: honest_tree tree_nodes.simps)
  qed
next
  case (3 d p ps)
  have h: "holds s (snd (file_dag (Some d)))" using 3(2) file_root [of "Some d"] by simp
  have "genuine (snd (file_dag (Some d)))" using genuine_tree [of "File d"] by simp
  from resolve_held(2) [OF this h] show ?case
    using find_unnamed [of "mn_links (snd (file_dag (Some d)))" p] file_link_names [of _ "Some d"] 3(3)
    by (simp add: name_ok_def)
next
  case (4 p ps)
  then show ?case by simp
qed

lemma tree_reads:
  assumes "\<forall>n \<in> set (fst (tree_nodes t)). holds s n" and "lookup_tree t parts = Some (File d)"
  shows "reads s (snd (tree_nodes (File d))) d"
  using assms
proof (induction t parts rule: lookup_tree.induct)
  case (1 t)
  then show ?case using file_dag_reads [of "Some d" s] by simp
next
  case (2 es p ps)
  then obtain t where t: "map_of es p = Some t" "lookup_tree t ps = Some (File d)" by (cases "map_of es p") auto
  have "\<forall>n \<in> set (fst (tree_nodes t)). holds s n"
    using 2(2) entries_sub [OF map_of_SomeD [OF t(1)]] by (auto simp: Let_def)
  then show ?case using 2(1) [OF t(1)] t(2) by blast
qed simp_all

subsection \<open>Reading a tree\<close>

text \<open>
  What \<^verbatim>\<open>ReadBytes\<close> makes of a tree.  A directory has no inode of its own: its node reads as the
  contents of its entries, one after the other, and an empty one has no inode to decode.
\<close>

fun tree_bytes :: "tree \<Rightarrow> u8 list option"
  and entry_bytes :: "(string \<times> tree) list \<Rightarrow> u8 list option" where
  "tree_bytes (File d) = Some d"
| "tree_bytes (Dir es) = (if es = [] then None else entry_bytes es)"
| "tree_bytes Unreadable = None"
| "entry_bytes [] = Some []"
| "entry_bytes ((p, t) # es) =
     (case tree_bytes t of
        None \<Rightarrow> None
      | Some d \<Rightarrow> (case entry_bytes es of None \<Rightarrow> None | Some ds \<Rightarrow> Some (d @ ds)))"

definition outcome :: "u8 list option \<Rightarrow> error + u8 list" where
  "outcome r = (case r of None \<Rightarrow> Inl BadEncoding | Some d \<Rightarrow> Inr d)"

lemma tree_read:
  "tree_ok t \<Longrightarrow> \<forall>n \<in> set (fst (tree_nodes t)). holds s n \<Longrightarrow>
     \<exists>f. read_bytes f s (snd (tree_nodes t)) = Some (outcome (tree_bytes t))"
  "tree_ok (Dir es) \<Longrightarrow> \<forall>n \<in> set (fst (entry_nodes es)). holds s n \<Longrightarrow>
     \<exists>f. read_links f s (snd (entry_nodes es)) = Some (outcome (entry_bytes es))"
proof (induction t and es rule: tree_nodes_entry_nodes.induct)
  case (1 d)
  then show ?case using file_dag_reads [of "Some d" s] by (simp add: reads_def outcome_def)
next
  case (2 es)
  have "\<forall>n \<in> set (fst (entry_nodes es)). holds s n" using 2(4) by (auto simp: Let_def)
  with 2(1,3) obtain f where f: "read_links f s (snd (entry_nodes es)) = Some (outcome (entry_bytes es))" by blast
  have links: "mn_links (snd (tree_nodes (Dir es))) = snd (entry_nodes es)"
    and data: "mn_data (snd (tree_nodes (Dir es))) = []"
    by (simp_all add: Let_def mn_links_def mn_data_def)
  show ?case
  proof (cases es)
    case Nil
    have "read_bytes (Suc f) s (snd (tree_nodes (Dir es))) = Some (Inl BadEncoding)"
      unfolding read_bytes.simps links data using Nil by (simp add: unmarshal_inode_empty)
    then show ?thesis using Nil by (auto simp: outcome_def simp del: read_bytes.simps tree_nodes.simps)
  next
    case (Cons e es')
    then have "snd (entry_nodes es) \<noteq> []" by (cases e) simp
    then have "read_bytes (Suc f) s (snd (tree_nodes (Dir es))) = Some (outcome (entry_bytes es))"
      unfolding read_bytes.simps links using f by simp
    then show ?thesis using Cons by (metis list.distinct(1) tree_bytes.simps(2))
  qed
next
  case 3
  then show ?case by simp
next
  case 4
  then show ?case by (simp add: outcome_def)
next
  case (5 p t es)
  let ?n = "snd (tree_nodes t)" and ?ls = "snd (entry_nodes es)"
  have ok: "tree_ok t" "tree_ok (Dir es)" using "5.prems"(1) by simp_all
  have h: "\<forall>n \<in> set (fst (tree_nodes t)). holds s n" "\<forall>n \<in> set (fst (entry_nodes es)). holds s n"
    using "5.prems"(2) by auto
  obtain f g where fg: "read_bytes f s ?n = Some (outcome (tree_bytes t))" "read_links g s ?ls = Some (outcome (entry_bytes es))"
    using "5.IH" ok h by blast
  let ?m = "max f g"
  have "read_bytes ?m s ?n = Some (outcome (tree_bytes t))" by (rule read_mono_le(1) [OF _ fg(1)]) simp
  moreover have "read_links ?m s ?ls = Some (outcome (entry_bytes es))" by (rule read_mono_le(2) [OF _ fg(2)]) simp
  moreover have "holds s ?n" using h(1) tree_root [of t] ok(1) by auto
  then have "store_get s (node_cid ?n) = Inr (mn_block ?n)" "parse_block (mn_block ?n) = Inr ?n"
    using genuine_tree [OF ok(1)] by (simp_all add: holds_def genuine_def del: honest_tree)
  ultimately have "read_links ?m s (snd (entry_nodes ((p, t) # es))) = Some (outcome (entry_bytes ((p, t) # es)))"
    by (simp add: outcome_def del: honest_tree read_bytes.simps split: option.splits)
  then show ?case by blast
qed

lemma tree_ok_lookup: "tree_ok t \<Longrightarrow> lookup_tree t parts = Some t' \<Longrightarrow>
    tree_ok t' \<and> set (fst (tree_nodes t')) \<subseteq> set (fst (tree_nodes t))"
proof (induction t parts rule: lookup_tree.induct)
  case (2 es p ps)
  then obtain u where u: "map_of es p = Some u" "lookup_tree u ps = Some t'" by (cases "map_of es p") auto
  have "tree_ok u" using 2(2) map_of_SomeD [OF u(1)] by (auto simp: list_all_iff)
  from 2(1) [OF u(1) this u(2)] show ?case using entries_sub [OF map_of_SomeD [OF u(1)]] by (auto simp: Let_def)
qed simp_all

lemma add_path_errors:
  "add_path s path t = (Inl e, s') \<Longrightarrow> st_open s \<Longrightarrow> tree_ok t \<Longrightarrow> e = DataTooLarge"
  "add_entries s path b recs es = (Inl e, s') \<Longrightarrow> st_open s \<Longrightarrow> at_links b \<noteq> None \<Longrightarrow> tree_ok (Dir es) \<Longrightarrow> e = DataTooLarge"
proof (induction s path t and s path b recs es arbitrary: s' and s' rule: add_path_add_entries.induct)
  case (1 s path)
  then show ?case by simp
next
  case (2 s path data)
  then show ?case by (simp add: add_bytes_spec)
next
  case (3 s path es)
  obtain r s1 where e: "add_entries s path new_builder [] es = (r, s1)" by (cases "add_entries s path new_builder [] es")
  show ?case
  proof (cases r)
    case (Inl x)
    then show ?thesis using 3 e by (simp add: new_builder_def)
  next
    case (Inr br)
    obtain b recs where br: "br = (b, recs)" by (cases br)
    have "st_open s1"
      using add_path_spec(2) [OF e [unfolded Inr br] 3(3)] 3(3) by (simp add: new_builder_def)
    then have put: "\<exists>s2. store_put s1 bl = (None, s2)" for bl by (simp add: store_put_def)
    have big: "build b = Inl x \<Longrightarrow> x = DataTooLarge" for x by (auto simp: build_eq split: if_splits)
    show ?thesis
    proof (cases "build b")
      case m: (Inr m)
      then show ?thesis using 3(2) e Inr br put [of "mn_block m"] by auto
    qed (use 3(2) e Inr br big in auto)
  qed
next
  case (4 s path b records)
  then show ?case by simp
next
  case (5 s path b records name t es)
  obtain r s1 where c: "add_path s (path @ ''/'' @ name) t = (r, s1)" by (cases "add_path s (path @ ''/'' @ name) t")
  show ?case
  proof (cases r)
    case (Inl x)
    then show ?thesis using 5(1) [OF _ 5(4)] 5(3,6) c by simp
  next
    case (Inr cr)
    obtain child recs where cr: "cr = (child, recs)" by (cases cr)
    have "st_open s1" using add_path_spec(1) [OF c [unfolded Inr cr] 5(4)] 5(4) by simp
    moreover have "at_links (add_link name child b) \<noteq> None" by (simp add: add_link_def)
    moreover have "add_entries s1 path (add_link name child b) (records @ recs) es = (Inl e, s')"
      using 5(3) c Inr cr by simp
    ultimately show ?thesis using 5(2) [OF c [symmetric] Inr cr [symmetric]] 5(6) by simp
  qed
qed

lemma honest_nodes:
  "n \<in> set (fst (tree_nodes t)) \<Longrightarrow> honest n"
  "n \<in> set (fst (entry_nodes es)) \<Longrightarrow> honest n"
  by (induction t and es rule: tree_nodes_entry_nodes.induct) (auto simp: Let_def honest_file)

subsection \<open>Properties\<close>

text \<open>
  C31: Adding bytes to an open store never fails, whatever the bytes: every block the store has
  afterwards was there before or is a node of at most 5 MiB with at most 15 links, and the store
  still has one valid block for an identifier.
\<close>

theorem add_bytes_total:
  assumes "st_open s" and "rows_inv s"
  shows "\<exists>n s'. add_bytes s data = (Inr n, s') \<and> st_open s' \<and> rows_inv s' \<and>
    (\<forall>c b. store_get s' c = Inr b \<longrightarrow>
       store_get s c = Inr b \<or>
       (length (block_data b) \<le> max_block_size \<and> (\<exists>m. parse_block b = Inr m \<and> length (mn_links m) \<le> num_children)))"
proof -
  let ?ns = "fst (file_dag data)"
  have ns: "\<forall>n \<in> set ?ns. length (node_bytes n) \<le> max_block_size \<and> length (mn_links n) \<le> num_children \<and> genuine n"
    using file_nodes_small by blast
  have "rows_inv (put_all s ns) \<and> (\<forall>c b. store_get (put_all s ns) c = Inr b \<longrightarrow>
       store_get s c = Inr b \<or>
       (length (block_data b) \<le> max_block_size \<and> (\<exists>m. parse_block b = Inr m \<and> length (mn_links m) \<le> num_children)))"
    if "\<forall>n \<in> set ns. length (node_bytes n) \<le> max_block_size \<and> length (mn_links n) \<le> num_children \<and> genuine n" for ns
    using that
  proof (induction ns rule: rev_induct)
    case Nil
    then show ?case using assms(2) by simp
  next
    case (snoc n ns)
    let ?s = "put_all s ns"
    have op: "st_open ?s" using assms(1) by simp
    obtain s' where put: "store_put ?s (mn_block n) = (None, s')" using op by (simp add: store_put_def)
    have "block_valid (mn_block n)" using snoc.prems by (simp add: block_valid_def genuine_def)
    then have "rows_inv s'" using rows.inv_put put snoc by (metis butlast_snoc in_set_butlastD)
    moreover have "store_get s' c = (if c = node_cid n then Inr (mn_block n) else store_get ?s c)" for c
      using rows.get_put [OF op put] rows.get_other [OF op put] by simp
    ultimately show ?case using snoc put by (auto simp: genuine_def split: if_splits)
  qed
  from this [OF ns] show ?thesis using add_bytes_spec [OF assms(1)] assms(1) by simp
qed

theorem add_bytes_total_witness:
  "\<exists>n s'. add_bytes new_store (Some [1, 2, 3]) = (Inr n, s') \<and> st_open s' \<and> rows_inv s'"
proof -
  have "st_open new_store" by (simp add: new_store_def open_store_def)
  from add_bytes_total [OF this rows_inv_new, of "Some [1, 2, 3]"] show ?thesis by blast
qed

text \<open>
  C9: What \<^verbatim>\<open>AddBytes\<close> stored is found under the identifier it returns and read back byte for byte,
  for every content and size, unless two of the blocks of the file have one SHA-256 digest.
\<close>

theorem add_bytes_read_back:
  assumes "st_open s" and "add_bytes s data = (Inr n, s')"
  shows "collides (fst (file_dag data)) \<or>
    (resolve_path s' (node_cid n) = Inr n \<and>
     (\<exists>f. read_bytes f s' n = Some (Inr (case data of None \<Rightarrow> [] | Some bs \<Rightarrow> bs))))"
proof (cases "collides (fst (file_dag data))")
  case False
  then have "no_collision (fst (file_dag data))" using no_collision_or by blast
  then have h: "\<forall>n \<in> set (fst (file_dag data)). holds (put_all s (fst (file_dag data))) n"
    using put_all_holds [OF assms(1)] honest_file by blast
  have n: "n = snd (file_dag data)" "s' = put_all s (fst (file_dag data))"
    using assms add_bytes_spec [OF assms(1), of data] by simp_all
  note R = file_dag_reads [OF h, folded n]
  have "holds s' n" using R h n by blast
  moreover have "\<exists>d. node_cid n = cid_of d" using R by (auto simp: genuine_def)
  ultimately show ?thesis
    using R resolve_held(1) [of n s'] resolve_path_text [of "[]" s'] by (auto simp: path_text_def reads_def)
qed simp

theorem add_bytes_read_back_witness:
  "\<exists>n s'. add_bytes new_store (Some [7, 8]) = (Inr n, s') \<and> resolve_path s' (node_cid n) = Inr n \<and>
     (\<exists>f. read_bytes f s' n = Some (Inr [7, 8]))"
proof -
  have op: "st_open new_store" by (simp add: new_store_def open_store_def)
  obtain n s' where a: "add_bytes new_store (Some [7, 8]) = (Inr n, s')" using add_bytes_spec [OF op] by blast
  have "fst (file_dag (Some [7, 8])) = [leaf (Some [7, 8])]"
    by (simp add: file_dag_def data_chunks_def chunks.simps [of "[7, 8]"] chunk_size_def)
  then have "\<not> collides (fst (file_dag (Some [7, 8])))" by (simp add: collides_def)
  then show ?thesis using add_bytes_read_back [OF op a] a by auto
qed

text \<open>
  C18: A tree that was added resolves as the tree itself: a path of names below the root leads to
  the node of what the tree has there, and any other path is an invalid path.  A file reads as its
  content; a directory has no inode of its own and reads as the contents of all its files, and with
  an empty directory in it as an encoding error.  Only a directory with too many entries for one
  block is refused.
\<close>

theorem add_path_resolves:
  assumes "st_open s" and "tree_ok t" and "\<forall>p \<in> set parts. name_ok p"
  shows "case add_path s path t of
      (Inl e, s') \<Rightarrow> e = DataTooLarge
    | (Inr (n, recs), s') \<Rightarrow>
        collides (fst (tree_nodes t)) \<or>
        (case lookup_tree t parts of
           None \<Rightarrow> resolve_path s' (path_text (node_cid n) parts) = Inl InvalidPath
         | Some t' \<Rightarrow>
             (\<exists>m. resolve_path s' (path_text (node_cid n) parts) = Inr m \<and>
               (\<exists>f. read_bytes f s' m = Some (outcome (tree_bytes t')))))"
proof -
  obtain r s' where a: "add_path s path t = (r, s')" by (cases "add_path s path t")
  show ?thesis
  proof (cases r)
    case (Inl e)
    then show ?thesis using a add_path_errors(1) assms(1,2) by simp
  next
    case (Inr nr)
    obtain n recs where nr: "nr = (n, recs)" by (cases nr)
    note a' = a [unfolded Inr nr]
    have n: "n = snd (tree_nodes t)" "s' = put_all s (fst (tree_nodes t))"
      using add_path_spec(1) [OF a' assms(1)] by simp_all
    show ?thesis
    proof (cases "collides (fst (tree_nodes t))")
      case False
      then have "no_collision (fst (tree_nodes t))" using no_collision_or by blast
      then have h: "\<forall>n \<in> set (fst (tree_nodes t)). holds s' n"
        using put_all_holds [OF assms(1)] honest_nodes(1) unfolding n(2) by blast
      have path: "resolve_path s' (path_text (node_cid n) parts) = resolve s' (node_cid n) parts"
        using resolve_path_text [of parts s'] assms(3) by (simp add: n(1) name_ok_def)
      note R = tree_resolve [OF assms(2) h assms(3), folded n(1)]
      have "\<exists>f. read_bytes f s' (snd (tree_nodes t')) = Some (outcome (tree_bytes t'))"
        if l: "lookup_tree t parts = Some t'" for t'
        using tree_read(1) [of t' s'] tree_ok_lookup [OF assms(2) l] h by blast
      then show ?thesis using a' path R by (simp split: option.split)
    qed (simp add: a')
  qed
qed

lemma new_store_open [simp]: "st_open new_store"
  by (simp add: new_store_def open_store_def)

text \<open>A file of one chunk\<close>

lemma file_dag_small: "length bs \<le> chunk_size \<Longrightarrow> file_dag (Some bs) = ([leaf (Some bs)], leaf (Some bs))"
  by (simp add: file_dag_def data_chunks_def chunks.simps [of bs])

theorem add_path_resolves_witness:
  "\<exists>n recs s'. add_path new_store ''d'' (File [5]) = (Inr (n, recs), s') \<and>
     (\<exists>m f. resolve_path s' (node_cid n) = Inr m \<and> read_bytes f s' m = Some (Inr [5])) \<and>
     resolve_path s' (path_text (node_cid n) [''x'']) = Inl InvalidPath"
proof -
  have f: "file_dag (Some [5]) = ([leaf (Some [5])], leaf (Some [5]))"
    by (rule file_dag_small) (simp add: chunk_size_def)
  have a: "\<exists>n recs s'. add_path new_store ''d'' (File [5]) = (Inr (n, recs), s')"
    by (simp add: add_bytes_spec)
  have c: "\<not> collides (fst (tree_nodes (File [5])))" by (simp add: f collides_def)
  have x: "\<forall>p \<in> set [''x'']. name_ok p" by (simp add: name_ok_def)
  show ?thesis
    using a c add_path_resolves [OF new_store_open, of "File [5]" "[]" "''d''"]
      add_path_resolves [OF new_store_open _ x, of "File [5]" "''d''"]
    by (auto simp: outcome_def path_text_def)
qed

text \<open>
  C19: The blocks that \<^verbatim>\<open>DAG\<close> lists are all that reading needs: a store that agrees on them with
  the one that was searched gives the same list, resolves the same paths below the root and reads
  the same bytes, and reading the root ends.  The size is the sum of the sizes of the blocks.
\<close>

theorem dag_sufficient:
  assumes "dag f s c = Some (Inr (cs, sz))" and "\<forall>c' \<in> set cs. store_get s' c' = store_get s c'"
  shows "dag f s' c = dag f s c \<and> sz = sum_list (map (block_size s) cs) \<and>
    (\<forall>parts. resolve s' c parts = resolve s c parts) \<and>
    (\<exists>n. resolve s' c [] = Inr n \<and> (\<forall>g. read_bytes g s' n = read_bytes g s n) \<and> (\<exists>r. read_bytes f s' n = Some r))"
proof -
  obtain g where g: "f = Suc g" using assms(1) by (cases f) auto
  obtain n where n: "resolve s c [] = Inr n"
    using assms(1) [unfolded g] by (rule dag_SucE) (simp add: resolve.simps [of s c "[]"])
  have "resolve s' c parts = resolve s c parts" for parts by (rule dag_resolve [OF assms])
  moreover have "read_bytes g s' n = read_bytes g s n" for g by (rule dag_read(1) [OF assms n])
  moreover have "\<exists>r. read_bytes f s n = Some r" by (rule dag_read_ends(1) [OF assms(1) n])
  ultimately show ?thesis using dag_agrees(1) [OF assms] dag_size(1) [OF assms(1)] n assms(1) by simp
qed

theorem dag_sufficient_witness:
  "\<exists>s c. dag 1 s c = Some (Inr ([c], length (node_bytes (leaf (Some [9]))))) \<and>
     (\<exists>n. resolve s c [] = Inr n \<and> (\<forall>g. read_bytes g (s\<lparr>st_rows := (''X'', [1]) # st_rows s\<rparr>) n = read_bytes g s n))"
proof -
  let ?n = "leaf (Some [9])"
  let ?s = "\<lparr>st_rows = [(node_cid ?n, node_bytes ?n)], st_open = True\<rparr>"
  let ?s' = "?s\<lparr>st_rows := (''X'', [1]) # st_rows ?s\<rparr>"
  have get: "store_get ?s (node_cid ?n) = Inr (mn_block ?n)" by (simp add: store_get_def leaf_def)
  have d: "dag 1 ?s (node_cid ?n) = Some (Inr ([node_cid ?n], length (node_bytes ?n)))"
    using get genuine_leaf [of "Some [9]"] by (simp add: genuine_def)
  have ne: "node_cid ?n \<noteq> ''X''" using length_cid_of by (metis genuine_def genuine_leaf list.size(3,4) One_nat_def add.commute numeral_eq_one_iff plus_1_eq_Suc semiring_norm(83) Suc_eq_plus1)
  have "\<forall>c \<in> set [node_cid ?n]. store_get ?s' c = store_get ?s c" using ne by (simp add: store_get_def)
  from dag_sufficient [OF d this] obtain n where
    "\<forall>parts. resolve ?s' (node_cid ?n) parts = resolve ?s (node_cid ?n) parts" "resolve ?s' (node_cid ?n) [] = Inr n"
    "\<forall>g. read_bytes g ?s' n = read_bytes g ?s n"
    by (elim conjE exE)
  then have "resolve ?s (node_cid ?n) [] = Inr n \<and> (\<forall>g. read_bytes g ?s' n = read_bytes g ?s n)" by simp
  then show ?thesis using d by blast
qed

text \<open>
  A path that ends with a slash does not name a directory's entry: it names the first unnamed
  link.  For a file of two to fifteen chunks, \<^verbatim>\<open>CID/\<close> resolves to the first chunk, and reading it
  returns the first 256 KiB of the file without an error.
\<close>

theorem trailing_slash_truncates:
  assumes "st_open s" and "chunk_size < length bs" and "length bs \<le> num_children * chunk_size"
  shows "case add_bytes s (Some bs) of
      (Inl e, s') \<Rightarrow> False
    | (Inr n, s') \<Rightarrow>
        collides (fst (file_dag (Some bs))) \<or>
        (\<exists>m f. resolve_path s' (node_cid n @ ''/'') = Inr m \<and> read_bytes f s' m = Some (Inr (take chunk_size bs)))"
proof (cases "collides (fst (file_dag (Some bs)))")
  case False
  let ?cs = "chunks bs chunk_size"
  let ?ls = "map (leaf \<circ> Some) ?cs"
  have "?cs = take chunk_size bs # chunks (drop chunk_size bs) chunk_size"
    using assms(2) by (subst chunks.simps) (simp add: chunk_size_def)
  then obtain rest where cs: "?cs = take chunk_size bs # rest" by blast
  have len: "length ?cs = (length bs + chunk_size - 1) div chunk_size"
    using length_chunks [of chunk_size bs] assms(2) by (auto simp: chunk_size_def)
  have "2 \<le> length ?cs" "length ?cs \<le> num_children"
  proof -
    have "2 * chunk_size \<le> length bs + chunk_size - 1" using assms(2) by simp
    then have "2 * chunk_size div chunk_size \<le> (length bs + chunk_size - 1) div chunk_size" by (rule div_le_mono)
    then show "2 \<le> length ?cs" unfolding len by (simp add: chunk_size_def)
    have "(length bs + chunk_size - 1) div chunk_size < Suc num_children"
      using assms(3) by (simp add: div_less_iff_less_mult chunk_size_def)
    then show "length ?cs \<le> num_children" unfolding len by simp
  qed
  then have "chunks ?ls num_children = [?ls]" by (subst chunks.simps) simp
  then have fd: "file_dag (Some bs) = (?ls @ [parent ?ls], parent ?ls)"
    using \<open>2 \<le> length ?cs\<close> by (simp add: file_dag_def data_chunks_def upper_nodes_one Let_def)
  let ?s = "put_all s (fst (file_dag (Some bs)))" and ?c = "leaf (Some (take chunk_size bs))"
  have "\<forall>n \<in> set (fst (file_dag (Some bs))). holds ?s n"
    using put_all_holds [OF assms(1)] honest_file False no_collision_or by blast
  then have h: "holds ?s (parent ?ls)" "holds ?s ?c" unfolding fd by (simp_all add: cs)
  have gp: "genuine (parent ?ls)" by (rule genuine_parent) auto
  have "find_link '''' (mn_links (parent ?ls)) = Some (node_cid ?c)" by (simp add: links_parent cs)
  then have "resolve ?s (node_cid (parent ?ls)) [''''] = Inr ?c"
    using resolve_held(2) [OF gp h(1), of "''''" "[]"] resolve_held(1) [OF genuine_leaf h(2)] by simp
  moreover obtain d where d: "node_cid (parent ?ls) = cid_of d" using gp by (auto simp: genuine_def)
  ultimately have "resolve_path ?s (node_cid (parent ?ls) @ ''/'') = Inr ?c"
    using resolve_path_text [of "['''']" ?s d] by (simp add: path_text_def)
  moreover have "\<exists>f. read_bytes f ?s ?c = Some (Inr (take chunk_size bs))"
    using reads_leaf [of ?s "Some (take chunk_size bs)"] by (simp add: reads_def)
  ultimately show ?thesis using add_bytes_spec [OF assms(1)] fd by auto
qed (use add_bytes_spec [OF assms(1)] in auto)

theorem trailing_slash_truncates_witness:
  "\<exists>n s'. add_bytes new_store (Some (replicate 300000 0)) = (Inr n, s') \<and>
     (collides (fst (file_dag (Some (replicate 300000 0)))) \<or>
      (\<exists>m f. resolve_path s' (node_cid n @ ''/'') = Inr m \<and>
         read_bytes f s' m = Some (Inr (take chunk_size (replicate 300000 0)))))"
proof -
  have "chunk_size < length (replicate 300000 (0 :: u8))" "length (replicate 300000 (0 :: u8)) \<le> num_children * chunk_size"
    unfolding length_replicate by (simp_all add: chunk_size_def num_children_def)
  from trailing_slash_truncates [OF new_store_open this] show ?thesis
    unfolding add_bytes_spec [OF new_store_open] by (simp only: prod.case sum.case) blast
qed

end
