(* ===== verification/Client.thy ===== *)
theory Client
  imports Node Typed_Json
begin

text \<open>
  The clients of a node: the RPCs that nodes send each other (\<^verbatim>\<open>dht/rpc.go\<close>), the client of the
  public routes (\<^verbatim>\<open>dht/client.go\<close>), and the JSON form of keys and contacts, which the header of an
  RPC carries (\<^verbatim>\<open>dht/key.go\<close>).  The transport is an argument: what comes back for a request is
  nothing, or a status code with a body.  A body that is decoded as JSON is given as the decoded
  value, \<open>None\<close> where the decoder fails.
\<close>

type_synonym 'a reply = "(nat \<times> 'a) option"

definition check_status :: "'a reply \<Rightarrow> error + 'a" where
  "check_status r =
     (case r of
        None \<Rightarrow> Inl RpcFailed
      | Some (st, b) \<Rightarrow> if st \<noteq> status_ok then Inl (BadCode st) else Inr b)"

subsection \<open>Keys and contacts as JSON\<close>

definition key_json :: "key \<Rightarrow> json" where
  "key_json k = (if k = zero_key then JNull else JStr (marshal_b32 k))"

definition decode_key :: "key \<Rightarrow> json \<Rightarrow> key option" where
  "decode_key k j =
     (case j of
        JNull \<Rightarrow> Some zero_key
      | JStr s \<Rightarrow> (case unmarshal_b32 k s of Inl _ \<Rightarrow> None | Inr k' \<Rightarrow> Some k')
      | _ \<Rightarrow> None)"

definition contact_json :: "contact \<Rightarrow> json" where
  "contact_json c = JObj [(''id'', key_json (contact_id c)), (''address'', JStr (contact_address c))]"

definition set_contact_field :: "contact \<Rightarrow> string \<Rightarrow> json \<Rightarrow> contact option" where
  "set_contact_field c k v =
     (if is_field ''id'' k then map_option (\<lambda>x. c\<lparr>contact_id := x\<rparr>) (decode_key (contact_id c) v)
      else if is_field ''address'' k
      then map_option (\<lambda>s. c\<lparr>contact_address := s\<rparr>) (decode_string (contact_address c) v)
      else Some c)"

definition decode_contact :: "json \<Rightarrow> contact option" where
  "decode_contact = decode_struct set_contact_field \<lparr>contact_id = zero_key, contact_address = ''''\<rparr>"

subsection \<open>RPCs\<close>

record rpc_client =
  rc_src :: string      \<comment> \<open>the header \<^verbatim>\<open>Inu-Src\<close>\<close>
  rc_swarm :: string    \<comment> \<open>the header \<^verbatim>\<open>Inu-Swarm\<close>\<close>

definition new_rpc :: "contact \<Rightarrow> key \<Rightarrow> rpc_client" where
  "new_rpc c swarm_key =
     \<lparr>rc_src = text_of (marshal (contact_json c)), rc_swarm = marshal_b32 swarm_key\<rparr>"

datatype rpc_method = Get | Post key "peer list"    \<comment> \<open>with the value that is sent\<close>

record rpc_request =
  rr_method :: rpc_method
  rr_url :: string
  rr_src :: string
  rr_swarm :: string

definition post_json ::
  "(rpc_request \<Rightarrow> 'a reply) \<Rightarrow> rpc_client \<Rightarrow> string \<Rightarrow> string \<Rightarrow> key \<times> peer list \<Rightarrow> error + 'a" where
  "post_json net rpc address endpoint v =
     check_status (net \<lparr>rr_method = Post (fst v) (snd v), rr_url = ''https://'' @ address @ ''/'' @ endpoint,
       rr_src = rc_src rpc, rr_swarm = rc_swarm rpc\<rparr>)"

definition get_json :: "(rpc_request \<Rightarrow> 'a reply) \<Rightarrow> rpc_client \<Rightarrow> string \<Rightarrow> string \<Rightarrow> error + 'a" where
  "get_json net rpc address endpoint =
     check_status (net \<lparr>rr_method = Get, rr_url = ''https://'' @ address @ ''/'' @ endpoint,
       rr_src = rc_src rpc, rr_swarm = rc_swarm rpc\<rparr>)"

definition rpc_ping :: "(rpc_request \<Rightarrow> 'a reply) \<Rightarrow> rpc_client \<Rightarrow> contact \<Rightarrow> error option" where
  "rpc_ping net rpc dst =
     (case get_json net rpc (contact_address dst) ''rpc/ping'' of Inl e \<Rightarrow> Some e | Inr _ \<Rightarrow> None)"

definition rpc_store ::
  "(rpc_request \<Rightarrow> 'a reply) \<Rightarrow> rpc_client \<Rightarrow> contact \<Rightarrow> key \<Rightarrow> peer list \<Rightarrow> error option" where
  "rpc_store net rpc dst k p =
     (case post_json net rpc (contact_address dst) ''rpc/store'' (k, p) of Inl e \<Rightarrow> Some e | Inr _ \<Rightarrow> None)"

definition rpc_find_node ::
  "(rpc_request \<Rightarrow> contact list option reply) \<Rightarrow> rpc_client \<Rightarrow> contact \<Rightarrow> key \<Rightarrow> error + contact list" where
  "rpc_find_node net rpc dst k =
     (case get_json net rpc (contact_address dst) (''rpc/find-node/'' @ marshal_b32 k) of
        Inl e \<Rightarrow> Inl e
      | Inr None \<Rightarrow> Inl BadEncoding
      | Inr (Some cs) \<Rightarrow> Inr cs)"

definition rpc_find_peers ::
  "(rpc_request \<Rightarrow> (bool \<times> peer list \<times> contact list) option reply) \<Rightarrow> rpc_client \<Rightarrow> contact \<Rightarrow> key \<Rightarrow>
   error + bool \<times> peer list \<times> contact list" where
  "rpc_find_peers net rpc dst k =
     (case get_json net rpc (contact_address dst) (''rpc/find-peers/'' @ marshal_b32 k) of
        Inl e \<Rightarrow> Inl e
      | Inr None \<Rightarrow> Inl BadEncoding
      | Inr (Some v) \<Rightarrow> Inr v)"

subsection \<open>The public client\<close>

record client_config =
  cc_port :: u16
  cc_nodes :: "string list"
  cc_upload_key :: key

definition default_client_config :: client_config where
  "default_client_config =
     \<lparr>cc_port = 6000, cc_nodes = [host_port (cf_host default_node_config) (cf_port default_node_config)],
      cc_upload_key = zero_key\<rparr>"

text \<open>
  \<open>pick\<close> is the number that \<^verbatim>\<open>rand.Intn\<close> draws, taken modulo its argument; with no nodes it panics.
\<close>

definition node_url :: "client_config \<Rightarrow> nat \<Rightarrow> key \<Rightarrow> string option" where
  "node_url c pick k =
     (if cc_nodes c = [] then None
      else Some (''https://'' @ cc_nodes c ! (pick mod length (cc_nodes c)) @ ''/key/'' @ marshal_b32 k))"

definition client_find_peers ::
  "client_config \<Rightarrow> nat \<Rightarrow> (string \<Rightarrow> peer list option reply) \<Rightarrow> key \<Rightarrow> (error + peer list) option" where
  "client_find_peers c pick get k =
     (case node_url c pick k of
        None \<Rightarrow> None
      | Some url \<Rightarrow>
     (case check_status (get url) of
        Inl e \<Rightarrow> Some (Inl e)
      | Inr None \<Rightarrow> Some (Inl BadEncoding)
      | Inr (Some ps) \<Rightarrow> if length ps = 0 then None else Some (Inr ps)))"

record put_request =
  pr_url :: string
  pr_port :: u16
  pr_upload :: "string option"   \<comment> \<open>the header \<^verbatim>\<open>Inu-Upload\<close>, if it is set\<close>

definition put_of :: "client_config \<Rightarrow> string \<Rightarrow> put_request" where
  "put_of c url =
     \<lparr>pr_url = url, pr_port = cc_port c,
      pr_upload = (if cc_upload_key c \<noteq> zero_key then Some (marshal_b32 (cc_upload_key c)) else None)\<rparr>"

definition client_put_key ::
  "client_config \<Rightarrow> nat \<Rightarrow> (put_request \<Rightarrow> unit reply) \<Rightarrow> key \<Rightarrow> error option option" where
  "client_put_key c pick put k =
     (case node_url c pick k of
        None \<Rightarrow> None
      | Some url \<Rightarrow> Some (case check_status (put (put_of c url)) of Inl e \<Rightarrow> Some e | Inr _ \<Rightarrow> None))"

subsection \<open>Round trips\<close>

lemma fold_id_address [simp]: "fold_name ''id'' = ''ID''" "fold_name ''address'' = ''ADDRESS''"
  by (simp_all add: fold_name.simps within_def char_of_def bit_iff_odd)

lemma b32_ascii: "c \<in> set (b32_encode bs) \<Longrightarrow> code c < 0x80"
proof -
  have "code (b32_char q) < 128" if "unat q < 32" for q
    using b32_value_char [OF that] by (auto simp: b32_value_def Let_def split: if_splits)
  then show "c \<in> set (b32_encode bs) \<Longrightarrow> code c < 0x80"
    using b32_quintets_quints [of bs] by (fastforce simp: b32_encode_def)
qed

lemma printable_key: "printable m (key_json k)"
  by (auto simp: key_json_def marshal_b32_def intro!: valid_utf8_ascii b32_ascii)

lemma decode_key_json [simp]: "decode_key v (key_json k) = Some k"
  by (simp add: decode_key_def key_json_def unmarshal_marshal)

lemma decode_contact_json [simp]: "decode_contact (contact_json c) = Some c"
  by (simp add: decode_contact_def contact_json_def set_contact_field_def is_field_def decode_string_def)

lemma contact_roundtrip:
  assumes "valid_utf8 (contact_address c)"
  shows "unmarshal decode_contact (bytes_of (rc_src (new_rpc c sk))) = Some c"
proof -
  have "valid_utf8 ''id''" "valid_utf8 ''address''" by (rule valid_utf8_ascii, simp)+
  then have "printable 1 (contact_json c)"
    using assms printable_key by (simp add: contact_json_def)
  then have "unmarshal decode_contact (marshal (contact_json c)) = Some c"
    using unmarshal_marshal_json [of 1 "contact_json c" decode_contact] by (simp add: max_depth_def)
  moreover have "bytes_of (text_of bs) = bs" for bs
    by (induction bs) (simp_all add: bytes_of_def text_of_def)
  ultimately show ?thesis by (simp add: new_rpc_def)
qed

end
