(* ===== verification/Router.thy ===== *)
theory Router
  imports Client
begin

text \<open>
  Requests on their way from a client to a node: the URL is cut into the address and the path, the
  node at the address gets the request, and its router (\<^verbatim>\<open>router\<close> in \<^verbatim>\<open>dht/node.go\<close>) chooses the handler
  by the method and the path and hands it the key from the path.
\<close>

subsection \<open>Addresses and paths\<close>

text \<open>
  \<^verbatim>\<open>net/url\<close> on the addresses that the program writes: a host or IPv4 address and a port.  Texts with
  characters that have a meaning in URLs are not addresses here.
\<close>

definition plain_address :: "string \<Rightarrow> bool" where
  "plain_address a \<longleftrightarrow> a \<noteq> [] \<and> (\<forall>c \<in> set a. c \<notin> set ''/?#@% '')"

definition split_url :: "string \<Rightarrow> (string \<times> string) option" where
  "split_url url =
     (if take 8 url = ''https://'' \<and> plain_address (takeWhile (\<lambda>c. c \<noteq> CHR ''/'') (drop 8 url))
      then Some (takeWhile (\<lambda>c. c \<noteq> CHR ''/'') (drop 8 url), dropWhile (\<lambda>c. c \<noteq> CHR ''/'') (drop 8 url))
      else None)"

datatype http_method = GET | PUT | POST

text \<open>The routes at a path, with their methods, and the text that stands for the key.\<close>

definition path_routes :: "string \<Rightarrow> ((http_method \<times> route) list \<times> string) option" where
  "path_routes path =
     (case split_at (CHR ''/'') path of
        [r, a, b] \<Rightarrow>
          if r = '''' \<and> a = ''key'' \<and> b \<noteq> '''' then Some ([(GET, KeyGet), (PUT, KeyPut)], b)
          else if r = '''' \<and> a = ''rpc'' \<and> b = ''ping'' then Some ([(GET, RpcPing)], '''')
          else if r = '''' \<and> a = ''rpc'' \<and> b = ''store'' then Some ([(POST, RpcStore)], '''')
          else None
      | [r, a, b, k] \<Rightarrow>
          if r = '''' \<and> a = ''rpc'' \<and> b = ''find-node'' \<and> k \<noteq> '''' then Some ([(GET, RpcFindNode)], k)
          else if r = '''' \<and> a = ''rpc'' \<and> b = ''find-peers'' \<and> k \<noteq> '''' then Some ([(GET, RpcFindPeers)], k)
          else None
      | _ \<Rightarrow> None)"

abbreviation status_not_allowed :: nat where "status_not_allowed \<equiv> 405"

text \<open>Below \<^verbatim>\<open>/rpc\<close> the middlewares also run for a request that no route takes.\<close>

definition below_rpc :: "string \<Rightarrow> bool" where
  "below_rpc path \<longleftrightarrow> take 2 (split_at (CHR ''/'') path) = ['''', ''rpc'']"

definition no_route :: "nat \<Rightarrow> node \<Rightarrow> string \<Rightarrow> request \<Rightarrow> response \<times> node \<times> task list" where
  "no_route st n path rq =
     (if \<not> below_rpc path then ((st, NoBody), n, [])
      else case auth_swarm_key n rq of
        Some resp \<Rightarrow> (resp, n, [])
      | None \<Rightarrow>
     (case parse_src rq of
        Inl resp \<Rightarrow> (resp, n, [])
      | Inr src \<Rightarrow> ((st, NoBody), n, [UpdateTask src])))"

definition route_request ::
  "env \<Rightarrow> node \<Rightarrow> http_method \<Rightarrow> string \<Rightarrow> request \<Rightarrow> (response \<times> node \<times> task list) option" where
  "route_request ev n m path rq =
     (case path_routes path of
        None \<Rightarrow> Some (no_route status_not_found n path rq)
      | Some (rs, k) \<Rightarrow>
     (case map_of rs m of
        None \<Rightarrow> Some (no_route status_not_allowed n path rq)
      | Some r \<Rightarrow> serve ev n r (rq\<lparr>rq_key := k\<rparr>)))"

subsection \<open>Delivery\<close>

text \<open>
  The nodes by their address.  A request changes the node it reaches; \<open>None\<close> is an error of the
  transport, or a handler that panics.
\<close>

type_synonym hosts = "string \<Rightarrow> node option"

definition deliver ::
  "env \<Rightarrow> hosts \<Rightarrow> http_method \<Rightarrow> string \<Rightarrow> request \<Rightarrow> (response \<times> hosts \<times> (string \<times> task) list) option" where
  "deliver ev hosts m url rq =
     (case split_url url of
        None \<Rightarrow> None
      | Some (host, path) \<Rightarrow>
     (case hosts host of
        None \<Rightarrow> None
      | Some n \<Rightarrow>
          map_option (\<lambda>(resp, n', ts). (resp, hosts(host \<mapsto> n'), map (Pair host) ts))
            (route_request ev n m path rq)))"

text \<open>
  Requests as they leave the clients; a header that is not set reads as the empty text, and the
  source header is decoded by \<^verbatim>\<open>parseSrc\<close>.
\<close>

definition put_sent :: "string \<Rightarrow> put_request \<Rightarrow> request" where
  "put_sent remote pr =
     \<lparr>rq_key = '''', rq_port = Some (pr_port pr), rq_pair = None, rq_remote = remote,
      rq_upload = (case pr_upload pr of None \<Rightarrow> '''' | Some h \<Rightarrow> h), rq_swarm = '''', rq_src = None\<rparr>"

definition get_sent :: "string \<Rightarrow> request" where
  "get_sent remote =
     \<lparr>rq_key = '''', rq_port = None, rq_pair = None, rq_remote = remote,
      rq_upload = '''', rq_swarm = '''', rq_src = None\<rparr>"

definition rpc_sent :: "string \<Rightarrow> rpc_request \<Rightarrow> request" where
  "rpc_sent remote rr =
     \<lparr>rq_key = '''', rq_port = None,
      rq_pair = (case rr_method rr of Get \<Rightarrow> None | Post k ps \<Rightarrow> Some (k, ps)), rq_remote = remote,
      rq_upload = '''', rq_swarm = rr_swarm rr, rq_src = unmarshal decode_contact (bytes_of (rr_src rr))\<rparr>"

definition rpc_http_method :: "rpc_request \<Rightarrow> http_method" where
  "rpc_http_method rr = (case rr_method rr of Get \<Rightarrow> GET | Post _ _ \<Rightarrow> POST)"

text \<open>What the clients get back.\<close>

definition put_reply :: "env \<Rightarrow> hosts \<Rightarrow> string \<Rightarrow> put_request \<Rightarrow> unit reply" where
  "put_reply ev hosts remote pr =
     map_option (\<lambda>(resp, _, _). (fst resp, ())) (deliver ev hosts PUT (pr_url pr) (put_sent remote pr))"

definition get_reply :: "env \<Rightarrow> hosts \<Rightarrow> string \<Rightarrow> string \<Rightarrow> peer list option reply" where
  "get_reply ev hosts remote url =
     map_option (\<lambda>(resp, _, _). (fst resp, case snd resp of PeersBody ps \<Rightarrow> Some ps | _ \<Rightarrow> None))
       (deliver ev hosts GET url (get_sent remote))"

definition rpc_reply :: "(body \<Rightarrow> 'a) \<Rightarrow> env \<Rightarrow> hosts \<Rightarrow> string \<Rightarrow> rpc_request \<Rightarrow> 'a reply" where
  "rpc_reply read ev hosts remote rr =
     map_option (\<lambda>(resp, _, _). (fst resp, read (snd resp)))
       (deliver ev hosts (rpc_http_method rr) (rr_url rr) (rpc_sent remote rr))"

definition contacts_of :: "body \<Rightarrow> contact list option" where
  "contacts_of b = (case b of ContactsBody cs \<Rightarrow> Some cs | _ \<Rightarrow> None)"

definition found_of :: "body \<Rightarrow> (bool \<times> peer list \<times> contact list) option" where
  "found_of b = (case b of FindPeersBody found ps cs \<Rightarrow> Some (found, ps, cs) | _ \<Rightarrow> None)"

subsection \<open>Where the clients' URLs lead\<close>

lemma split_url_text:
  "plain_address a \<Longrightarrow> split_url (''https://'' @ a @ ''/'' @ path) = Some (a, CHR ''/'' # path)"
proof -
  assume a: "plain_address a"
  then have c: "\<forall>c \<in> set a. c \<noteq> CHR ''/''" by (auto simp: plain_address_def)
  have "takeWhile (\<lambda>c. c \<noteq> CHR ''/'') (a @ CHR ''/'' # path) = a" "dropWhile (\<lambda>c. c \<noteq> CHR ''/'') (a @ CHR ''/'' # path) = CHR ''/'' # path"
    using c by (simp_all add: takeWhile_append2 dropWhile_append2 takeWhile_append dropWhile_append)
  then show ?thesis using a by (simp add: split_url_def)
qed

lemma no_slash_key: "CHR ''/'' \<notin> set (marshal_b32 k)"
proof
  assume "CHR ''/'' \<in> set (marshal_b32 k)"
  moreover have "b32_char q \<noteq> CHR ''/''" if "unat q < 32" for q
    using b32_value_char [OF that] by (auto simp: b32_value_def)
  ultimately show False
    using b32_quintets_quints [of "key_bytes k"] by (fastforce simp: marshal_b32_def b32_encode_def)
qed

lemma key_text_ne: "marshal_b32 k \<noteq> []"
  using length_marshal_b32 [of k] by auto

lemma key_path: "path_routes (CHR ''/'' # ''key/'' @ marshal_b32 k) = Some ([(GET, KeyGet), (PUT, KeyPut)], marshal_b32 k)"
proof -
  have "split_at (CHR ''/'') (''key'' @ CHR ''/'' # marshal_b32 k) = ''key'' # split_at (CHR ''/'') (marshal_b32 k)"
    by (rule split_at_append) simp
  then show ?thesis using split_at_none [OF no_slash_key [of k]] key_text_ne [of k] by (simp add: path_routes_def)
qed

lemma rpc_path:
  "path_routes (CHR ''/'' # ''rpc/find-node/'' @ marshal_b32 k) = Some ([(GET, RpcFindNode)], marshal_b32 k)"
  "path_routes (CHR ''/'' # ''rpc/find-peers/'' @ marshal_b32 k) = Some ([(GET, RpcFindPeers)], marshal_b32 k)"
  "path_routes ''/rpc/ping'' = Some ([(GET, RpcPing)], '''')"
  "path_routes ''/rpc/store'' = Some ([(POST, RpcStore)], '''')"
  using split_at_append [of "CHR ''/''" "''find-node''" "marshal_b32 k"] split_at_append [of "CHR ''/''" "''find-peers''" "marshal_b32 k"]
    split_at_none [OF no_slash_key [of k]] key_text_ne [of k]
  by (simp_all add: path_routes_def)

text \<open>A request at a URL of the program is served by the node at the address.\<close>

lemma deliver_key:
  assumes "plain_address a" and "hosts a = Some n" and "m = GET \<or> m = PUT"
  shows "deliver ev hosts m (''https://'' @ a @ ''/key/'' @ marshal_b32 k) rq =
    map_option (\<lambda>(resp, n', ts). (resp, hosts(a \<mapsto> n'), map (Pair a) ts))
      (serve ev n (if m = GET then KeyGet else KeyPut) (rq\<lparr>rq_key := marshal_b32 k\<rparr>))"
  using split_url_text [OF assms(1), of "''key/'' @ marshal_b32 k"] key_path [of k] assms(2,3)
  by (auto simp: deliver_def route_request_def)

lemma deliver_rpc:
  assumes "plain_address a" and "hosts a = Some n" and "path_routes (CHR ''/'' # path) = Some ([(m, r)], kt)"
  shows "deliver ev hosts m (''https://'' @ a @ ''/'' @ path) rq =
    map_option (\<lambda>(resp, n', ts). (resp, hosts(a \<mapsto> n'), map (Pair a) ts)) (serve ev n r (rq\<lparr>rq_key := kt\<rparr>))"
  using split_url_text [OF assms(1), of path] assms(2,3)
  by (simp add: deliver_def route_request_def)

end
