(* ===== verification/Client_Correct.thy ===== *)
theory Client_Correct
  imports Router Node_Correct
begin

text \<open>
  The clients with the nodes that their requests reach: RPCs carry the sender and the swarm key to the
  node, a key that was put is found, and the client panics on an answer without peers, which a node
  can give.
\<close>

subsection \<open>RPCs\<close>

lemma bytes_text [simp]: "bytes_of (text_of bs) = bs"
  by (induction bs) (simp_all add: bytes_of_def text_of_def)

lemma unmarshal_swarm [simp]: "unmarshal_b32 v (rc_swarm (new_rpc c sk)) = Inr sk"
  by (simp add: new_rpc_def unmarshal_marshal)

text \<open>The requests that the RPCs make, as the node serves them.\<close>

definition rpc_made :: "rpc_client \<Rightarrow> contact \<Rightarrow> rpc_method \<Rightarrow> string \<Rightarrow> rpc_request" where
  "rpc_made rpc dst m endpoint =
     \<lparr>rr_method = m, rr_url = ''https://'' @ contact_address dst @ ''/'' @ endpoint, rr_src = rc_src rpc, rr_swarm = rc_swarm rpc\<rparr>"

lemma json_made:
  "get_json net rpc (contact_address dst) endpoint = check_status (net (rpc_made rpc dst Get endpoint))"
  "post_json net rpc (contact_address dst) endpoint (k, ps) = check_status (net (rpc_made rpc dst (Post k ps) endpoint))"
  by (simp_all add: get_json_def post_json_def rpc_made_def)

lemma deliver_made:
  assumes "valid_utf8 (contact_address c)" and "plain_address (contact_address dst)" and "hosts (contact_address dst) = Some n"
    and "path_routes (CHR ''/'' # endpoint) = Some ([(rpc_http_method (rpc_made (new_rpc c sk) dst m endpoint), r)], kt)"
    and "r \<noteq> KeyGet" and "r \<noteq> KeyPut"
    and rq: "rq = (rpc_sent remote (rpc_made (new_rpc c sk) dst m endpoint))\<lparr>rq_key := kt\<rparr>"
  shows "deliver ev hosts (rpc_http_method (rpc_made (new_rpc c sk) dst m endpoint)) (rr_url (rpc_made (new_rpc c sk) dst m endpoint))
      (rpc_sent remote (rpc_made (new_rpc c sk) dst m endpoint)) =
    (if sk = cf_swarm_key (nd_config n)
     then case (case r of RpcStore \<Rightarrow> handle_store n rq | RpcFindNode \<Rightarrow> (handle_find_node ev n c rq, n)
          | RpcFindPeers \<Rightarrow> handle_find_peers ev n c rq | _ \<Rightarrow> (handle_ping, n)) of
        (resp, n') \<Rightarrow> Some (resp, hosts(contact_address dst \<mapsto> n'), [(contact_address dst, UpdateTask c)])
     else Some ((401, NoBody), hosts, []))"
proof -
  let ?rr = "rpc_made (new_rpc c sk) dst m endpoint"
  have hdr: "rq_src rq = Some c" "unmarshal_b32 zero_key (rq_swarm rq) = Inr sk"
    using contact_roundtrip [OF assms(1), of sk] by (simp_all add: rq rpc_sent_def rpc_made_def)
  have "deliver ev hosts (rpc_http_method ?rr) (rr_url ?rr) (rpc_sent remote ?rr) =
      map_option (\<lambda>(resp, n', ts). (resp, hosts(contact_address dst \<mapsto> n'), map (Pair (contact_address dst)) ts)) (serve ev n r rq)"
    using deliver_rpc [where hosts = hosts and ev = ev and rq = "rpc_sent remote ?rr", OF assms(2-4)] by (simp add: rq rpc_made_def)
  moreover have "hosts(contact_address dst \<mapsto> n) = hosts" using assms(3) by (simp add: fun_upd_idem_iff)
  ultimately show ?thesis
    using hdr assms(5,6) by (cases r) (simp_all add: serve_def serve_begin_def auth_swarm_key_def parse_src_def split: prod.split)
qed

text \<open>What the other three RPCs come to at a node of the same swarm.\<close>

lemma rpc_answers:
  assumes "valid_utf8 (contact_address c)" and "plain_address (contact_address dst)" and "hosts (contact_address dst) = Some n"
  shows "rpc_ping (rpc_reply (\<lambda>_. ()) ev hosts remote) (new_rpc c (cf_swarm_key (nd_config n))) dst = None"
    and "rpc_store (rpc_reply (\<lambda>_. ()) ev hosts remote) (new_rpc c (cf_swarm_key (nd_config n))) dst k ps = None"
    and "rpc_find_peers (rpc_reply found_of ev hosts remote) (new_rpc c (cf_swarm_key (nd_config n))) dst k =
      Inr (case fst (peer_store_get (ev_clk ev) (ev_peer_ord ev) (nd_peers n) k) of
        Inr qs \<Rightarrow> (True, qs, [])
      | Inl _ \<Rightarrow> (False, [], find_closest (ev_bucket_ord ev) (nd_rt n) k (contact_id c)))"
proof -
  note d = deliver_made [where hosts = hosts and sk = "cf_swarm_key (nd_config n)" and ev = ev and remote = remote,
      OF assms _ _ _ refl]
  show "rpc_ping (rpc_reply (\<lambda>_. ()) ev hosts remote) (new_rpc c (cf_swarm_key (nd_config n))) dst = None"
    using d [where endpoint = "''rpc/ping''" and m = Get and r = RpcPing and kt = "''''"]
    by (simp add: rpc_path rpc_ping_def json_made rpc_reply_def rpc_http_method_def rpc_made_def handle_ping_def check_status_def)
  show "rpc_store (rpc_reply (\<lambda>_. ()) ev hosts remote) (new_rpc c (cf_swarm_key (nd_config n))) dst k ps = None"
    using d [where endpoint = "''rpc/store''" and m = "Post k ps" and r = RpcStore and kt = "''''"]
    by (simp add: rpc_path rpc_store_def json_made rpc_reply_def rpc_http_method_def rpc_made_def rpc_sent_def handle_store_def check_status_def)
  obtain g s where g: "peer_store_get (ev_clk ev) (ev_peer_ord ev) (nd_peers n) k = (g, s)" by fastforce
  show "rpc_find_peers (rpc_reply found_of ev hosts remote) (new_rpc c (cf_swarm_key (nd_config n))) dst k =
      Inr (case fst (peer_store_get (ev_clk ev) (ev_peer_ord ev) (nd_peers n) k) of
        Inr qs \<Rightarrow> (True, qs, [])
      | Inl _ \<Rightarrow> (False, [], find_closest (ev_bucket_ord ev) (nd_rt n) k (contact_id c)))"
    using d [where endpoint = "''rpc/find-peers/'' @ marshal_b32 k" and m = Get and r = RpcFindPeers and kt = "marshal_b32 k"] g
    by (cases g) (simp_all add: rpc_path [simplified] rpc_find_peers_def json_made rpc_reply_def rpc_http_method_def rpc_made_def
        handle_find_peers_def unmarshal_marshal check_status_def found_of_def)
qed

text \<open>
  C28: an RPC arrives with its sender. A find-node RPC of a node with a UTF-8 address to the node at an
  address that URLs take as it is makes one request, which is answered, in the same swarm, with the
  contacts of the receiver's routing table closest to the key, except the sender itself; the receiver
  is left as it was, but for the goroutine that updates its table with the sender, under the very key
  and address it has. A node of another swarm answers 401, which the caller gets as an error, and
  starts nothing.
\<close>

theorem rpc_find_node_answer:
  assumes "valid_utf8 (contact_address c)" and "plain_address (contact_address dst)" and "hosts (contact_address dst) = Some n"
  shows "rpc_find_node (rpc_reply contacts_of ev hosts remote) (new_rpc c sk) dst k =
     (if sk = cf_swarm_key (nd_config n)
      then Inr (find_closest (ev_bucket_ord ev) (nd_rt n) k (contact_id c))
      else Inl (BadCode 401)) \<and>
     (\<exists>rr. (\<forall>net. rpc_find_node net (new_rpc c sk) dst k =
           (case check_status (net rr) of Inl e \<Rightarrow> Inl e | Inr None \<Rightarrow> Inl BadEncoding | Inr (Some cs) \<Rightarrow> Inr cs)) \<and>
        map_option snd (deliver ev hosts (rpc_http_method rr) (rr_url rr) (rpc_sent remote rr)) =
          Some (hosts, if sk = cf_swarm_key (nd_config n) then [(contact_address dst, UpdateTask c)] else []))"
proof -
  let ?rr = "rpc_made (new_rpc c sk) dst Get (''rpc/find-node/'' @ marshal_b32 k)"
  have made: "rpc_find_node net (new_rpc c sk) dst k =
      (case check_status (net ?rr) of Inl e \<Rightarrow> Inl e | Inr None \<Rightarrow> Inl BadEncoding | Inr (Some cs) \<Rightarrow> Inr cs)" for net
    by (simp only: rpc_find_node_def json_made)
  have "hosts(contact_address dst \<mapsto> n) = hosts" using assms(3) by (simp add: fun_upd_idem_iff)
  then have d: "deliver ev hosts (rpc_http_method ?rr) (rr_url ?rr) (rpc_sent remote ?rr) =
      Some (if sk = cf_swarm_key (nd_config n)
        then ((200, ContactsBody (find_closest (ev_bucket_ord ev) (nd_rt n) k (contact_id c))), hosts, [(contact_address dst, UpdateTask c)])
        else ((401, NoBody), hosts, []))"
    using deliver_made [where hosts = hosts and sk = sk and ev = ev and remote = remote and m = Get and r = RpcFindNode
        and endpoint = "''rpc/find-node/'' @ marshal_b32 k" and kt = "marshal_b32 k", OF assms _ _ _ refl] rpc_path(1) [of k]
    by (simp add: rpc_http_method_def rpc_made_def handle_find_node_def unmarshal_marshal)
  have "rpc_find_node (rpc_reply contacts_of ev hosts remote) (new_rpc c sk) dst k =
      (if sk = cf_swarm_key (nd_config n)
       then Inr (find_closest (ev_bucket_ord ev) (nd_rt n) k (contact_id c)) else Inl (BadCode 401))"
    unfolding made rpc_reply_def d by (simp add: check_status_def contacts_of_def)
  moreover have "map_option snd (deliver ev hosts (rpc_http_method ?rr) (rr_url ?rr) (rpc_sent remote ?rr)) =
      Some (hosts, if sk = cf_swarm_key (nd_config n) then [(contact_address dst, UpdateTask c)] else [])"
    unfolding d by simp
  ultimately show ?thesis using made by blast
qed

theorem rpc_find_node_answer_witness:
  "rpc_find_node (rpc_reply contacts_of sample_env [''b:2'' \<mapsto> sample_node] ''1.2.3.4:5'')
     (new_rpc \<lparr>contact_id = zero_key, contact_address = ''a:1''\<rparr> (cf_swarm_key (nd_config sample_node)))
     \<lparr>contact_id = zero_key, contact_address = ''b:2''\<rparr> (parse_uint64 7) =
   Inr (find_closest (ev_bucket_ord sample_env) (nd_rt sample_node) (parse_uint64 7) zero_key)"
proof -
  have "valid_utf8 ''a:1''" by (rule valid_utf8_ascii) simp
  moreover have "plain_address ''b:2''" by (simp add: plain_address_def)
  ultimately show ?thesis
    using rpc_find_node_answer [of "\<lparr>contact_id = zero_key, contact_address = ''a:1''\<rparr>"
        "\<lparr>contact_id = zero_key, contact_address = ''b:2''\<rparr>" "[''b:2'' \<mapsto> sample_node]" sample_node sample_env
        "''1.2.3.4:5''" "cf_swarm_key (nd_config sample_node)" "parse_uint64 7"] by simp
qed

subsection \<open>The public client\<close>

lemma sort_asn_mset: "mset (stable_sort (\<lambda>a b. asn_cmp asn a b < 0) qs) = mset qs"
proof -
  have "(\<lambda>a b. asn_cmp asn a b < 0) = (\<lambda>a b. peer_asn a = asn)" by (auto simp: asn_cmp_def fun_eq_iff)
  then show ?thesis using stable_sort_swept [of "\<lambda>p. peer_asn p = asn" qs] by (simp add: mset_swept)
qed

lemma peers_response_some:
  assumes "1 \<le> cf_k (nd_config n)" and "p \<in> set qs"
  obtains ps where "peers_response n asn qs = (200, PeersBody ps)" "set ps \<subseteq> set qs"
    "p \<in> set ps \<or> int (length ps) = cf_k (nd_config n)" "ps \<noteq> []"
proof -
  let ?p1 = "stable_sort (\<lambda>a b. asn_cmp asn a b < 0) qs"
  have p1: "set ?p1 = set qs" by (rule mset_eq_setD [OF sort_asn_mset])
  show thesis
  proof (cases "int (length ?p1) > cf_k (nd_config n)")
    case True
    let ?ps = "take (nat (cf_k (nd_config n))) ?p1"
    have "int (length ?ps) = cf_k (nd_config n)" using True assms(1) by simp
    moreover from this have "?ps \<noteq> []" using assms(1) by (cases ?ps) simp_all
    moreover have "set ?ps \<subseteq> set qs" using set_take_subset [of _ ?p1] p1 by simp
    ultimately show thesis using that [of ?ps] True by (simp add: peers_response_def Let_def)
  next
    case False
    have "?p1 \<noteq> []" using p1 assms(2) by (metis empty_iff list.set(1))
    then show thesis using that [of ?p1] False p1 assms(2) by (simp add: peers_response_def Let_def)
  qed
qed

lemma picked_url: "cc_nodes c \<noteq> [] \<Longrightarrow> cc_nodes c ! (i mod length (cc_nodes c)) = a \<Longrightarrow>
    node_url c i k = Some (''https://'' @ a @ ''/key/'' @ marshal_b32 k)"
  by (simp add: node_url_def)

text \<open>
  C27: what is put is found. A client with the right upload key, or with any if the node has none,
  puts a key and draws the node at an address that URLs take as it is; a client, from any valid IPv4
  address, that draws the same node next, while the entry is live, gets peers and no error: all
  of them live peers of the key, and among them the one with the address and port of the first
  client, unless K others were returned.
\<close>

theorem put_then_find:
  assumes "plain_address a" and "hosts a = Some n" and "node_inv hi n" and "env_ok ev'"
    and "cc_nodes c \<noteq> []" and "cc_nodes c ! (i mod length (cc_nodes c)) = a"
    and "cc_nodes c' \<noteq> []" and "cc_nodes c' ! (j mod length (cc_nodes c')) = a"
    and "cf_upload_key (nd_config n) \<in> {zero_key, cc_upload_key c}"
    and "parse_ip remote = Inr ip" and "parse_ip remote' = Inr ip'" and "1 \<le> cf_k (nd_config n)"
    and "\<forall>p. ev_clk ev' p \<le> ev_now ev + store_expiry (nd_peers n)"
  shows "client_put_key c i (put_reply ev hosts remote) k = Some None \<and>
    (\<exists>url hosts' n' ts ps. node_url c i k = Some url \<and>
       deliver ev hosts PUT url (put_sent remote (put_of c url)) = Some ((200, NoBody), hosts', ts) \<and> hosts' a = Some n' \<and>
       client_find_peers c' j (get_reply ev' hosts' remote') k = Some (Inr ps) \<and>
       set ps \<subseteq> live_peers (ev_clk ev') (nd_peers n') k \<and>
       ((\<exists>p \<in> set ps. peer_ip p = ip \<and> peer_port p = cc_port c) \<or> int (length ps) = cf_k (nd_config n)))"
proof -
  obtain asn b where m: "trie_match (nd_trie n) ip = Some (asn, b)" by (rule match_total [OF assms(3,10)])
  obtain asn' b' where m': "trie_match (nd_trie n) ip' = Some (asn', b')" by (rule match_total [OF assms(3,11)])
  let ?p = "\<lparr>peer_ip = ip, peer_port = cc_port c, peer_asn = asn, peer_published = ev_now ev\<rparr>"
  let ?n = "n\<lparr>nd_peers := peer_store_put (nd_peers n) k [?p]\<rparr>"
  let ?url = "''https://'' @ a @ ''/key/'' @ marshal_b32 k"
  have "serve ev n KeyPut ((put_sent remote (put_of c ?url))\<lparr>rq_key := marshal_b32 k\<rparr>) =
      Some ((200, NoBody), ?n, [StoreTask k [?p]])"
    using assms(9,10) key_text_ne m
    by (auto simp: serve_key_put handle_key_put_def put_sent_def put_of_def unmarshal_marshal Let_def)
  then have put: "deliver ev hosts PUT ?url (put_sent remote (put_of c ?url)) =
      Some ((200, NoBody), hosts(a \<mapsto> ?n), [(a, StoreTask k [?p])])"
    using deliver_key [where hosts = hosts and m = PUT, OF assms(1,2)] by simp
  have url: "node_url c i k = Some ?url" "node_url c' j k = Some ?url" using picked_url assms(5-8) by blast+
  have ok: "client_put_key c i (put_reply ev hosts remote) k = Some None"
    using put by (simp add: client_put_key_def url put_reply_def check_status_def put_of_def)
  have inv: "store_inv (nd_peers ?n)" using assms(3) by (simp add: node_inv_def store_inv_put)
  have live: "?p \<in> live_peers (ev_clk ev') (nd_peers ?n) k"
    using assms(13) by (auto simp: live_peers_def store_peers_put peer_expired_def not_less)
  obtain r s where g: "peer_store_get (ev_clk ev') (ev_peer_ord ev') (nd_peers ?n) k = (r, s)" by fastforce
  obtain qs where qs: "r = Inr qs" "set qs = live_peers (ev_clk ev') (nd_peers ?n) k"
    using get_frame(3,4) [OF env_okD(1) [OF assms(4)] inv g] live by (cases r) auto
  have "node_find_peers ev' ?n k = Some (Inr qs, ?n\<lparr>nd_peers := s\<rparr>)"
    using g qs(1) by (simp add: node_find_peers_def own_peers_def)
  moreover obtain ps where ps: "peers_response (?n\<lparr>nd_peers := s\<rparr>) asn' qs = (200, PeersBody ps)" "set ps \<subseteq> set qs"
    "?p \<in> set ps \<or> int (length ps) = cf_k (nd_config n)" "ps \<noteq> []"
    using peers_response_some [of "?n\<lparr>nd_peers := s\<rparr>" ?p qs asn'] assms(12) live qs(2) by auto
  ultimately have "deliver ev' (hosts(a \<mapsto> ?n)) GET ?url (get_sent remote') =
      Some ((200, PeersBody ps), hosts(a \<mapsto> ?n\<lparr>nd_peers := s\<rparr>), [])"
    using deliver_key [where hosts = "hosts(a \<mapsto> ?n)" and m = GET, OF assms(1)] assms(11) m'
    by (simp add: serve_key_get get_sent_def unmarshal_marshal)
  then have "client_find_peers c' j (get_reply ev' (hosts(a \<mapsto> ?n)) remote') k = Some (Inr ps)"
    using ps(4) by (simp add: client_find_peers_def url get_reply_def check_status_def)
  moreover have "(\<exists>p \<in> set ps. peer_ip p = ip \<and> peer_port p = cc_port c) \<or> int (length ps) = cf_k (nd_config n)"
    using ps(3) by force
  moreover have "set ps \<subseteq> live_peers (ev_clk ev') (nd_peers ?n) k" using ps(2) qs(2) by simp
  moreover have "(hosts(a \<mapsto> ?n)) a = Some ?n" by simp
  ultimately show ?thesis using ok put url(1) by blast
qed

definition sample_client :: client_config where
  "sample_client = default_client_config\<lparr>cc_nodes := [''b:2''], cc_upload_key := cf_upload_key (nd_config sample_node)\<rparr>"

theorem put_then_find_witness:
  "client_put_key sample_client 0 (put_reply sample_env [''b:2'' \<mapsto> sample_node] (show_v4 1 2 3 4)) zero_key = Some None \<and>
   (\<exists>url hosts' ts ps. node_url sample_client 0 zero_key = Some url \<and>
      deliver sample_env [''b:2'' \<mapsto> sample_node] PUT url (put_sent (show_v4 1 2 3 4) (put_of sample_client url)) =
        Some ((200, NoBody), hosts', ts) \<and>
      client_find_peers sample_client 3 (get_reply sample_env hosts' (show_v4 5 6 7 8)) zero_key = Some (Inr ps))"
proof -
  have ip: "parse_ip (show_v4 1 2 3 4) = Inr (Addr4 1 2 3 4)" "parse_ip (show_v4 5 6 7 8) = Inr (Addr4 5 6 7 8)"
    by (simp_all add: parse_ip_def parse_v4_show)
  have a: "plain_address ''b:2''" "[''b:2'' \<mapsto> sample_node] ''b:2'' = Some sample_node" by (simp_all add: plain_address_def)
  have c: "cc_nodes sample_client \<noteq> []" "cc_nodes sample_client ! (i mod length (cc_nodes sample_client)) = ''b:2''" for i
    by (simp_all add: sample_client_def)
  have u: "cf_upload_key (nd_config sample_node) \<in> {zero_key, cc_upload_key sample_client}" "1 \<le> cf_k (nd_config sample_node)"
    "\<forall>p. ev_clk sample_env p \<le> ev_now sample_env + store_expiry (nd_peers sample_node)"
    by (simp_all add: sample_client_def sample_node_def sample_config_def sample_env_def new_peer_store_def)
  from put_then_find [where hosts = "[''b:2'' \<mapsto> sample_node]", OF a sample_node_inv sample_env_ok(1) c(1) c(2) [of 0] c(1) c(2) [of 3] u(1) ip u(2,3), where k = zero_key]
  show ?thesis by blast
qed

text \<open>
  C40: an answer without peers stops the client. A node whose store has no live peers for a key and
  whose lookup ends with \<^verbatim>\<open>found\<close> and an empty list, as any queried node can answer, tells the client
  that draws it 200 with no peers, and the client panics.
\<close>

theorem empty_peers_panic:
  assumes "plain_address a" and "hosts a = Some n" and "node_inv hi n" and "env_ok ev"
    and "cc_nodes c \<noteq> []" and "cc_nodes c ! (i mod length (cc_nodes c)) = a"
    and "parse_ip remote = Inr ip" and "0 \<le> cf_k (nd_config n)"
    and "live_peers (ev_clk ev) (nd_peers n) k = {}" and "node_lookup ev n FindPeersLookup k = Some (FoundPeers [] dst)"
  shows "(\<exists>url. node_url c i k = Some url \<and> get_reply ev hosts remote url = Some (200, Some [])) \<and>
    client_find_peers c i (get_reply ev hosts remote) k = None"
proof -
  obtain asn b where m: "trie_match (nd_trie n) ip = Some (asn, b)" by (rule match_total [OF assms(3,7)])
  obtain r s where g: "peer_store_get (ev_clk ev) (ev_peer_ord ev) (nd_peers n) k = (r, s)" by fastforce
  have inv: "store_inv (nd_peers n)" using assms(3) by (simp add: node_inv_def)
  obtain e where "r = Inl e" using get_frame(3) [OF env_okD(1) [OF assms(4)] inv g] assms(9) by (cases r) auto
  then obtain n' where f: "node_find_peers ev n k = Some (Inr [], n')" "nd_config n' = nd_config n"
    using g assms(10) env_okD(3) [OF assms(4)] by (auto simp: node_find_peers_def own_peers_def take_outcome_def split: option.splits)
  have "stable_sort (\<lambda>a b. asn_cmp asn a b < 0) [] = []" using sort_asn_mset [of asn "[]"] by simp
  then have "serve ev n KeyGet ((get_sent remote)\<lparr>rq_key := marshal_b32 k\<rparr>) = Some ((200, PeersBody []), n', [])"
    using assms(7,8) m f by (simp add: serve_key_get get_sent_def unmarshal_marshal peers_response_def Let_def)
  then have "get_reply ev hosts remote (''https://'' @ a @ ''/key/'' @ marshal_b32 k) = Some (200, Some [])"
    using deliver_key [where hosts = hosts and m = GET, OF assms(1,2)] by (simp add: get_reply_def)
  then show ?thesis by (simp add: picked_url [OF assms(5,6)] client_find_peers_def check_status_def)
qed

theorem empty_peers_panic_witness:
  "client_find_peers sample_client 0
     (get_reply (answering (Peers [])) [''b:2'' \<mapsto> sample_node] (show_v4 1 2 3 4)) (parse_uint64 7) = None"
proof -
  have ip: "parse_ip (show_v4 1 2 3 4) = Inr (Addr4 1 2 3 4)" by (simp add: parse_ip_def parse_v4_show)
  have a: "plain_address ''b:2''" "[''b:2'' \<mapsto> sample_node] ''b:2'' = Some sample_node" by (simp_all add: plain_address_def)
  have c: "cc_nodes sample_client \<noteq> []" "cc_nodes sample_client ! (0 mod length (cc_nodes sample_client)) = ''b:2''"
    by (simp_all add: sample_client_def)
  have n: "0 \<le> cf_k (nd_config sample_node)" "live_peers (ev_clk (answering (Peers []))) (nd_peers sample_node) (parse_uint64 7) = {}"
    by (simp_all add: sample_node_def sample_config_def live_peers_def)
  have l: "node_lookup (answering (Peers [])) sample_node FindPeersLookup (parse_uint64 7) = Some (FoundPeers [] None)" by code_simp
  from empty_peers_panic [where hosts = "[''b:2'' \<mapsto> sample_node]", OF a sample_node_inv sample_env_ok(2) c ip n l] show ?thesis by blast
qed

end
