(* ===== verification/Daemon.thy ===== *)
theory Daemon
  imports Client Fs
begin

text \<open>
  The peer daemon (\<^verbatim>\<open>daemon.go\<close>): it keeps a block store with the file system on it, serves its blocks
  to other peers, announces them to a node of the DHT and downloads DAGs from other peers.  What
  the DHT and the other peers answer is an argument.

  A download runs as many goroutines as the DAG has links.  Each is one call of \<^verbatim>\<open>download\<close>, which
  touches shared state with one write to the store and with the goroutines it starts; the model
  runs the pending ones one after the other in any order.  That interleaved goroutines, with the
  semaphore, do no more than this is shown in \<^verbatim>\<open>Concurrency\<close> on the finer steps of \<^verbatim>\<open>Goroutines\<close>.
\<close>

subsection \<open>Addresses as text\<close>

text \<open>\<^verbatim>\<open>Addr.String\<close>; in an IPv6 address the first longest run of at least two zero groups is left out.\<close>

definition v6_groups :: "u8 list \<Rightarrow> nat list" where
  "v6_groups bs = map (\<lambda>i. 256 * unat (bs ! (2 * i)) + unat (bs ! (2 * i + 1))) [0..<8]"

definition zero_run :: "nat list \<Rightarrow> nat \<times> nat" where
  "zero_run gs =
     fold (\<lambda>i (s, l). let r = length (takeWhile (\<lambda>g. g = 0) (drop i gs)) in
             if 2 \<le> r \<and> l < r then (i, r) else (s, l)) [0..<8] (0, 0)"

fun show_hex :: "nat \<Rightarrow> string" where
  "show_hex n = (if n < 16 then [hex_char n] else show_hex (n div 16) @ [hex_char (n mod 16)])"

declare show_hex.simps [simp del]

fun show_groups :: "nat list \<Rightarrow> string" where
  "show_groups [] = []"
| "show_groups [g] = show_hex g"
| "show_groups (g # gs) = show_hex g @ '':'' @ show_groups gs"

definition show_v6 :: "u8 list \<Rightarrow> string" where
  "show_v6 bs =
     (let gs = v6_groups bs in
      case zero_run gs of (s, l) \<Rightarrow>
        if l = 0 then show_groups gs else show_groups (take s gs) @ ''::'' @ show_groups (drop (s + l) gs))"

fun show_addr :: "addr \<Rightarrow> string" where
  "show_addr AddrNone = ''invalid IP''"
| "show_addr (Addr4 a b c d) = show_v4 a b c d"
| "show_addr (Addr6 bs zone) =
     (if take 12 bs = replicate 10 0 @ [255, 255]
      then ''::ffff:'' @ show_v4 (bs ! 12) (bs ! 13) (bs ! 14) (bs ! 15) else show_v6 bs) @
     (if zone = '''' then '''' else ''%'' @ zone)"

subsection \<open>Configuration and state\<close>

record daemon_config =
  dc_client :: client_config
  dc_store_path :: string
  dc_host :: string
  dc_public_ip :: string
  dc_rpc_port :: u16

definition default_daemon_config :: daemon_config where
  "default_daemon_config =
     \<lparr>dc_client = default_client_config, dc_store_path = ''inu.db'', dc_host = ''0.0.0.0'', dc_public_ip = '''',
      dc_rpc_port = cc_port default_client_config + 1000\<rparr>"

record daemon =
  dm_config :: daemon_config
  dm_store :: store

text \<open>The table is that of the database at the configured path.\<close>

definition new_daemon :: "daemon_config \<Rightarrow> (cid \<times> u8 list) list option \<Rightarrow> daemon option" where
  "new_daemon config table =
     (if dc_public_ip config = '''' then None
      else Some \<lparr>dm_config = config, dm_store = open_store table\<rparr>)"

subsection \<open>Blocks on the wire\<close>

definition block_json :: "block \<Rightarrow> json" where
  "block_json b = JObj [(''cid'', JStr (block_cid b)), (''data'', bytes_json (Some (block_data b)))]"

definition set_block_field :: "cid \<times> u8 slice \<Rightarrow> string \<Rightarrow> json \<Rightarrow> (cid \<times> u8 slice) option" where
  "set_block_field x k v =
     (if is_field ''cid'' k then map_option (\<lambda>s. (s, snd x)) (decode_string (fst x) v)
      else if is_field ''data'' k then map_option (\<lambda>d. (fst x, d)) (decode_bytes (snd x) v)
      else Some x)"

definition decode_block :: "json \<Rightarrow> block option" where
  "decode_block j =
     map_option (\<lambda>(c, d). \<lparr>block_cid = c, block_data = (case slice_val d of None \<Rightarrow> [] | Some bs \<Rightarrow> bs)\<rparr>)
       (decode_struct set_block_field ('''', nil_slice) j)"

text \<open>The public route: a block as JSON with a line feed, as \<^verbatim>\<open>Encoder.Encode\<close> writes it.\<close>

definition block_route :: "daemon \<Rightarrow> cid \<Rightarrow> nat \<times> u8 list" where
  "block_route d c =
     (case store_get (dm_store d) c of
        Inl e \<Rightarrow> (500, [])
      | Inr b \<Rightarrow> (200, marshal (block_json b) @ [10]))"

subsection \<open>Operations\<close>

definition daemon_add_bytes :: "daemon \<Rightarrow> u8 list option \<Rightarrow> (error + cid) \<times> daemon" where
  "daemon_add_bytes d bytes =
     (case add_bytes (dm_store d) bytes of
        (Inl e, s) \<Rightarrow> (Inl e, d\<lparr>dm_store := s\<rparr>)
      | (Inr n, s) \<Rightarrow> (Inr (block_cid (mn_block n)), d\<lparr>dm_store := s\<rparr>))"

definition daemon_add_path :: "daemon \<Rightarrow> string \<Rightarrow> tree \<Rightarrow> (error + record_entry list) \<times> daemon" where
  "daemon_add_path d path t =
     (case add_path (dm_store d) path t of
        (Inl e, s) \<Rightarrow> (Inl e, d\<lparr>dm_store := s\<rparr>)
      | (Inr (_, rs), s) \<Rightarrow> (Inr rs, d\<lparr>dm_store := s\<rparr>))"

definition daemon_cat :: "nat \<Rightarrow> daemon \<Rightarrow> string \<Rightarrow> (error + u8 list) option" where
  "daemon_cat fuel d path =
     (case resolve_path (dm_store d) path of
        Inl e \<Rightarrow> Some (Inl e)
      | Inr n \<Rightarrow> read_bytes fuel (dm_store d) n)"

text \<open>
  What a call has from outside, each with the number of the call: the draws of \<^verbatim>\<open>rand.Intn\<close>, the
  replies of the DHT and of peers.
\<close>

record web =
  wb_pick :: "nat \<Rightarrow> nat"
  wb_find :: "string \<Rightarrow> peer list option reply"
  wb_block :: "string \<Rightarrow> u8 list reply"
  wb_put :: "nat \<Rightarrow> put_request \<Rightarrow> unit reply"

text \<open>The loop of \<^verbatim>\<open>Upload\<close>: the keys that were put, and the first error.\<close>

fun put_keys :: "client_config \<Rightarrow> web \<Rightarrow> nat \<Rightarrow> cid list \<Rightarrow> (error option \<times> key list) option" where
  "put_keys c w i [] = Some (None, [])"
| "put_keys c w i (cid # cids) =
     (case parse_cid cid of
        Inl e \<Rightarrow> Some (Some e, [])
      | Inr k \<Rightarrow>
     (case client_put_key c (wb_pick w i) (wb_put w i) k of
        None \<Rightarrow> None
      | Some (Some e) \<Rightarrow> Some (Some e, [])
      | Some None \<Rightarrow> map_option (\<lambda>(e, ks). (e, k # ks)) (put_keys c w (Suc i) cids)))"

text \<open>Out of fuel is the outer \<open>None\<close>, a panic the inner one.\<close>

definition daemon_upload :: "nat \<Rightarrow> daemon \<Rightarrow> web \<Rightarrow> string \<Rightarrow> ((error + nat) \<times> key list) option option" where
  "daemon_upload fuel d w path =
     (case resolve_path (dm_store d) path of
        Inl e \<Rightarrow> Some (Some (Inl e, []))
      | Inr n \<Rightarrow>
     (case dag fuel (dm_store d) (block_cid (mn_block n)) of
        None \<Rightarrow> None
      | Some (Inl e) \<Rightarrow> Some (Some (Inl e, []))
      | Some (Inr (cids, _)) \<Rightarrow>
          Some (case put_keys (dc_client (dm_config d)) w 0 cids of
                  None \<Rightarrow> None
                | Some (Some e, ks) \<Rightarrow> Some (Inl e, ks)
                | Some (None, ks) \<Rightarrow> Some (Inr (length cids), ks))))"

fun peer_index :: "peer list \<Rightarrow> string \<Rightarrow> nat option" where
  "peer_index [] ip = None"
| "peer_index (p # ps) ip = (if ip = show_addr (peer_ip p) then Some 0 else map_option Suc (peer_index ps ip))"

definition other_peers :: "peer list \<Rightarrow> string \<Rightarrow> peer list" where
  "other_peers ps ip = (case peer_index ps ip of None \<Rightarrow> ps | Some i \<Rightarrow> take i ps @ drop (i + 1) ps)"

definition block_url :: "peer \<Rightarrow> key \<Rightarrow> string" where
  "block_url p k = ''https://'' @ host_port (show_addr (peer_ip p)) (peer_port p) @ ''/block/'' @ marshal_b32 k"

text \<open>The links that a download goes on with, the daemon afterwards and the keys that were put.\<close>

definition download :: "daemon \<Rightarrow> web \<Rightarrow> key \<Rightarrow> ((error + cid list) \<times> daemon \<times> key list) option" where
  "download d w k =
     (case client_find_peers (dc_client (dm_config d)) (wb_pick w 0) (wb_find w) k of
        None \<Rightarrow> None
      | Some (Inl e) \<Rightarrow> Some (Inl e, d, [])
      | Some (Inr found) \<Rightarrow>
     (case other_peers found (dc_public_ip (dm_config d)) of
        [] \<Rightarrow> Some (Inl NoPeers, d, [])
      | p # _ \<Rightarrow>
     (case check_status (wb_block w (block_url p k)) of
        Inl e \<Rightarrow> Some (Inl e, d, [])
      | Inr body \<Rightarrow>
     (case decode_first decode_block body of
        None \<Rightarrow> Some (Inl BadEncoding, d, [])
      | Some b \<Rightarrow>
          if \<not> block_valid b then Some (Inl InvalidBlock, d, [])
          else
     (case parse_block b of
        Inl e \<Rightarrow> Some (Inl e, d, [])
      | Inr m \<Rightarrow>
     (case store_put (dm_store d) b of
        (Some e, s) \<Rightarrow> Some (Inl e, d\<lparr>dm_store := s\<rparr>, [])
      | (None, s) \<Rightarrow>
     (case client_put_key (dc_client (dm_config d)) (wb_pick w 1) (wb_put w 0) k of
        None \<Rightarrow> None
      | Some (Some e) \<Rightarrow> Some (Inl e, d\<lparr>dm_store := s\<rparr>, [])
      | Some None \<Rightarrow> Some (Inr (map link_cid (mn_links m)), d\<lparr>dm_store := s\<rparr>, [k]))))))))"

subsection \<open>A download as a whole\<close>

record dl =
  dl_daemon :: daemon
  dl_pending :: "cid list"          \<comment> \<open>the goroutines that have not run\<close>
  dl_error :: "error option"        \<comment> \<open>what \<^verbatim>\<open>Wait\<close> returns, once nothing is pending\<close>
  dl_announced :: "key list"        \<comment> \<open>the keys that were put\<close>

definition start_download :: "daemon \<Rightarrow> cid \<Rightarrow> error + dl" where
  "start_download d c =
     (case parse_cid c of
        Inl e \<Rightarrow> Inl e
      | Inr _ \<Rightarrow> Inr \<lparr>dl_daemon = d, dl_pending = [c], dl_error = None, dl_announced = []\<rparr>)"

definition first_error :: "error option \<Rightarrow> error \<Rightarrow> error option" where
  "first_error old e = (case old of None \<Rightarrow> Some e | Some e' \<Rightarrow> Some e')"

text \<open>The goroutine number \<open>i\<close> runs: it parses the identifier of its link and downloads the block.\<close>

definition run_goroutine :: "nat \<Rightarrow> web \<Rightarrow> dl \<Rightarrow> dl option" where
  "run_goroutine i w s =
     (let c = dl_pending s ! i; rest = take i (dl_pending s) @ drop (Suc i) (dl_pending s) in
      case parse_cid c of
        Inl e \<Rightarrow> Some (s\<lparr>dl_pending := rest, dl_error := first_error (dl_error s) e\<rparr>)
      | Inr k \<Rightarrow>
     (case download (dl_daemon s) w k of
        None \<Rightarrow> None
      | Some (Inl e, d, ks) \<Rightarrow>
          Some (s\<lparr>dl_daemon := d, dl_pending := rest, dl_error := first_error (dl_error s) e,
                  dl_announced := dl_announced s @ ks\<rparr>)
      | Some (Inr cs, d, ks) \<Rightarrow>
          Some (s\<lparr>dl_daemon := d, dl_pending := rest @ cs, dl_announced := dl_announced s @ ks\<rparr>)))"

text \<open>
  The states of a download after \<open>n\<close> goroutines, for peers of which \<open>P\<close> holds: \<open>P k w\<close> restricts
  what the download of \<open>k\<close> can meet.
\<close>

inductive dl_reachable :: "(key \<Rightarrow> web \<Rightarrow> bool) \<Rightarrow> dl \<Rightarrow> nat \<Rightarrow> dl \<Rightarrow> bool" for P s0 where
  Start: "dl_reachable P s0 0 s0"
| Goroutine:
    "\<lbrakk>dl_reachable P s0 n s; i < length (dl_pending s);
      \<forall>k. parse_cid (dl_pending s ! i) = Inr k \<longrightarrow> P k w; run_goroutine i w s = Some s'\<rbrakk> \<Longrightarrow>
     dl_reachable P s0 (Suc n) s'"

inductive_cases dl_reachableE: "dl_reachable P s0 n s"

end
