(* ===== verification/Download.thy ===== *)
theory Download
  imports Daemon Fs_Correct
begin

text \<open>
  Uploads and downloads: what one download does to the store, what holds in every state of a
  download whatever the peers answer, and what honest peers guarantee.
\<close>

subsection \<open>Blocks on the wire\<close>

lemma printable_block: "valid_utf8 (block_cid b) \<Longrightarrow> printable 1 (block_json b)"
  by (simp add: block_json_def)

lemma decode_block_json: "decode_block (block_json b) = Some b"
  by (simp add: decode_block_def block_json_def set_block_field_def is_field_def decode_string_def decode_bytes_json)

lemma text_of_marshal: "text_of (marshal j @ [10]) = json_print j @ [CHR 0x0A]"
proof -
  have "text_of (bytes_of s @ [10]) = s @ [CHR 0x0A]" for s
    using text_bytes [of s] char_of_code [of "CHR 0x0A"] by (simp add: text_of_def)
  then show ?thesis by (simp add: marshal_def)
qed

lemma decode_served: "valid_utf8 (block_cid b) \<Longrightarrow> decode_first decode_block (marshal (block_json b) @ [10]) = Some b"
proof -
  assume "valid_utf8 (block_cid b)"
  from json_parse_print(2) [OF printable_block [OF this], of "[CHR 0x0A]"]
  have "json_first (json_print (block_json b) @ [CHR 0x0A]) = Some (block_json b)"
    by (simp add: max_depth_def delimited_def is_digit_def)
  then show ?thesis by (simp add: decode_first_def text_of_marshal decode_block_json)
qed

lemma valid_block_utf8: "block_valid b \<Longrightarrow> valid_utf8 (block_cid b)"
  using valid_utf8_plain [OF plain_cid, of "block_data b"] by (simp add: block_valid_def)

subsection \<open>Identifiers as keys\<close>

lemma parse_cid_of: "parse_cid (cid_of d) = Inr (mk_key (sha256 d))"
proof -
  have "cid_of d = marshal_b32 (mk_key (sha256 d))"
    by (simp add: cid_of_def marshal_b32_def key_bytes_mk_key)
  then show ?thesis by (simp add: parse_cid_def unmarshal_marshal)
qed

lemma marshal_sha [simp]: "marshal_b32 (mk_key (sha256 d)) = cid_of d"
  by (simp add: cid_of_def marshal_b32_def key_bytes_mk_key)

subsection \<open>One download\<close>

text \<open>What a peer sent, and whether it is what it was asked for.\<close>

definition sent :: "web \<Rightarrow> block \<Rightarrow> bool" where
  "sent w b \<longleftrightarrow> (\<exists>url body. check_status (wb_block w url) = Inr body \<and> decode_first decode_block body = Some b)"

definition as_asked :: "key \<Rightarrow> web \<Rightarrow> bool" where
  "as_asked k w \<longleftrightarrow> (\<forall>b. sent w b \<longrightarrow> block_cid b = marshal_b32 k)"

lemma download_cases:
  assumes "download d w k = Some (r, d', ks)"
  obtains (Nothing) e where "r = Inl e" "d' = d" "ks = []"
  | (Stored) b m s where "sent w b" "block_valid b" "parse_block b = Inr m" "store_put (dm_store d) b = (None, s)"
      "d' = d\<lparr>dm_store := s\<rparr>" "(\<exists>e. r = Inl e \<and> ks = []) \<or> (r = Inr (map link_cid (mn_links m)) \<and> ks = [k])"
proof -
  let ?find = "client_find_peers (dc_client (dm_config d)) (wb_pick w 0) (wb_find w) k"
  obtain found where f: "?find = Some found" using assms by (cases ?find) (simp_all add: download_def)
  have stop: thesis if "Some (Inl e, d, []) = Some (r, d', ks)" for e using Nothing [of e] that by simp
  show thesis
  proof (cases found)
    case (Inl e)
    then show ?thesis using assms f by (auto simp: download_def intro: stop)
  next
    case found: (Inr ps)
    show ?thesis
    proof (cases "other_peers ps (dc_public_ip (dm_config d))")
      case Nil
      then show ?thesis using assms f found by (auto simp: download_def intro: stop)
    next
      case p: (Cons p qs)
      show ?thesis
      proof (cases "check_status (wb_block w (block_url p k))")
        case (Inl e)
        then show ?thesis using assms f found p by (auto simp: download_def intro: stop)
      next
        case body: (Inr body)
        show ?thesis
        proof (cases "decode_first decode_block body")
          case None
          then show ?thesis using assms f found p body by (auto simp: download_def intro: stop)
        next
          case b: (Some b)
          note D = assms [unfolded download_def f found p body b option.case sum.case list.case]
          have sent: "sent w b" unfolding sent_def using body b by blast
          show ?thesis
          proof (cases "block_valid b \<and> (\<exists>m. parse_block b = Inr m)")
            case False
            then show ?thesis using D by (cases "parse_block b") (auto split: if_splits intro: stop)
          next
            case True
            then obtain m where m: "block_valid b" "parse_block b = Inr m" by blast
            obtain x s where put: "store_put (dm_store d) b = (x, s)" by fastforce
            show ?thesis
            proof (cases x)
              case (Some e)
              then have "s = dm_store d" using put by (auto simp: store_put_def split: if_splits)
              then show ?thesis using D m put Some by (auto intro: stop)
            next
              case None
              have "\<exists>e. client_put_key (dc_client (dm_config d)) (wb_pick w 1) (wb_put w 0) k = Some e"
                using D m put None by (cases "client_put_key (dc_client (dm_config d)) (wb_pick w 1) (wb_put w 0) k") simp_all
              then obtain e where e: "client_put_key (dc_client (dm_config d)) (wb_pick w 1) (wb_put w 0) k = Some e" ..
              have "d' = d\<lparr>dm_store := s\<rparr>" using D m put None e by (cases e) simp_all
              moreover have "(\<exists>e. r = Inl e \<and> ks = []) \<or> (r = Inr (map link_cid (mn_links m)) \<and> ks = [k])"
                using D m put None e by (cases e) auto
              ultimately show ?thesis by (rule Stored [OF sent m put [unfolded None]])
            qed
          qed
        qed
      qed
    qed
  qed
qed

lemma run_goroutine_cases:
  assumes "run_goroutine i w s = Some s'" and "i < length (dl_pending s)"
  obtains (Failed) "dl_error s' \<noteq> None" "dl_daemon s' = dl_daemon s" "dl_announced s' = dl_announced s"
  | (Stored) k b m st where "parse_cid (dl_pending s ! i) = Inr k" "sent w b" "block_valid b" "parse_block b = Inr m"
      "store_put (dm_store (dl_daemon s)) b = (None, st)" "dl_daemon s' = (dl_daemon s)\<lparr>dm_store := st\<rparr>"
      "(dl_error s' \<noteq> None \<and> dl_announced s' = dl_announced s) \<or>
       (dl_error s' = dl_error s \<and> dl_announced s' = dl_announced s @ [k] \<and>
        set (dl_pending s') = set (take i (dl_pending s) @ drop (Suc i) (dl_pending s)) \<union> set (map link_cid (mn_links m)))"
proof -
  have fe: "first_error old e \<noteq> None" for old e by (simp add: first_error_def split: option.split)
  show thesis
  proof (cases "parse_cid (dl_pending s ! i)")
    case (Inl e)
    then show ?thesis using assms(1) fe Failed by (auto simp: run_goroutine_def Let_def)
  next
    case (Inr k)
    then obtain r d' ks where d: "download (dl_daemon s) w k = Some (r, d', ks)"
      using assms(1) by (auto simp: run_goroutine_def Let_def split: option.splits)
    from d show ?thesis
    proof (cases rule: download_cases)
      case (Nothing e)
      then show ?thesis using assms(1) Inr d fe Failed by (auto simp: run_goroutine_def Let_def)
    next
      case (Stored b m st)
      show ?thesis
      proof (cases r)
        case (Inl e)
        then have s': "dl_error s' \<noteq> None" "dl_announced s' = dl_announced s" "dl_daemon s' = d'"
          using assms(1) Inr d fe Stored(6) by (auto simp: run_goroutine_def Let_def)
        show ?thesis by (rule that(2) [OF Inr Stored(1-4)]) (use s' Stored(5) in simp_all)
      next
        case r: (Inr cs)
        then have s': "dl_error s' = dl_error s" "dl_announced s' = dl_announced s @ [k]" "dl_daemon s' = d'"
          "dl_pending s' = take i (dl_pending s) @ drop (Suc i) (dl_pending s) @ map link_cid (mn_links m)"
          using assms(1) Inr d Stored(6) by (auto simp: run_goroutine_def Let_def)
        show ?thesis by (rule that(2) [OF Inr Stored(1-4)]) (use s' Stored(5) in \<open>simp_all add: Un_assoc\<close>)
      qed
    qed
  qed
qed

subsection \<open>The store during a download\<close>

lemma put_valid_get:
  assumes "block_valid b" and "store_put s b = (None, s')"
  shows "store_get s' c = (if c = block_cid b then Inr b else store_get s c)" and "st_open s" and "st_open s'"
proof -
  show o: "st_open s" "st_open s'" using assms(2) by (auto simp: store_put_def split: if_splits)
  show "store_get s' c = (if c = block_cid b then Inr b else store_get s c)"
    using rows.get_put [OF o(1) assms(2)] rows.get_other [OF o(1) assms(2)] by simp
qed

text \<open>Two blocks with one identifier and different content.\<close>

definition clash :: "block \<Rightarrow> block \<Rightarrow> bool" where
  "clash b b' \<longleftrightarrow> block_data b \<noteq> block_data b' \<and> sha256 (block_data b) = sha256 (block_data b')"

lemma same_or_clash:
  "block_valid b \<Longrightarrow> block_valid b' \<Longrightarrow> block_cid b = block_cid b' \<Longrightarrow> b = b' \<or> clash b b'"
  by (auto simp: block_valid_def clash_def simp flip: cid_of_inject)

lemma reach_store:
  assumes "dl_reachable P s0 n s" and "rows_inv (dm_store (dl_daemon s0))"
  shows "rows_inv (dm_store (dl_daemon s)) \<and> dm_config (dl_daemon s) = dm_config (dl_daemon s0) \<and>
    st_open (dm_store (dl_daemon s)) = st_open (dm_store (dl_daemon s0)) \<and>
    (\<forall>c b. store_get (dm_store (dl_daemon s0)) c = Inr b \<longrightarrow> (\<exists>b'. store_get (dm_store (dl_daemon s)) c = Inr b'))"
  using assms(1)
proof induction
  case Start
  then show ?case using assms(2) by simp
next
  case (Goroutine n s i w s')
  from Goroutine(4,2) show ?case
  proof (cases rule: run_goroutine_cases)
    case Failed
    then show ?thesis using Goroutine.IH by simp
  next
    case (Stored k b m st)
    have "rows_inv st" using rows.inv_put [OF _ Stored(3,5)] Goroutine.IH by simp
    then show ?thesis using Goroutine.IH put_valid_get [OF Stored(3,5)] Stored(6) by auto
  qed
qed

subsection \<open>A complete download\<close>

text \<open>
  The blocks downloaded so far: each is in the store, and its links are downloaded or pending.
\<close>

definition progress :: "cid \<Rightarrow> dl \<Rightarrow> cid set \<Rightarrow> bool" where
  "progress root s D \<longleftrightarrow>
     (\<forall>c. c = root \<or> (\<exists>x \<in> D. \<exists>b m. store_get (dm_store (dl_daemon s)) x = Inr b \<and> parse_block b = Inr m \<and> c \<in> link_cid ` set (mn_links m)) \<longrightarrow>
        c \<in> set (dl_pending s) \<or> (\<forall>k. parse_cid c = Inr k \<longrightarrow> marshal_b32 k \<in> D)) \<and>
     (\<forall>x \<in> D. \<exists>b m. store_get (dm_store (dl_daemon s)) x = Inr b \<and> parse_block b = Inr m) \<and>
     marshal_b32 ` set (dl_announced s) = D"

lemma set_without: "i < length xs \<Longrightarrow> set xs = insert (xs ! i) (set (take i xs @ drop (Suc i) xs))"
  by (metis id_take_nth_drop list.simps(15) set_append Un_insert_right)

lemma error_stays:
  "run_goroutine i w s = Some s' \<Longrightarrow> dl_error s \<noteq> None \<Longrightarrow> dl_error s' \<noteq> None"
  by (auto simp: run_goroutine_def first_error_def Let_def split: sum.splits option.splits)

lemma reach_progress:
  assumes "dl_reachable as_asked s0 n s" and "start_download d root = Inr s0"
  shows "dl_error s = None \<longrightarrow> (\<exists>D. progress root s D)"
  using assms(1)
proof induction
  case Start
  have "progress root s0 {}" using assms(2) by (auto simp: progress_def start_download_def split: sum.splits)
  then show ?case by blast
next
  case (Goroutine n s i w s')
  show ?case
  proof
    assume ok: "dl_error s' = None"
    then have "dl_error s = None" using error_stays [OF Goroutine(4)] by blast
    then obtain D where D: "progress root s D" using Goroutine.IH by blast
    from Goroutine(4,2) show "\<exists>D. progress root s' D"
    proof (cases rule: run_goroutine_cases)
      case Failed
      then show ?thesis using ok by simp
    next
      case (Stored k b m st)
      have cid: "block_cid b = marshal_b32 k" using Goroutine(3) Stored(1,2) by (auto simp: as_asked_def)
      have s': "dl_announced s' = dl_announced s @ [k]"
        "set (dl_pending s') = set (take i (dl_pending s) @ drop (Suc i) (dl_pending s)) \<union> link_cid ` set (mn_links m)"
        using Stored(7) ok by auto
      have get: "store_get (dm_store (dl_daemon s')) c = (if c = marshal_b32 k then Inr b else store_get (dm_store (dl_daemon s)) c)" for c
        using put_valid_get(1) [OF Stored(3,5)] Stored(6) cid by simp
      let ?c = "dl_pending s ! i"
      have pend: "set (dl_pending s) \<subseteq> insert ?c (set (dl_pending s'))"
        using set_without [OF Goroutine(2)] s'(2) by auto
      have "progress root s' (insert (marshal_b32 k) D)"
        unfolding progress_def
      proof (intro conjI allI impI ballI)
        fix c
        assume c: "c = root \<or> (\<exists>x \<in> insert (marshal_b32 k) D. \<exists>b m. store_get (dm_store (dl_daemon s')) x = Inr b \<and>
            parse_block b = Inr m \<and> c \<in> link_cid ` set (mn_links m))"
        show "c \<in> set (dl_pending s') \<or> (\<forall>ka. parse_cid c = Inr ka \<longrightarrow> marshal_b32 ka \<in> insert (marshal_b32 k) D)"
        proof (cases "c \<in> link_cid ` set (mn_links m)")
          case True
          then show ?thesis using s'(2) by simp
        next
          case False
          then have "c = root \<or> (\<exists>x \<in> D. \<exists>b m. store_get (dm_store (dl_daemon s)) x = Inr b \<and>
              parse_block b = Inr m \<and> c \<in> link_cid ` set (mn_links m))"
            using c
          proof (elim disjE bexE exE conjE)
            fix x b' m'
            assume x: "x \<in> insert (marshal_b32 k) D" "store_get (dm_store (dl_daemon s')) x = Inr b'"
              "parse_block b' = Inr m'" "c \<in> link_cid ` set (mn_links m')"
            show ?thesis
            proof (cases "x = marshal_b32 k")
              case True
              then show ?thesis using x get [of x] Stored(4) False by simp
            next
              case other: False
              then have "x \<in> D" "store_get (dm_store (dl_daemon s)) x = Inr b'" using x get [of x] by simp_all
              then show ?thesis using x(3,4) by blast
            qed
          qed blast
          then have "c \<in> set (dl_pending s) \<or> (\<forall>ka. parse_cid c = Inr ka \<longrightarrow> marshal_b32 ka \<in> D)"
            using D unfolding progress_def by blast
          then show ?thesis using pend Stored(1) by auto
        qed
      next
        fix x assume "x \<in> insert (marshal_b32 k) D"
        then show "\<exists>b m. store_get (dm_store (dl_daemon s')) x = Inr b \<and> parse_block b = Inr m"
          using D Stored(4) get [of x] unfolding progress_def by (cases "x = marshal_b32 k") auto
      next
        show "marshal_b32 ` set (dl_announced s') = insert (marshal_b32 k) D"
          using D s'(1) unfolding progress_def by auto
      qed
      then show ?thesis by blast
    qed
  qed
qed

text \<open>A store that is closed under the links of a root has the DAG of another store, or the two clash.\<close>

definition closed :: "store \<Rightarrow> cid set \<Rightarrow> bool" where
  "closed s D \<longleftrightarrow> (\<forall>x \<in> D. \<exists>b m. store_get s x = Inr b \<and> parse_block b = Inr m \<and>
     (\<forall>l \<in> set (mn_links m). \<forall>k. parse_cid (link_cid l) = Inr k \<longrightarrow> marshal_b32 k \<in> D))"

lemma get_valid_cid:
  assumes "rows_inv s" and "store_get s c = Inr b"
  shows "block_valid b" and "block_cid b = c" and "parse_cid c = Inr (mk_key (sha256 (block_data b)))"
    and "marshal_b32 (mk_key (sha256 (block_data b))) = c"
proof -
  show v: "block_valid b" "block_cid b = c" using rows.get_valid [OF assms] by simp_all
  then have "c = cid_of (block_data b)" by (simp add: block_valid_def)
  then show "parse_cid c = Inr (mk_key (sha256 (block_data b)))" "marshal_b32 (mk_key (sha256 (block_data b))) = c"
    by (simp_all add: parse_cid_of)
qed

lemma closed_agrees:
  assumes "rows_inv T" and "closed T D"
  shows "dag f S c = Some (Inr (cs, sz)) \<Longrightarrow> rows_inv S \<Longrightarrow> \<forall>k. parse_cid c = Inr k \<longrightarrow> marshal_b32 k \<in> D \<Longrightarrow>
      \<forall>x \<in> set cs. \<forall>b b'. store_get S x = Inr b \<and> store_get T x = Inr b' \<longrightarrow> \<not> clash b b' \<Longrightarrow>
      \<forall>x \<in> set cs. x \<in> D \<and> store_get T x = store_get S x"
    and "dag_links f S ls = Some (Inr (cs, sz)) \<Longrightarrow> rows_inv S \<Longrightarrow>
      \<forall>l \<in> set ls. \<forall>k. parse_cid (link_cid l) = Inr k \<longrightarrow> marshal_b32 k \<in> D \<Longrightarrow>
      \<forall>x \<in> set cs. \<forall>b b'. store_get S x = Inr b \<and> store_get T x = Inr b' \<longrightarrow> \<not> clash b b' \<Longrightarrow>
      \<forall>x \<in> set cs. x \<in> D \<and> store_get T x = store_get S x"
proof (induction f S c and f S ls arbitrary: cs sz and cs sz rule: dag_dag_links.induct)
  case (1 s c)
  then show ?case by simp
next
  case (2 f S c)
  from 2(2) show ?case
  proof (rule dag_SucE)
    fix b m cs1 sz1
    assume *: "store_get S c = Inr b" "parse_block b = Inr m" "dag_links f S (mn_links m) = Some (Inr (cs1, sz1))"
      "cs = c # cs1"
    note V = get_valid_cid [OF 2(3) *(1)]
    have "c \<in> D" using 2(4) V(3,4) by metis
    then obtain b' m' where b': "store_get T c = Inr b'" "parse_block b' = Inr m'"
      "\<forall>l \<in> set (mn_links m'). \<forall>k. parse_cid (link_cid l) = Inr k \<longrightarrow> marshal_b32 k \<in> D"
      using assms(2) unfolding closed_def by blast
    have "\<not> clash b b'" using 2(5) *(1,4) b'(1) by auto
    then have "b = b'" using same_or_clash [OF V(1) get_valid_cid(1) [OF assms(1) b'(1)]] V(2)
        get_valid_cid(2) [OF assms(1) b'(1)] by simp
    then have "m = m'" using *(2) b'(2) by simp
    then have "\<forall>x \<in> set cs1. x \<in> D \<and> store_get T x = store_get S x"
      using 2(1) [OF *(1-3) 2(3)] b'(3) 2(5) *(4) by simp
    then show ?thesis using *(1,4) b'(1) \<open>b = b'\<close> \<open>c \<in> D\<close> by simp
  qed
next
  case (3 f s)
  then show ?case by simp
next
  case (4 f S l ls)
  from 4(3) show ?case
  proof (rule dag_links_ConsE)
    fix cs1 sz1 cs2 sz2
    assume *: "dag f S (link_cid l) = Some (Inr (cs1, sz1))" "dag_links f S ls = Some (Inr (cs2, sz2))" "cs = cs1 @ cs2"
    have "\<forall>x \<in> set cs1. x \<in> D \<and> store_get T x = store_get S x"
      by (rule 4(1) [OF *(1) 4(4)]) (use 4(5,6) *(3) in auto)
    moreover have "\<forall>x \<in> set cs2. x \<in> D \<and> store_get T x = store_get S x"
      by (rule 4(2) [OF *(1) refl refl *(2) 4(4)]) (use 4(5,6) *(3) in auto)
    ultimately show ?thesis using *(3) by auto
  qed
qed

text \<open>
  A download that has returned without an error: the announced blocks are in the store and parse, the
  blocks of the DAG are among them and as in the publisher's store.
\<close>

lemma download_agrees:
  assumes "start_download d root = Inr s0" and "dl_reachable as_asked s0 n s"
    and "dl_pending s = []" and "dl_error s = None" and "rows_inv (dm_store d)"
  shows "\<forall>k \<in> set (dl_announced s). \<exists>b. store_get (dm_store (dl_daemon s)) (marshal_b32 k) = Inr b"
    and "rows_inv S \<Longrightarrow> dag f S root = Some (Inr (cs, sz)) \<Longrightarrow>
      \<forall>x \<in> set cs. \<forall>b b'. store_get S x = Inr b \<and> store_get (dm_store (dl_daemon s)) x = Inr b' \<longrightarrow> \<not> clash b b' \<Longrightarrow>
      \<forall>x \<in> set cs. x \<in> marshal_b32 ` set (dl_announced s) \<and> store_get (dm_store (dl_daemon s)) x = store_get S x"
proof -
  let ?T = "dm_store (dl_daemon s)" and ?D = "marshal_b32 ` set (dl_announced s)"
  obtain D where "progress root s D" using reach_progress [OF assms(2,1)] assms(4) by blast
  then have D: "progress root s ?D" unfolding progress_def by blast
  note D1 = D [unfolded progress_def, THEN conjunct1, rule_format]
  show "\<forall>k \<in> set (dl_announced s). \<exists>b. store_get ?T (marshal_b32 k) = Inr b"
    using D unfolding progress_def by blast
  have "dl_daemon s0 = d" using assms(1) by (auto simp: start_download_def split: sum.splits)
  then have T: "rows_inv ?T" using reach_store [OF assms(2)] assms(5) by simp
  have closed: "closed ?T ?D"
    unfolding closed_def
  proof
    fix x assume x: "x \<in> ?D"
    then obtain b m where b: "store_get ?T x = Inr b" "parse_block b = Inr m" using D unfolding progress_def by blast
    have "marshal_b32 k \<in> ?D" if "l \<in> set (mn_links m)" "parse_cid (link_cid l) = Inr k" for l k
    proof -
      have "link_cid l \<in> set (dl_pending s) \<or> (\<forall>k. parse_cid (link_cid l) = Inr k \<longrightarrow> marshal_b32 k \<in> ?D)"
        by (rule D1) (use x b that(1) in blast)
      then show ?thesis using that(2) assms(3) by simp
    qed
    then show "\<exists>b m. store_get ?T x = Inr b \<and> parse_block b = Inr m \<and>
        (\<forall>l \<in> set (mn_links m). \<forall>k. parse_cid (link_cid l) = Inr k \<longrightarrow> marshal_b32 k \<in> ?D)"
      using b by blast
  qed
  have root: "\<forall>k. parse_cid root = Inr k \<longrightarrow> marshal_b32 k \<in> ?D" using D1 [of root] assms(3) by simp
  show "\<forall>x \<in> set cs. x \<in> ?D \<and> store_get ?T x = store_get S x"
    if "rows_inv S" "dag f S root = Some (Inr (cs, sz))"
      "\<forall>x \<in> set cs. \<forall>b b'. store_get S x = Inr b \<and> store_get ?T x = Inr b' \<longrightarrow> \<not> clash b b'"
    by (rule closed_agrees(1) [OF T closed that(2,1) root that(3)])
qed

subsection \<open>Uploads\<close>

lemma put_keys_prefix:
  "put_keys c w i cids = Some (e, ks) \<Longrightarrow> \<forall>x \<in> set cids. \<exists>y. x = cid_of y \<Longrightarrow>
     (\<forall>j < length ks. client_put_key c (wb_pick w (i + j)) (wb_put w (i + j)) (ks ! j) = Some None) \<and>
     (case e of
        None \<Rightarrow> cids = map marshal_b32 ks
      | Some err \<Rightarrow> (\<exists>k rest. cids = map marshal_b32 ks @ marshal_b32 k # rest \<and>
          client_put_key c (wb_pick w (i + length ks)) (wb_put w (i + length ks)) k = Some (Some err)))"
proof (induction cids arbitrary: i ks)
  case (Cons x cids)
  obtain y where y: "x = cid_of y" using Cons.prems(2) by auto
  obtain r where r: "client_put_key c (wb_pick w i) (wb_put w i) (mk_key (sha256 y)) = Some r"
    using Cons.prems(1) by (cases "client_put_key c (wb_pick w i) (wb_put w i) (mk_key (sha256 y))") (simp_all add: y parse_cid_of)
  show ?case
  proof (cases r)
    case None
    then obtain ks' where ks': "put_keys c w (Suc i) cids = Some (e, ks')" "ks = mk_key (sha256 y) # ks'"
      using Cons.prems(1) r by (auto simp: y parse_cid_of)
    have "client_put_key c (wb_pick w (i + j)) (wb_put w (i + j)) (ks ! j) = Some None" if "j < length ks" for j
      using Cons.IH [OF ks'(1)] Cons.prems(2) r None that ks'(2) by (cases j) auto
    then show ?thesis using Cons.IH [OF ks'(1)] Cons.prems(2) ks'(2) by (cases e) (auto simp: y parse_cid_of)
  next
    case (Some err)
    then have "e = Some err" "ks = []" using Cons.prems(1) r by (auto simp: y parse_cid_of)
    moreover have "x = marshal_b32 (mk_key (sha256 y))" by (simp add: y parse_cid_of)
    moreover have "client_put_key c (wb_pick w i) (wb_put w i) (mk_key (sha256 y)) = Some (Some err)" using r Some by simp
    ultimately have "\<exists>k. x = marshal_b32 k \<and> client_put_key c (wb_pick w i) (wb_put w i) k = Some (Some err)" by blast
    then show ?thesis using \<open>e = Some err\<close> \<open>ks = []\<close> by simp
  qed
qed simp

text \<open>A node that was found at a path is found again under its own identifier.\<close>

lemma resolved_again:
  "resolve s c parts = Inr n \<Longrightarrow> rows_inv s \<Longrightarrow> resolve s (node_cid n) [] = Inr n"
proof (induction parts arbitrary: c)
  case Nil
  then obtain b where b: "store_get s c = Inr b" "parse_block b = Inr n" by (auto simp: resolve.simps [of s c] split: sum.splits)
  have "mn_block n = b" using b(2) by (auto simp: parse_block_def split: option.splits)
  then have "node_cid n = c" using get_valid_cid(2) [OF Nil.prems(2) b(1)] by simp
  then show ?case using Nil.prems(1) by simp
next
  case (Cons p ps)
  then obtain c' where "resolve s c' ps = Inr n" by (auto simp: resolve.simps [of s c] split: sum.splits option.splits)
  then show ?case using Cons.IH Cons.prems(2) by blast
qed

lemma dag_cids_valid:
  "dag f s c = Some (Inr (cs, sz)) \<Longrightarrow> rows_inv s \<Longrightarrow> \<forall>x \<in> set cs. \<exists>b. store_get s x = Inr b \<and> x = cid_of (block_data b)"
  "dag_links f s ls = Some (Inr (cs, sz)) \<Longrightarrow> rows_inv s \<Longrightarrow> \<forall>x \<in> set cs. \<exists>b. store_get s x = Inr b \<and> x = cid_of (block_data b)"
proof (induction f s c and f s ls arbitrary: cs sz and cs sz rule: dag_dag_links.induct)
  case (2 f s c)
  from 2(2) show ?case
  proof (rule dag_SucE)
    fix b m cs1 sz1
    assume *: "store_get s c = Inr b" "parse_block b = Inr m" "dag_links f s (mn_links m) = Some (Inr (cs1, sz1))"
      "cs = c # cs1"
    have "c = cid_of (block_data b)" using get_valid_cid(1,2) [OF 2(3) *(1)] by (simp add: block_valid_def)
    then show ?thesis using 2(1) [OF *(1-3) 2(3)] *(1,4) by simp
  qed
next
  case (4 f s l ls)
  from 4(3) show ?case
  proof (rule dag_links_ConsE)
    fix cs1 sz1 cs2 sz2
    assume *: "dag f s (link_cid l) = Some (Inr (cs1, sz1))" "dag_links f s ls = Some (Inr (cs2, sz2))" "cs = cs1 @ cs2"
    then show ?thesis using 4(1) [OF *(1) 4(4)] 4(2) [OF *(1) refl refl *(2) 4(4)] by auto
  qed
qed simp_all

subsection \<open>Downloads from honest peers end\<close>

text \<open>What the publisher's store has is all that peers send.\<close>

definition from_source :: "store \<Rightarrow> key \<Rightarrow> web \<Rightarrow> bool" where
  "from_source S k w \<longleftrightarrow> (\<forall>b. sent w b \<longrightarrow> store_get S (marshal_b32 k) = Inr b)"

text \<open>The blocks that are still to come, counted along the links.\<close>

definition dag_list :: "store \<Rightarrow> cid \<Rightarrow> cid list \<Rightarrow> bool" where
  "dag_list S c cs \<longleftrightarrow> (\<exists>f sz. dag f S c = Some (Inr (cs, sz)))"

lemma dag_links_lists:
  "dag_links f S ls = Some (Inr (cs, sz)) \<Longrightarrow> \<exists>css. list_all2 (dag_list S) (map link_cid ls) css \<and> cs = concat css"
proof (induction ls arbitrary: cs sz)
  case (Cons l ls)
  from Cons.prems show ?case
  proof (rule dag_links_ConsE)
    fix cs1 sz1 cs2 sz2
    assume *: "dag f S (link_cid l) = Some (Inr (cs1, sz1))" "dag_links f S ls = Some (Inr (cs2, sz2))" "cs = cs1 @ cs2"
    obtain css where "list_all2 (dag_list S) (map link_cid ls) css" "cs2 = concat css" using Cons.IH [OF *(2)] by blast
    moreover have "dag_list S (link_cid l) cs1" using *(1) unfolding dag_list_def by blast
    ultimately show ?thesis using *(3) by (intro exI [of _ "cs1 # css"]) simp
  qed
qed simp

lemma dag_list_unfold:
  assumes "dag_list S c cs" and "store_get S c = Inr b" and "parse_block b = Inr m"
  shows "\<exists>css. list_all2 (dag_list S) (map link_cid (mn_links m)) css \<and> cs = c # concat css"
proof -
  obtain f sz where d: "dag f S c = Some (Inr (cs, sz))" using assms(1) unfolding dag_list_def by blast
  then obtain g where g: "f = Suc g" by (cases f) auto
  from d [unfolded g] show ?thesis
  proof (rule dag_SucE)
    fix b' m' cs1 sz1
    assume "store_get S c = Inr b'" "parse_block b' = Inr m'" "dag_links g S (mn_links m') = Some (Inr (cs1, sz1))" "cs = c # cs1"
    then show ?thesis using assms(2,3) dag_links_lists by auto
  qed
qed

lemma dag_list_valid: "dag_list S c cs \<Longrightarrow> rows_inv S \<Longrightarrow> \<exists>b. store_get S c = Inr b \<and> c = cid_of (block_data b)"
proof -
  assume d: "dag_list S c cs" "rows_inv S"
  then obtain f sz where "dag f S c = Some (Inr (cs, sz))" unfolding dag_list_def by blast
  then show ?thesis using dag_cids_valid(1) [OF _ d(2)] dag_root by blast
qed

end
