(* ===== verification/Daemon_Correct.thy ===== *)
theory Daemon_Correct
  imports Download
begin

text \<open>
  What the daemon promises, and what it does not: blocks it serves arrive as they are, uploads
  announce what reading needs, downloads keep the store's invariant whatever the peers answer and
  transfer a DAG completely if the peers answer with the blocks they are asked for.
\<close>

subsection \<open>Properties\<close>

text \<open>
  C8: whatever peers and the DHT answer, and in whatever order the goroutines run, a download keeps
  the store as it has to be: one valid block for an identifier, no identifier lost; the
  configuration stays as it is.
\<close>

theorem download_keeps_store:
  assumes "dl_reachable P s0 n s" and "rows_inv (dm_store (dl_daemon s0))"
  shows "rows_inv (dm_store (dl_daemon s)) \<and> dm_config (dl_daemon s) = dm_config (dl_daemon s0) \<and>
    (\<forall>c b. store_get (dm_store (dl_daemon s0)) c = Inr b \<longrightarrow>
      (\<exists>b'. store_get (dm_store (dl_daemon s)) c = Inr b' \<and> block_valid b' \<and> (b' = b \<or> clash b' b)))"
proof -
  note R = reach_store [OF assms]
  have "\<exists>b'. store_get (dm_store (dl_daemon s)) c = Inr b' \<and> block_valid b' \<and> (b' = b \<or> clash b' b)"
    if b: "store_get (dm_store (dl_daemon s0)) c = Inr b" for c b
  proof -
    obtain b' where b': "store_get (dm_store (dl_daemon s)) c = Inr b'" using R b by blast
    then show ?thesis
      using get_valid_cid(1,2) [OF assms(2) b] get_valid_cid(1,2) [of "dm_store (dl_daemon s)" c b'] R same_or_clash by metis
  qed
  then show ?thesis using R by blast
qed

definition sample_peer :: peer where
  "sample_peer = \<lparr>peer_ip = Addr4 6 6 6 6, peer_port = 6000, peer_asn = 0, peer_published = 0\<rparr>"

text \<open>A DHT that names one peer for every key, and what this peer sends.\<close>

definition one_peer :: "u8 list \<Rightarrow> web" where
  "one_peer body =
     \<lparr>wb_pick = (\<lambda>_. 0), wb_find = (\<lambda>_. Some (200, Some [sample_peer])), wb_block = (\<lambda>_. Some (200, body)),
      wb_put = (\<lambda>_ _. Some (200, ()))\<rparr>"

definition sample_daemon :: daemon where
  "sample_daemon = \<lparr>dm_config = default_daemon_config\<lparr>dc_public_ip := ''1.1.1.1''\<rparr>, dm_store = new_store\<rparr>"

lemma other_peers_one: "show_v4 6 6 6 6 \<noteq> ip \<Longrightarrow> other_peers [sample_peer] ip = [sample_peer]"
  by (auto simp: other_peers_def sample_peer_def)

text \<open>The peer sends a valid block, of whatever identifier.\<close>

lemma download_one_peer:
  assumes "st_open (dm_store d)" and "cc_nodes (dc_client (dm_config d)) \<noteq> []"
    and "dc_public_ip (dm_config d) \<noteq> show_v4 6 6 6 6" and "block_valid b" and "parse_block b = Inr m"
  shows "download d (one_peer (marshal (block_json b) @ [10])) k =
    Some (Inr (map link_cid (mn_links m)), d\<lparr>dm_store := snd (store_put (dm_store d) b)\<rparr>, [k])"
proof -
  obtain s where s: "store_put (dm_store d) b = (None, s)" using assms(1) by (simp add: store_put_def)
  have "decode_first decode_block (marshal (block_json b) @ [10]) = Some b"
    by (rule decode_served [OF valid_block_utf8 [OF assms(4)]])
  then show ?thesis using assms(2-5) s
    by (simp add: download_def client_find_peers_def client_put_key_def node_url_def check_status_def one_peer_def
        other_peers_one)
qed

lemma sample_daemon_ok:
  "st_open (dm_store sample_daemon)" "cc_nodes (dc_client (dm_config sample_daemon)) \<noteq> []"
  "dc_public_ip (dm_config sample_daemon) \<noteq> show_v4 6 6 6 6" "rows_inv (dm_store sample_daemon)"
  by (simp_all add: sample_daemon_def default_daemon_config_def default_client_config_def show_v4_def show_nat.simps digit_def char_of_def bit_iff_odd)

text \<open>A download of one block without links, from a peer that has it.\<close>

definition sample_node_block :: mnode where
  "sample_node_block = leaf (Some [9])"

definition sample_source :: store where
  "sample_source = snd (store_put new_store (mn_block sample_node_block))"

lemma sample_block:
  "block_valid (mn_block sample_node_block)" "parse_block (mn_block sample_node_block) = Inr sample_node_block"
  "mn_links sample_node_block = []"
  using genuine_leaf [of "Some [9]"] by (simp_all add: sample_node_block_def genuine_def block_valid_def)

lemma sample_source_ok:
  "rows_inv sample_source" "store_get sample_source (node_cid sample_node_block) = Inr (mn_block sample_node_block)"
  "dag 1 sample_source (node_cid sample_node_block) =
     Some (Inr ([node_cid sample_node_block], length (node_bytes sample_node_block)))"
proof -
  obtain s where s: "store_put new_store (mn_block sample_node_block) = (None, s)" by (simp add: store_put_def)
  show "rows_inv sample_source" using rows.inv_put [OF rows_inv_new sample_block(1) s] s by (simp add: sample_source_def)
  show g: "store_get sample_source (node_cid sample_node_block) = Inr (mn_block sample_node_block)"
    using rows.get_put [OF new_store_open s] s by (simp add: sample_source_def)
  then show "dag 1 sample_source (node_cid sample_node_block) =
     Some (Inr ([node_cid sample_node_block], length (node_bytes sample_node_block)))"
    using sample_block(2,3) by simp
qed

definition sample_web :: web where
  "sample_web = one_peer (marshal (block_json (mn_block sample_node_block)) @ [10])"

lemma sample_sent: "sent sample_web b \<Longrightarrow> b = mn_block sample_node_block"
  using decode_served [OF valid_block_utf8 [OF sample_block(1)]]
  by (auto simp: sent_def sample_web_def one_peer_def check_status_def)

lemma sample_run:
  "\<exists>s0 s. start_download sample_daemon (node_cid sample_node_block) = Inr s0 \<and>
     dl_reachable (\<lambda>k w. w = sample_web \<and> marshal_b32 k = node_cid sample_node_block) s0 1 s \<and> dl_pending s = [] \<and>
     dl_error s = None \<and> dl_announced s \<noteq> [] \<and> dl_daemon s0 = sample_daemon"
proof -
  let ?c = "node_cid sample_node_block" and ?k = "mk_key (sha256 (node_bytes sample_node_block))"
  have c: "?c = cid_of (node_bytes sample_node_block)" using sample_block(1) by (simp add: block_valid_def)
  then have k: "parse_cid ?c = Inr ?k" using parse_cid_of by metis
  let ?s0 = "\<lparr>dl_daemon = sample_daemon, dl_pending = [?c], dl_error = None, dl_announced = []\<rparr>"
  have d: "download sample_daemon sample_web ?k =
      Some (Inr [], sample_daemon\<lparr>dm_store := snd (store_put (dm_store sample_daemon) (mn_block sample_node_block))\<rparr>, [?k])"
    using download_one_peer [OF sample_daemon_ok(1-3) sample_block(1,2), of ?k] sample_block(3) by (simp add: sample_web_def)
  have r: "run_goroutine 0 sample_web ?s0 = Some
      \<lparr>dl_daemon = sample_daemon\<lparr>dm_store := snd (store_put (dm_store sample_daemon) (mn_block sample_node_block))\<rparr>,
       dl_pending = [], dl_error = None, dl_announced = [?k]\<rparr>"
    using k d by (simp add: run_goroutine_def)
  have "dl_reachable (\<lambda>k w. w = sample_web \<and> marshal_b32 k = ?c) ?s0 (Suc 0)
      \<lparr>dl_daemon = sample_daemon\<lparr>dm_store := snd (store_put (dm_store sample_daemon) (mn_block sample_node_block))\<rparr>,
       dl_pending = [], dl_error = None, dl_announced = [?k]\<rparr>"
    by (rule dl_reachable.Goroutine [OF dl_reachable.Start _ _ r]) (use k c in auto)
  then show ?thesis using k by (auto simp: start_download_def)
qed

lemma reachable_mono: "dl_reachable P s0 n s \<Longrightarrow> (\<And>k w. P k w \<Longrightarrow> Q k w) \<Longrightarrow> dl_reachable Q s0 n s"
  by (induction rule: dl_reachable.induct) (auto intro: dl_reachable.intros)

theorem download_keeps_store_witness:
  "\<exists>s0 s. dl_reachable (\<lambda>_ w. w = sample_web) s0 1 s \<and> rows_inv (dm_store (dl_daemon s))"
proof -
  obtain s0 s where s: "dl_reachable (\<lambda>k w. w = sample_web \<and> marshal_b32 k = node_cid sample_node_block) s0 1 s"
    "dl_daemon s0 = sample_daemon" using sample_run by (elim exE conjE)
  have r: "dl_reachable (\<lambda>_ w. w = sample_web) s0 1 s" by (rule reachable_mono [OF s(1)]) simp
  have "rows_inv (dm_store (dl_daemon s0))" unfolding s(2) by (rule sample_daemon_ok)
  from download_keeps_store [OF r this] have "rows_inv (dm_store (dl_daemon s))" by (rule conjunct1)
  then show ?thesis using r by blast
qed

text \<open>
  C7: a download is complete. If the peers send the blocks they are asked for, or fail, then a download
  of a DAG that has returned without an error leaves a store in which the root resolves and reads
  exactly as in the publisher's store, for every path below it, unless the two stores hold different
  contents with one SHA-256 digest; and the daemon holds every block it has announced.
\<close>

theorem download_complete:
  assumes "start_download d root = Inr s0" and "dl_reachable as_asked s0 n s"
    and "dl_pending s = []" and "dl_error s = None" and "rows_inv (dm_store d)"
    and "rows_inv S" and "dag f S root = Some (Inr (cs, sz))"
  shows "(\<forall>k \<in> set (dl_announced s). \<exists>b. store_get (dm_store (dl_daemon s)) (marshal_b32 k) = Inr b) \<and>
    ((\<exists>x \<in> set cs. \<exists>b b'. store_get S x = Inr b \<and> store_get (dm_store (dl_daemon s)) x = Inr b' \<and> clash b b') \<or>
     ((\<forall>x \<in> set cs. store_get (dm_store (dl_daemon s)) x = store_get S x) \<and>
      (\<forall>parts. resolve (dm_store (dl_daemon s)) root parts = resolve S root parts) \<and>
      (\<forall>m g. resolve S root [] = Inr m \<longrightarrow> read_bytes g (dm_store (dl_daemon s)) m = read_bytes g S m)))"
proof (cases "\<exists>x \<in> set cs. \<exists>b b'. store_get S x = Inr b \<and> store_get (dm_store (dl_daemon s)) x = Inr b' \<and> clash b b'")
  case True
  then show ?thesis using download_agrees(1) [OF assms(1-5)] by blast
next
  case False
  let ?T = "dm_store (dl_daemon s)"
  from False have "\<forall>x \<in> set cs. \<forall>b b'. store_get S x = Inr b \<and> store_get ?T x = Inr b' \<longrightarrow> \<not> clash b b'" by blast
  from download_agrees(2) [OF assms(1-7) this] have same: "\<forall>x \<in> set cs. store_get ?T x = store_get S x" by blast
  have "resolve ?T root parts = resolve S root parts" for parts by (rule dag_resolve [OF assms(7) same])
  moreover have "read_bytes g ?T m = read_bytes g S m" if "resolve S root [] = Inr m" for m g
    by (rule dag_read(1) [OF assms(7) same that])
  ultimately show ?thesis using same download_agrees(1) [OF assms(1-5)] by blast
qed

theorem download_complete_witness:
  "\<exists>s0 s. start_download sample_daemon (node_cid sample_node_block) = Inr s0 \<and> dl_reachable as_asked s0 1 s \<and>
     (\<forall>k \<in> set (dl_announced s). \<exists>b. store_get (dm_store (dl_daemon s)) (marshal_b32 k) = Inr b) \<and> dl_announced s \<noteq> []"
proof -
  obtain s0 s where s: "start_download sample_daemon (node_cid sample_node_block) = Inr s0"
    "dl_reachable (\<lambda>k w. w = sample_web \<and> marshal_b32 k = node_cid sample_node_block) s0 1 s" "dl_pending s = []"
    "dl_error s = None" "dl_announced s \<noteq> []" using sample_run by (elim exE conjE)
  have r: "dl_reachable as_asked s0 1 s"
    by (rule reachable_mono [OF s(2)]) (auto simp: as_asked_def dest: sample_sent)
  from download_complete [OF s(1) r s(3,4) sample_daemon_ok(4) sample_source_ok(1,3)] s(1,5) r
  show ?thesis by (intro exI conjI) simp_all
qed

text \<open>
  C38: a peer can send another block than the one it is asked for. The daemon checks only that a block
  fits its own identifier, so there is a block that a single peer can answer every request with: each
  download succeeds, the daemon announces the key it asked for although it stored another
  block, and goes on with the link of this block; the download never ends and never fails.
\<close>

theorem download_unasked:
  assumes "st_open (dm_store d)" and "cc_nodes (dc_client (dm_config d)) \<noteq> []"
    and "dc_public_ip (dm_config d) \<noteq> show_v4 6 6 6 6" and "start_download d root = Inr s0"
  shows "\<exists>w b. (\<forall>k. \<exists>c. download d w k = Some (Inr [c], d\<lparr>dm_store := snd (store_put (dm_store d) b)\<rparr>, [k])) \<and>
    (\<forall>n. \<exists>s. dl_reachable (\<lambda>_ w'. w' = w) s0 n s) \<and>
    (\<forall>n s. dl_reachable (\<lambda>_ w'. w' = w) s0 n s \<longrightarrow> dl_error s = None \<and> length (dl_pending s) = 1 \<and> length (dl_announced s) = n)"
proof -
  let ?c = "cid_of []"
  let ?m = "node_of \<lparr>at_links = Some [\<lparr>link_name = '''', link_cid = ?c\<rparr>], at_data = None\<rparr>"
  let ?b = "mn_block ?m"
  have g: "genuine ?m"
    by (rule genuine_node_of) (auto simp: links_valid_def intro: valid_utf8_plain plain_cid plain_names)
  then have b: "block_valid ?b" "parse_block ?b = Inr ?m" by (simp_all add: genuine_def block_valid_def)
  have links: "map link_cid (mn_links ?m) = [?c]" by (simp add: mn_links_def)
  let ?w = "one_peer (marshal (block_json ?b) @ [10])"
  have one: "download e ?w k = Some (Inr [?c], e\<lparr>dm_store := snd (store_put (dm_store e) ?b)\<rparr>, [k])"
    if "dm_config e = dm_config d" "st_open (dm_store e)" for e k
    using download_one_peer [of e, OF that(2) _ _ b, of k] that(1) assms(2,3) links by simp
  let ?ok = "\<lambda>n s. dm_config (dl_daemon s) = dm_config d \<and> st_open (dm_store (dl_daemon s)) \<and> dl_error s = None \<and>
      (\<exists>c k. dl_pending s = [c] \<and> parse_cid c = Inr k) \<and> length (dl_announced s) = n"
  have start: "?ok 0 s0" using assms(1,4) by (auto simp: start_download_def split: sum.splits)
  have step: "\<exists>s'. run_goroutine 0 ?w s = Some s' \<and> ?ok (Suc n) s'" if ok: "?ok n s" for n s
  proof -
    obtain c k where c: "dl_pending s = [c]" "parse_cid c = Inr k" using ok by blast
    have "st_open (snd (store_put (dm_store (dl_daemon s)) ?b))" using ok by (simp add: put_open)
    then show ?thesis using ok c one [of "dl_daemon s" k] parse_cid_of [of "[]"] by (simp add: run_goroutine_def)
  qed
  have inv: "?ok n s" if "dl_reachable (\<lambda>_ w'. w' = ?w) s0 n s" for n s
    using that
  proof induction
    case (Goroutine n s i w s')
    have "\<exists>k. parse_cid (dl_pending s ! i) = Inr k" "i = 0" using Goroutine.IH Goroutine(2) by auto
    then have "w = ?w" using Goroutine(3) by blast
    then show ?case using step [OF Goroutine.IH] Goroutine(4) \<open>i = 0\<close> by auto
  qed (rule start)
  have runs: "\<exists>s. dl_reachable (\<lambda>_ w'. w' = ?w) s0 n s" for n
  proof (induction n)
    case (Suc n)
    then obtain s where s: "dl_reachable (\<lambda>_ w'. w' = ?w) s0 n s" by blast
    obtain s' where "run_goroutine 0 ?w s = Some s'" using step [OF inv [OF s]] by blast
    moreover have "0 < length (dl_pending s)" using inv [OF s] by auto
    ultimately show ?case using dl_reachable.Goroutine [OF s] by blast
  qed (blast intro: dl_reachable.Start)
  have "\<forall>n s. dl_reachable (\<lambda>_ w'. w' = ?w) s0 n s \<longrightarrow> dl_error s = None \<and> length (dl_pending s) = 1 \<and> length (dl_announced s) = n"
    using inv by (metis One_nat_def length_Cons list.size(3))
  then show ?thesis using one [OF refl assms(1)] runs by blast
qed

theorem download_unasked_witness:
  "\<exists>w s0. start_download sample_daemon (cid_of [1]) = Inr s0 \<and> (\<forall>n. \<exists>s. dl_reachable (\<lambda>_ w'. w' = w) s0 n s)"
proof -
  obtain s0 where s0: "start_download sample_daemon (cid_of [1]) = Inr s0" by (simp add: start_download_def parse_cid_of)
  from download_unasked [OF sample_daemon_ok(1-3) s0] s0 show ?thesis by blast
qed

text \<open>A store with the blocks of the keys of a DAG has the node and its bytes.\<close>

lemma dag_enough:
  assumes "rows_inv s" and "resolve_path s path = Inr n" and "dag fuel s (node_cid n) = Some (Inr (map marshal_b32 ks, sz))"
  shows "\<forall>s'. (\<forall>k \<in> set ks. store_get s' (marshal_b32 k) = store_get s (marshal_b32 k)) \<longrightarrow>
    dag fuel s' (node_cid n) = dag fuel s (node_cid n) \<and> resolve s' (node_cid n) [] = Inr n \<and>
    (\<exists>out. read_bytes fuel s' n = Some out) \<and> (\<forall>f. read_bytes f s' n = read_bytes f s n)"
proof (intro allI impI)
  fix s' assume "\<forall>k \<in> set ks. store_get s' (marshal_b32 k) = store_get s (marshal_b32 k)"
  then have same: "\<forall>c \<in> set (map marshal_b32 ks). store_get s' c = store_get s c" by simp
  obtain c parts where "resolve s c parts = Inr n" using assms(2) by (auto simp: resolve_path_def split: list.splits)
  then have again: "resolve s (node_cid n) [] = Inr n" using resolved_again assms(1) by blast
  show "dag fuel s' (node_cid n) = dag fuel s (node_cid n) \<and> resolve s' (node_cid n) [] = Inr n \<and>
      (\<exists>out. read_bytes fuel s' n = Some out) \<and> (\<forall>f. read_bytes f s' n = read_bytes f s n)"
    using dag_agrees(1) [OF assms(3) same] dag_resolve [OF assms(3) same, of "[]"] dag_read(1) [OF assms(3) same again]
      dag_read_ends(1) [OF assms(3) again] assms(3) again by simp
qed

text \<open>
  C29: an upload announces what a download needs. The keys are put one after the other, those of the
  blocks that the DAG of the node at the path lists, in its order, each of which the store holds.
  Without an error all of them were put, their number is returned, and the node and its bytes can be
  read from any store that has the blocks of these keys. An error is one of the path, of the DAG of
  this node, or of the first key that could not be put, before which all others were.
\<close>

theorem upload_announces:
  assumes "rows_inv (dm_store d)" and "daemon_upload fuel d w path = Some (Some (r, ks))"
  shows "(\<forall>k \<in> set ks. \<exists>b. store_get (dm_store d) (marshal_b32 k) = Inr b) \<and>
    (\<forall>j < length ks. client_put_key (dc_client (dm_config d)) (wb_pick w j) (wb_put w j) (ks ! j) = Some None) \<and>
    (case r of
       Inl e \<Rightarrow>
         ks = [] \<and> (resolve_path (dm_store d) path = Inl e \<or>
           (\<exists>n. resolve_path (dm_store d) path = Inr n \<and> dag fuel (dm_store d) (node_cid n) = Some (Inl e))) \<or>
         (\<exists>n k rest sz. resolve_path (dm_store d) path = Inr n \<and>
            dag fuel (dm_store d) (node_cid n) = Some (Inr (map marshal_b32 ks @ marshal_b32 k # rest, sz)) \<and>
            client_put_key (dc_client (dm_config d)) (wb_pick w (length ks)) (wb_put w (length ks)) k = Some (Some e))
     | Inr cnt \<Rightarrow> cnt = length ks \<and>
         (\<exists>n sz. resolve_path (dm_store d) path = Inr n \<and>
            dag fuel (dm_store d) (node_cid n) = Some (Inr (map marshal_b32 ks, sz)) \<and>
            (\<forall>s'. (\<forall>k \<in> set ks. store_get s' (marshal_b32 k) = store_get (dm_store d) (marshal_b32 k)) \<longrightarrow>
               dag fuel s' (node_cid n) = dag fuel (dm_store d) (node_cid n) \<and> resolve s' (node_cid n) [] = Inr n \<and>
               (\<exists>out. read_bytes fuel s' n = Some out) \<and> (\<forall>f. read_bytes f s' n = read_bytes f (dm_store d) n))))"
proof -
  let ?s = "dm_store d"
  show ?thesis
  proof (cases "resolve_path ?s path")
    case (Inl e)
    then show ?thesis using assms(2) by (auto simp: daemon_upload_def)
  next
    case n: (Inr n)
    obtain x where x: "dag fuel ?s (node_cid n) = Some x"
      using assms(2) n by (cases "dag fuel ?s (node_cid n)") (simp_all add: daemon_upload_def)
    show ?thesis
    proof (cases x)
      case (Inl e)
      then show ?thesis using assms(2) n x by (auto simp: daemon_upload_def)
    next
      case (Inr y)
      obtain cs sz where y: "y = (cs, sz)" by fastforce
      note x = x [unfolded Inr y]
      have valid: "\<forall>x \<in> set cs. \<exists>b. store_get ?s x = Inr b \<and> x = cid_of (block_data b)" by (rule dag_cids_valid(1) [OF x assms(1)])
      obtain e where e: "put_keys (dc_client (dm_config d)) w 0 cs = Some (e, ks)" "r = (case e of None \<Rightarrow> Inr (length cs) | Some e \<Rightarrow> Inl e)"
        using assms(2) n x by (auto simp: daemon_upload_def split: option.splits)
      have "\<forall>x \<in> set cs. \<exists>y. x = cid_of y" using valid by blast
      note P = put_keys_prefix [OF e(1) this, unfolded add_0]
      show ?thesis
      proof (cases e)
        case None
        then have cs: "cs = map marshal_b32 ks" using P by simp
        have held: "\<forall>k \<in> set ks. \<exists>b. store_get ?s (marshal_b32 k) = Inr b" using valid cs by auto
        note all = dag_enough [OF assms(1) n x [unfolded cs]]
        have r: "r = Inr (length ks)" using None e(2) cs by simp
        have "\<exists>n' sz. resolve_path ?s path = Inr n' \<and> dag fuel ?s (node_cid n') = Some (Inr (map marshal_b32 ks, sz)) \<and>
            (\<forall>s'. (\<forall>k \<in> set ks. store_get s' (marshal_b32 k) = store_get ?s (marshal_b32 k)) \<longrightarrow>
               dag fuel s' (node_cid n') = dag fuel ?s (node_cid n') \<and> resolve s' (node_cid n') [] = Inr n' \<and>
               (\<exists>out. read_bytes fuel s' n' = Some out) \<and> (\<forall>f. read_bytes f s' n' = read_bytes f ?s n'))"
          using n x [unfolded cs] all by blast
        note ex = this
        show ?thesis unfolding r sum.case by (intro conjI held P [THEN conjunct1] refl ex)
      next
        case (Some err)
        then obtain k rest where k: "cs = map marshal_b32 ks @ marshal_b32 k # rest"
          "client_put_key (dc_client (dm_config d)) (wb_pick w (length ks)) (wb_put w (length ks)) k = Some (Some err)"
          using P by auto
        moreover from this have "\<forall>k \<in> set ks. \<exists>b. store_get ?s (marshal_b32 k) = Inr b" using valid by auto
        ultimately show ?thesis using P Some e(2) x [unfolded k(1)] n by auto
      qed
    qed
  qed
qed

theorem upload_announces_witness:
  "\<exists>ks. daemon_upload 1 (sample_daemon\<lparr>dm_store := sample_source\<rparr>) sample_web (node_cid sample_node_block) = Some (Some (Inr 1, ks)) \<and>
     (\<forall>k \<in> set ks. \<exists>b. store_get sample_source (marshal_b32 k) = Inr b)"
proof -
  let ?d = "sample_daemon\<lparr>dm_store := sample_source\<rparr>" and ?c = "node_cid sample_node_block"
  have c: "?c = cid_of (node_bytes sample_node_block)" using sample_block(1) by (simp add: block_valid_def)
  have "resolve sample_source ?c [] = Inr sample_node_block"
    using sample_source_ok(2) sample_block(2) by (simp add: resolve.simps [of _ ?c])
  then have r: "resolve_path sample_source ?c = Inr sample_node_block"
    using resolve_path_text [of "[]" sample_source "node_bytes sample_node_block"] c by (simp add: path_text_def)
  have "cc_nodes (dc_client (dm_config ?d)) \<noteq> []" using sample_daemon_ok(2) by simp
  then have "put_keys (dc_client (dm_config ?d)) sample_web 0 [?c] = Some (None, [mk_key (sha256 (node_bytes sample_node_block))])"
    using parse_cid_of [of "node_bytes sample_node_block"] c
    by (simp add: client_put_key_def node_url_def check_status_def sample_web_def one_peer_def)
  then have u: "daemon_upload 1 ?d sample_web ?c = Some (Some (Inr 1, [mk_key (sha256 (node_bytes sample_node_block))]))"
    using r sample_source_ok(3) by (simp add: daemon_upload_def del: dag.simps)
  have "rows_inv (dm_store ?d)" using sample_source_ok(1) by simp
  from upload_announces [OF this u] u show ?thesis by auto
qed

text \<open>
  A block that is served arrives. The public route answers 200 exactly for the identifiers the store
  has, and what the download of another daemon decodes from the body is the block itself; it is valid.
\<close>

theorem block_served:
  assumes "rows_inv (dm_store d)"
  shows "case store_get (dm_store d) c of
      Inl e \<Rightarrow> block_route d c = (500, [])
    | Inr b \<Rightarrow> fst (block_route d c) = 200 \<and> decode_first decode_block (snd (block_route d c)) = Some b \<and>
        block_valid b \<and> block_cid b = c"
proof (cases "store_get (dm_store d) c")
  case (Inr b)
  note V = get_valid_cid(1,2) [OF assms Inr]
  show ?thesis using Inr V decode_served [OF valid_block_utf8 [OF V(1)]] by (simp add: block_route_def)
qed (simp add: block_route_def)

theorem block_served_witness:
  "decode_first decode_block (snd (block_route (sample_daemon\<lparr>dm_store := sample_source\<rparr>) (node_cid sample_node_block))) =
     Some (mn_block sample_node_block)"
proof -
  have "rows_inv (dm_store (sample_daemon\<lparr>dm_store := sample_source\<rparr>))" using sample_source_ok(1) by simp
  from block_served [OF this, of "node_cid sample_node_block"] show ?thesis using sample_source_ok(2) by simp
qed

text \<open>
  Only one entry of the daemon itself is left out. If the DHT names the daemon's own address twice
  before any other peer, as it does after the daemon has put a key twice, then the
  daemon asks itself for the block; it does not have it, and the download fails although another
  peer does.
\<close>

theorem download_asks_itself:
  assumes "client_find_peers (dc_client (dm_config d)) (wb_pick w 0) (wb_find w) k = Some (Inr (p # q # ps))"
    and "show_addr (peer_ip p) = dc_public_ip (dm_config d)" and "peer_ip q = peer_ip p"
    and "store_get (dm_store d) (marshal_b32 k) = Inl StoreFailed"
    and "wb_block w (block_url q k) = Some (block_route d (marshal_b32 k))"
  shows "block_url q k = ''https://'' @ host_port (dc_public_ip (dm_config d)) (peer_port q) @ ''/block/'' @ marshal_b32 k \<and>
    download d w k = Some (Inl (BadCode 500), d, [])"
  using assms by (simp add: download_def other_peers_def check_status_def block_route_def block_url_def)

theorem download_asks_itself_witness:
  "\<exists>w. download sample_daemon w zero_key = Some (Inl (BadCode 500), sample_daemon, [])"
proof -
  let ?p = "\<lparr>peer_ip = Addr4 1 1 1 1, peer_port = 6000, peer_asn = 0, peer_published = 0\<rparr>"
  let ?w = "\<lparr>wb_pick = (\<lambda>_. 0), wb_find = (\<lambda>_. Some (200, Some [?p, ?p\<lparr>peer_published := 1\<rparr>, sample_peer])),
      wb_block = (\<lambda>url. Some (block_route sample_daemon (marshal_b32 zero_key))), wb_put = (\<lambda>_ _. Some (200, ()))\<rparr>"
  have f: "client_find_peers (dc_client (dm_config sample_daemon)) (wb_pick ?w 0) (wb_find ?w) zero_key =
      Some (Inr (?p # ?p\<lparr>peer_published := 1\<rparr> # [sample_peer]))"
    using sample_daemon_ok(2) by (simp add: client_find_peers_def node_url_def check_status_def)
  have ip: "show_addr (peer_ip ?p) = dc_public_ip (dm_config sample_daemon)"
    by (simp add: sample_daemon_def show_v4_def show_nat.simps digit_def char_of_def bit_iff_odd)
  have "store_get (dm_store sample_daemon) (marshal_b32 zero_key) = Inl StoreFailed"
    by (simp add: sample_daemon_def new_store_def open_store_def store_get_def)
  from download_asks_itself [OF f ip _ this] show ?thesis by auto
qed

end
