(* ===== verification/Goroutines.thy ===== *)
theory Goroutines
  imports Download "HOL-Library.Multiset"
begin

text \<open>
  The goroutines of a download, interleaved (\<^verbatim>\<open>Download\<close> and \<^verbatim>\<open>download\<close> in \<^verbatim>\<open>daemon.go\<close>).  Each goroutine
  stands at one of the places of \<^verbatim>\<open>download\<close> where it touches what others see: the semaphore, the
  network, the store, the error group.  One step takes one goroutine to its next place, and the
  steps of different goroutines interleave freely.

  The answers that a goroutine gets from the network are chosen when it starts.  They are
  arbitrary, so this rules no run out.
\<close>

subsection \<open>States and steps\<close>

datatype phase =
    Spawned cid web                        \<comment> \<open>started, with the identifier of its link\<close>
  | Waiting cid key web                    \<comment> \<open>before \<^verbatim>\<open>d.sem <- struct{}{}\<close>\<close>
  | Finding cid key web                    \<comment> \<open>before \<^verbatim>\<open>d.dht.FindPeers\<close>\<close>
  | Fetching cid key web peer              \<comment> \<open>before \<^verbatim>\<open>d.http.Get\<close>\<close>
  | Storing cid key web block mnode        \<comment> \<open>before \<^verbatim>\<open>d.store.Put\<close>\<close>
  | Announcing key web mnode               \<comment> \<open>before \<^verbatim>\<open>d.dht.PutKey\<close>\<close>
  | Starting "link list"                   \<comment> \<open>in the loop over the links\<close>
  | Returning "error option"               \<comment> \<open>before the deferred \<^verbatim>\<open><-d.sem\<close>\<close>
  | Reporting "error option"               \<comment> \<open>back in the error group\<close>

record go_state =
  go_daemon :: daemon
  go_running :: "phase list"
  go_held :: nat                           \<comment> \<open>tokens in the channel \<^verbatim>\<open>d.sem\<close>\<close>
  go_error :: "error option"
  go_announced :: "key list"

definition sem_size :: nat where
  "sem_size = 5000"

text \<open>
  The first goroutine gets the key parsed; parsing the identifier again gives the same key.  The
  semaphore counts the goroutines of this download; the daemon's is shared with its other downloads.
\<close>

definition go_start :: "daemon \<Rightarrow> cid \<Rightarrow> web \<Rightarrow> error + go_state" where
  "go_start d c w =
     (case parse_cid c of
        Inl e \<Rightarrow> Inl e
      | Inr k \<Rightarrow> Inr \<lparr>go_daemon = d, go_running = [Waiting c k w], go_held = 0, go_error = None, go_announced = []\<rparr>)"

datatype outcome = Blocked | Panics | Next go_state

definition move :: "nat \<Rightarrow> phase \<Rightarrow> go_state \<Rightarrow> go_state" where
  "move i p s = s\<lparr>go_running := (go_running s)[i := p]\<rparr>"

text \<open>What is left of the answer of a peer: a valid block that is a node, or an error.\<close>

definition read_answer :: "u8 list reply \<Rightarrow> error + block \<times> mnode" where
  "read_answer r =
     (case check_status r of
        Inl e \<Rightarrow> Inl e
      | Inr body \<Rightarrow>
     (case decode_first decode_block body of
        None \<Rightarrow> Inl BadEncoding
      | Some b \<Rightarrow>
          if \<not> block_valid b then Inl InvalidBlock
          else (case parse_block b of Inl e \<Rightarrow> Inl e | Inr m \<Rightarrow> Inr (b, m))))"

text \<open>The goroutine \<open>i\<close> makes a step; if it starts another one, that one gets the answers \<open>w'\<close>.\<close>

definition go_step :: "nat \<Rightarrow> web \<Rightarrow> nat \<Rightarrow> go_state \<Rightarrow> outcome" where
  "go_step cap w' i s =
     (let c = dc_client (dm_config (go_daemon s)) in
      case go_running s ! i of
        Spawned cd w \<Rightarrow>
          Next (move i (case parse_cid cd of Inl e \<Rightarrow> Reporting (Some e) | Inr k \<Rightarrow> Waiting cd k w) s)
      | Waiting cd k w \<Rightarrow>
          if go_held s < cap then Next (move i (Finding cd k w) s\<lparr>go_held := go_held s + 1\<rparr>) else Blocked
      | Finding cd k w \<Rightarrow>
          (case client_find_peers c (wb_pick w 0) (wb_find w) k of
             None \<Rightarrow> Panics
           | Some (Inl e) \<Rightarrow> Next (move i (Returning (Some e)) s)
           | Some (Inr found) \<Rightarrow>
               (case other_peers found (dc_public_ip (dm_config (go_daemon s))) of
                  [] \<Rightarrow> Next (move i (Returning (Some NoPeers)) s)
                | p # _ \<Rightarrow> Next (move i (Fetching cd k w p) s)))
      | Fetching cd k w p \<Rightarrow>
          Next (move i (case read_answer (wb_block w (block_url p k)) of
                          Inl e \<Rightarrow> Returning (Some e)
                        | Inr (b, m) \<Rightarrow> Storing cd k w b m) s)
      | Storing cd k w b m \<Rightarrow>
          (case store_put (dm_store (go_daemon s)) b of
             (e, st) \<Rightarrow>
               Next (move i (case e of Some e \<Rightarrow> Returning (Some e) | None \<Rightarrow> Announcing k w m) s
                       \<lparr>go_daemon := (go_daemon s)\<lparr>dm_store := st\<rparr>\<rparr>))
      | Announcing k w m \<Rightarrow>
          (case client_put_key c (wb_pick w 1) (wb_put w 0) k of
             None \<Rightarrow> Panics
           | Some (Some e) \<Rightarrow> Next (move i (Returning (Some e)) s)
           | Some None \<Rightarrow> Next (move i (Starting (mn_links m)) s\<lparr>go_announced := go_announced s @ [k]\<rparr>))
      | Starting [] \<Rightarrow> Next (move i (Returning None) s)
      | Starting (l # ls) \<Rightarrow>
          Next (s\<lparr>go_running := (go_running s)[i := Starting ls] @ [Spawned (link_cid l) w']\<rparr>)
      | Returning e \<Rightarrow> Next (move i (Reporting e) s\<lparr>go_held := go_held s - 1\<rparr>)
      | Reporting e \<Rightarrow>
          Next (s\<lparr>go_running := take i (go_running s) @ drop (Suc i) (go_running s),
                  go_error := (case e of None \<Rightarrow> go_error s | Some e \<Rightarrow> first_error (go_error s) e)\<rparr>))"

text \<open>The identifier of the goroutine that a step starts.\<close>

fun starts :: "phase \<Rightarrow> cid option" where
  "starts (Starting (l # ls)) = Some (link_cid l)"
| "starts _ = None"

text \<open>The states after \<open>n\<close> steps, for answers of which \<open>P\<close> holds as in \<^const>\<open>dl_reachable\<close>.\<close>

inductive go_reachable :: "(key \<Rightarrow> web \<Rightarrow> bool) \<Rightarrow> nat \<Rightarrow> go_state \<Rightarrow> nat \<Rightarrow> go_state \<Rightarrow> bool" for P cap s0 where
  Start: "go_reachable P cap s0 0 s0"
| Step:
    "\<lbrakk>go_reachable P cap s0 n s; i < length (go_running s);
      \<forall>c k. starts (go_running s ! i) = Some c \<longrightarrow> parse_cid c = Inr k \<longrightarrow> P k w;
      go_step cap w i s = Next s'\<rbrakk> \<Longrightarrow>
     go_reachable P cap s0 (Suc n) s'"

subsection \<open>Downloads as atomic steps\<close>

text \<open>
  A step relation with one atomic step for a goroutine is \<^const>\<open>dl_reachable\<close>.  A goroutine counts as run
  there from the moment its block is in the store, or it has failed before.  What it owes then are
  the links it goes on with; until it has announced its key, it has promised it.
\<close>

definition will_put :: "daemon_config \<Rightarrow> web \<Rightarrow> key \<Rightarrow> error option option" where
  "will_put cfg w k = client_put_key (dc_client cfg) (wb_pick w 1) (wb_put w 0) k"

definition found_peer :: "daemon_config \<Rightarrow> web \<Rightarrow> key \<Rightarrow> peer \<Rightarrow> bool" where
  "found_peer cfg w k p \<longleftrightarrow> (\<exists>found qs. client_find_peers (dc_client cfg) (wb_pick w 0) (wb_find w) k = Some (Inr found) \<and>
     other_peers found (dc_public_ip cfg) = p # qs)"

fun owed :: "daemon_config \<Rightarrow> phase \<Rightarrow> cid list" where
  "owed cfg (Spawned c w) = [c]"
| "owed cfg (Waiting c k w) = [c]"
| "owed cfg (Finding c k w) = [c]"
| "owed cfg (Fetching c k w p) = [c]"
| "owed cfg (Storing c k w b m) = [c]"
| "owed cfg (Announcing k w m) = (if will_put cfg w k = Some None then map link_cid (mn_links m) else [])"
| "owed cfg (Starting ls) = map link_cid ls"
| "owed cfg _ = []"

fun promised :: "daemon_config \<Rightarrow> phase \<Rightarrow> key list" where
  "promised cfg (Announcing k w m) = (if will_put cfg w k = Some None then [k] else [])"
| "promised cfg _ = []"

fun failing :: "daemon_config \<Rightarrow> phase \<Rightarrow> bool" where
  "failing cfg (Announcing k w m) = (will_put cfg w k \<noteq> Some None)"
| "failing cfg (Returning e) = (e \<noteq> None)"
| "failing cfg (Reporting e) = (e \<noteq> None)"
| "failing cfg _ = False"

fun phase_ok :: "(key \<Rightarrow> web \<Rightarrow> bool) \<Rightarrow> daemon_config \<Rightarrow> phase \<Rightarrow> bool" where
  "phase_ok P cfg (Spawned c w) = (\<forall>k. parse_cid c = Inr k \<longrightarrow> P k w)"
| "phase_ok P cfg (Waiting c k w) = (parse_cid c = Inr k \<and> P k w)"
| "phase_ok P cfg (Finding c k w) = (parse_cid c = Inr k \<and> P k w)"
| "phase_ok P cfg (Fetching c k w p) = (parse_cid c = Inr k \<and> P k w \<and> found_peer cfg w k p)"
| "phase_ok P cfg (Storing c k w b m) =
     (parse_cid c = Inr k \<and> P k w \<and> (\<exists>p. found_peer cfg w k p \<and> read_answer (wb_block w (block_url p k)) = Inr (b, m)))"
| "phase_ok P cfg (Announcing k w m) = (will_put cfg w k \<noteq> None)"
| "phase_ok P cfg _ = True"

definition related :: "(key \<Rightarrow> web \<Rightarrow> bool) \<Rightarrow> go_state \<Rightarrow> dl \<Rightarrow> bool" where
  "related P s t \<longleftrightarrow>
     (let cfg = dm_config (go_daemon s); ps = go_running s in
      dl_daemon t = go_daemon s \<and>
      mset (dl_pending t) = (\<Sum>p \<in># mset ps. mset (owed cfg p)) \<and>
      mset (dl_announced t) = mset (go_announced s) + (\<Sum>p \<in># mset ps. mset (promised cfg p)) \<and>
      (dl_error t = None \<longleftrightarrow> go_error s = None \<and> (\<forall>p \<in> set ps. \<not> failing cfg p)) \<and>
      (\<forall>p \<in> set ps. phase_ok P cfg p))"

text \<open>One atomic step, with the pending goroutines as a multiset.\<close>

lemma mset_without: "j < length xs \<Longrightarrow> mset (take j xs @ drop (Suc j) xs) = mset xs - {#xs ! j#}"
proof -
  assume "j < length xs"
  from id_take_nth_drop [OF this] have "mset xs = mset (take j xs @ xs ! j # drop (Suc j) xs)" by (rule arg_cong)
  then show ?thesis by simp
qed

lemma pending_index:
  assumes "c \<in># mset xs"
  obtains j where "j < length xs" "xs ! j = c" "mset (take j xs @ drop (Suc j) xs) = mset xs - {#c#}"
  using assms mset_without by (metis in_set_conv_nth set_mset_mset)

lemma first_error_Some: "first_error old e \<noteq> None"
  by (simp add: first_error_def split: option.split)

lemma run_pending:
  assumes "dl_reachable P t0 n t" and "c \<in># mset (dl_pending t)" and "parse_cid c = Inr k" and "P k w"
    and "download (dl_daemon t) w k = Some (r, d', ks)"
  shows "\<exists>t'. dl_reachable P t0 (Suc n) t' \<and> dl_daemon t' = d' \<and>
    mset (dl_pending t') = mset (dl_pending t) - {#c#} + mset (case r of Inl e \<Rightarrow> [] | Inr cs \<Rightarrow> cs) \<and>
    mset (dl_announced t') = mset (dl_announced t) + mset ks \<and>
    (dl_error t' = None \<longleftrightarrow> dl_error t = None \<and> (\<exists>cs. r = Inr cs))"
proof -
  obtain j where j: "j < length (dl_pending t)" "dl_pending t ! j = c"
    "mset (take j (dl_pending t) @ drop (Suc j) (dl_pending t)) = mset (dl_pending t) - {#c#}"
    using pending_index [OF assms(2)] .
  obtain t' where t': "run_goroutine j w t = Some t'" "dl_daemon t' = d'"
    "dl_pending t' = take j (dl_pending t) @ drop (Suc j) (dl_pending t) @ (case r of Inl e \<Rightarrow> [] | Inr cs \<Rightarrow> cs)"
    "dl_announced t' = dl_announced t @ ks" "dl_error t' = None \<longleftrightarrow> dl_error t = None \<and> (\<exists>cs. r = Inr cs)"
    using assms(3,5) j(2) first_error_Some by (cases r) (auto simp: run_goroutine_def Let_def)
  have "dl_reachable P t0 (Suc n) t'"
    by (rule dl_reachable.Goroutine [OF assms(1) j(1) _ t'(1)]) (use assms(3,4) j(2) in auto)
  then show ?thesis using t' j(3) by (intro exI [of _ t']) (simp add: union_assoc [symmetric])
qed

lemma run_unparsable:
  assumes "dl_reachable P t0 n t" and "c \<in># mset (dl_pending t)" and "parse_cid c = Inl e"
  shows "\<exists>t'. dl_reachable P t0 (Suc n) t' \<and> dl_daemon t' = dl_daemon t \<and>
    mset (dl_pending t') = mset (dl_pending t) - {#c#} \<and> dl_announced t' = dl_announced t \<and> dl_error t' \<noteq> None"
proof -
  obtain j where j: "j < length (dl_pending t)" "dl_pending t ! j = c"
    "mset (take j (dl_pending t) @ drop (Suc j) (dl_pending t)) = mset (dl_pending t) - {#c#}"
    using pending_index [OF assms(2)] .
  obtain t' where t': "run_goroutine j undefined t = Some t'" "dl_daemon t' = dl_daemon t"
    "dl_pending t' = take j (dl_pending t) @ drop (Suc j) (dl_pending t)"
    "dl_announced t' = dl_announced t" "dl_error t' \<noteq> None"
    using assms(3) j(2) first_error_Some by (auto simp: run_goroutine_def Let_def)
  have "dl_reachable P t0 (Suc n) t'"
    by (rule dl_reachable.Goroutine [OF assms(1) j(1) _ t'(1)]) (use assms(3) j(2) in auto)
  then show ?thesis using t' j(3) by auto
qed

text \<open>A download, by the places where it stops.\<close>

lemma download_at:
  assumes "found_peer (dm_config d) w k p"
  shows "download d w k =
    (case read_answer (wb_block w (block_url p k)) of
       Inl e \<Rightarrow> Some (Inl e, d, [])
     | Inr (b, m) \<Rightarrow>
    (case store_put (dm_store d) b of
       (Some e, s) \<Rightarrow> Some (Inl e, d\<lparr>dm_store := s\<rparr>, [])
     | (None, s) \<Rightarrow>
    (case will_put (dm_config d) w k of
       None \<Rightarrow> None
     | Some (Some e) \<Rightarrow> Some (Inl e, d\<lparr>dm_store := s\<rparr>, [])
     | Some None \<Rightarrow> Some (Inr (map link_cid (mn_links m)), d\<lparr>dm_store := s\<rparr>, [k]))))"
  using assms unfolding will_put_def
  by (auto simp: found_peer_def download_def read_answer_def split: sum.split option.split)

lemma found_puts: "found_peer cfg w k p \<Longrightarrow> will_put cfg w' k' \<noteq> None"
  by (auto simp: found_peer_def client_find_peers_def will_put_def client_put_key_def node_url_def split: option.splits if_splits)


subsection \<open>The simulation\<close>

text \<open>A step replaces one goroutine, or takes it away, or starts another.\<close>

lemma related_change:
  assumes "related P s t" and "mset (go_running s) = add_mset p R" and "mset (go_running s') = mset ps' + R"
    and "dl_daemon t' = go_daemon s'" and "dm_config (go_daemon s') = dm_config (go_daemon s)"
    and "cfg = dm_config (go_daemon s)"
    and "mset (dl_pending t') + mset (owed cfg p) = mset (dl_pending t) + (\<Sum>q \<in># mset ps'. mset (owed cfg q))"
    and "mset (dl_announced t') + mset (go_announced s) + mset (promised cfg p) =
      mset (dl_announced t) + mset (go_announced s') + (\<Sum>q \<in># mset ps'. mset (promised cfg q))"
    and "dl_error t' = None \<longleftrightarrow> dl_error t = None \<and> good"
    and "go_error s' = None \<and> (\<forall>q \<in> set ps'. \<not> failing cfg q) \<longleftrightarrow> go_error s = None \<and> \<not> failing cfg p \<and> good"
    and "\<forall>q \<in> set ps'. phase_ok P cfg q"
  shows "related P s' t'"
proof -
  have S: "set (go_running s) = insert p (set_mset R)" "set (go_running s') = set ps' \<union> set_mset R"
    using assms(2,3) by (metis set_mset_add_mset_insert set_mset_mset, metis set_mset_mset set_mset_union)
  show ?thesis
    using assms(1,4-11) unfolding related_def Let_def assms(2,3) S
    by (auto simp: ac_simps)
qed

text \<open>Steps that change nothing the atomic step relation sees.\<close>

lemma related_silent:
  assumes "related P s t" and "dl_reachable P t0 n t" and "i < length (go_running s)" and "p = go_running s ! i" and "cfg = dm_config (go_daemon s)"
    and "go_running s' = (go_running s)[i := q]" and "go_daemon s' = go_daemon s"
    and "mset (go_announced s') + mset (promised cfg q) = mset (go_announced s) + mset (promised cfg p)"
    and "go_error s' = go_error s" and "owed cfg q = owed cfg p"
    and "failing cfg q = failing cfg p" and "phase_ok P cfg q"
  shows "\<exists>n t. dl_reachable P t0 n t \<and> related P s' t"
proof -
  have "related P s' t"
  proof (rule related_change [where p = p and ps' = "[q]" and R = "mset (go_running s) - {#p#}" and good = True and cfg = cfg])
    show "mset (go_running s) = add_mset p (mset (go_running s) - {#p#})" using assms(3,4) by simp
    show "mset (go_running s') = mset [q] + (mset (go_running s) - {#p#})"
      using assms(3,4,6) by (simp add: mset_update)
    show "dl_daemon t = go_daemon s'" using assms(1,7) by (simp add: related_def Let_def)
  qed (use assms in \<open>simp_all add: ac_simps\<close>)
  then show ?thesis using assms(2) by blast
qed

text \<open>Steps at which the atomic step of the goroutine is made.\<close>

lemma related_run:
  assumes "related P s t" and "dl_reachable P t0 n t" and "i < length (go_running s)" and "p = go_running s ! i"
    and "cfg = dm_config (go_daemon s)" and "owed cfg p = [c]" and "promised cfg p = []" and "\<not> failing cfg p"
    and "parse_cid c = Inr k" and "P k w" and "download (go_daemon s) w k = Some (r, d', ks)"
    and "go_running s' = (go_running s)[i := q]" and "go_daemon s' = d'" and "dm_config d' = cfg"
    and "go_announced s' = go_announced s" and "go_error s' = go_error s"
    and "owed cfg q = (case r of Inl e \<Rightarrow> [] | Inr cs \<Rightarrow> cs)" and "promised cfg q = ks"
    and "failing cfg q \<longleftrightarrow> (\<exists>e. r = Inl e)" and "phase_ok P cfg q"
  shows "\<exists>n t. dl_reachable P t0 n t \<and> related P s' t"
proof -
  let ?R = "mset (go_running s) - {#p#}"
  have R: "mset (go_running s) = add_mset p ?R" using assms(3,4) by simp
  have d: "dl_daemon t = go_daemon s" using assms(1) by (simp add: related_def Let_def)
  have "mset (dl_pending t) = (\<Sum>p \<in># add_mset p ?R. mset (owed cfg p))"
    using assms(1,5) R by (simp add: related_def Let_def)
  then have c: "c \<in># mset (dl_pending t)" using assms(6) by simp
  obtain t' where t': "dl_reachable P t0 (Suc n) t'" "dl_daemon t' = d'"
    "mset (dl_pending t') = mset (dl_pending t) - {#c#} + mset (case r of Inl e \<Rightarrow> [] | Inr cs \<Rightarrow> cs)"
    "mset (dl_announced t') = mset (dl_announced t) + mset ks"
    "dl_error t' = None \<longleftrightarrow> dl_error t = None \<and> (\<exists>cs. r = Inr cs)"
    using run_pending [OF assms(2) c assms(9,10)] assms(11) d by metis
  have "related P s' t'"
  proof (rule related_change [OF assms(1) R, where ps' = "[q]" and good = "\<exists>cs. r = Inr cs" and cfg = cfg])
    show "mset (go_running s') = mset [q] + ?R" using assms(3,4,12) by (simp add: mset_update)
    show "mset (dl_pending t') + mset (owed cfg p) = mset (dl_pending t) + (\<Sum>q \<in># mset [q]. mset (owed cfg q))"
      using c t'(3) assms(6,17) by simp
    show "go_error s' = None \<and> (\<forall>q \<in> set [q]. \<not> failing cfg q) \<longleftrightarrow> go_error s = None \<and> \<not> failing cfg p \<and> (\<exists>cs. r = Inr cs)"
      using assms(8,16,19) by (cases r) auto
  qed (use assms t' in \<open>simp_all add: ac_simps\<close>)
  then show ?thesis using t'(1) by blast
qed

lemma read_answer_ok:
  "read_answer r = Inr (b, m) \<Longrightarrow> block_valid b \<and> parse_block b = Inr m"
  by (auto simp: read_answer_def split: sum.splits option.splits if_splits)

lemma phase_at:
  "related P s t \<Longrightarrow> i < length (go_running s) \<Longrightarrow> phase_ok P (dm_config (go_daemon s)) (go_running s ! i)"
  by (simp add: related_def Let_def)

lemma running_at:
  "go_running s ! i = p \<Longrightarrow> i < length (go_running s) \<Longrightarrow> mset (go_running s) = add_mset p (mset (go_running s) - {#p#})"
  using nth_mem_mset by fastforce

lemma spawned_simulation:
  assumes "go_step cap w i s = Next s'" and "i < length (go_running s)"
    and "\<forall>c k. starts (go_running s ! i) = Some c \<longrightarrow> parse_cid c = Inr k \<longrightarrow> P k w"
    and "related P s t" and "dl_reachable P t0 n t" and Spawned: "go_running s ! i = Spawned c v"
  shows "\<exists>n t. dl_reachable P t0 n t \<and> related P s' t"
proof -
  let ?cfg = "dm_config (go_daemon s)"
  note silent = related_silent [OF assms(4,5,2) refl refl, where s' = s']
  have ok: "phase_ok P ?cfg (go_running s ! i)" by (rule phase_at [OF assms(4,2)])
  show ?thesis
  proof (cases "parse_cid c")
    case (Inr k)
    then show ?thesis using assms(1) ok Spawned
      by (intro silent [where q = "Waiting c k v"]) (auto simp: go_step_def move_def)
  next
    case (Inl e)
    let ?R = "mset (go_running s) - {#Spawned c v#}"
    have R: "mset (go_running s) = add_mset (Spawned c v) ?R" by (rule running_at [OF Spawned assms(2)])
    have "mset (dl_pending t) = (\<Sum>p \<in># add_mset (Spawned c v) ?R. mset (owed ?cfg p))"
      using assms(4) R by (simp add: related_def Let_def)
    then have c: "c \<in># mset (dl_pending t)" by simp
    from run_unparsable [OF assms(5) c Inl]
    obtain t' where t': "dl_reachable P t0 (Suc n) t'" "dl_daemon t' = dl_daemon t"
      "mset (dl_pending t') = mset (dl_pending t) - {#c#}" "dl_announced t' = dl_announced t" "dl_error t' \<noteq> None" by blast
    have "related P s' t'"
      by (rule related_change [OF assms(4) R, where ps' = "[Reporting (Some e)]" and good = False and cfg = ?cfg])
        (use assms(1,2,4) Spawned Inl t' c in \<open>auto simp: go_step_def move_def mset_update related_def Let_def\<close>)
    then show ?thesis using t'(1) by blast
  qed
qed

lemma finding_simulation:
  assumes "go_step cap w i s = Next s'" and "i < length (go_running s)"
    and "\<forall>c k. starts (go_running s ! i) = Some c \<longrightarrow> parse_cid c = Inr k \<longrightarrow> P k w"
    and "related P s t" and "dl_reachable P t0 n t" and Finding: "go_running s ! i = Finding c k v"
  shows "\<exists>n t. dl_reachable P t0 n t \<and> related P s' t"
proof -
  let ?cfg = "dm_config (go_daemon s)"
  note silent = related_silent [OF assms(4,5,2) refl refl, where s' = s']
  note run = related_run [OF assms(4,5,2) refl refl]
  have ok: "phase_ok P ?cfg (go_running s ! i)" by (rule phase_at [OF assms(4,2)])
  obtain x where x: "client_find_peers (dc_client ?cfg) (wb_pick v 0) (wb_find v) k = Some x"
    using assms(1) Finding by (auto simp: go_step_def split: option.splits)
  show ?thesis
  proof (cases "\<exists>p. found_peer ?cfg v k p")
    case True
    then obtain p where p: "found_peer ?cfg v k p" by blast
    then show ?thesis using assms(1) ok Finding
      by (intro silent [where q = "Fetching c k v p"]) (auto simp: go_step_def move_def found_peer_def)
  next
    case False
    then obtain e where e: "download (go_daemon s) v k = Some (Inl e, go_daemon s, [])"
      "s' = move i (Returning (Some e)) s"
      using assms(1) Finding x
      by (cases x) (auto simp: go_step_def found_peer_def download_def split: list.splits)
    show ?thesis
      by (rule run [of c k v, where q = "Returning (Some e)", OF _ _ _ _ _ e(1)]) (use ok Finding e(2) in \<open>simp_all add: move_def\<close>)
  qed
qed

lemma fetching_simulation:
  assumes "go_step cap w i s = Next s'" and "i < length (go_running s)"
    and "\<forall>c k. starts (go_running s ! i) = Some c \<longrightarrow> parse_cid c = Inr k \<longrightarrow> P k w"
    and "related P s t" and "dl_reachable P t0 n t" and Fetching: "go_running s ! i = Fetching c k v p"
  shows "\<exists>n t. dl_reachable P t0 n t \<and> related P s' t"
proof -
  let ?cfg = "dm_config (go_daemon s)"
  note silent = related_silent [OF assms(4,5,2) refl refl, where s' = s']
  note run = related_run [OF assms(4,5,2) refl refl]
  have ok: "phase_ok P ?cfg (go_running s ! i)" by (rule phase_at [OF assms(4,2)])
  show ?thesis
  proof (cases "read_answer (wb_block v (block_url p k))")
    case (Inr bm)
    then show ?thesis using assms(1) ok Fetching
      by (cases bm, intro silent [where q = "Storing c k v (fst bm) (snd bm)"]) (auto simp: go_step_def move_def)
  next
    case (Inl e)
    have e: "download (go_daemon s) v k = Some (Inl e, go_daemon s, [])"
      using download_at [of "go_daemon s" v k p] ok Fetching Inl by simp
    show ?thesis
      by (rule run [of c k v, where q = "Returning (Some e)", OF _ _ _ _ _ e])
        (use assms(1) ok Fetching Inl in \<open>auto simp: go_step_def move_def\<close>)
  qed
qed

lemma storing_simulation:
  assumes "go_step cap w i s = Next s'" and "i < length (go_running s)"
    and "\<forall>c k. starts (go_running s ! i) = Some c \<longrightarrow> parse_cid c = Inr k \<longrightarrow> P k w"
    and "related P s t" and "dl_reachable P t0 n t" and Storing: "go_running s ! i = Storing c k v b m"
  shows "\<exists>n t. dl_reachable P t0 n t \<and> related P s' t"
proof -
  let ?cfg = "dm_config (go_daemon s)"
  note run = related_run [OF assms(4,5,2) refl refl]
  have ok: "phase_ok P ?cfg (go_running s ! i)" by (rule phase_at [OF assms(4,2)])
  obtain e st where put: "store_put (dm_store (go_daemon s)) b = (e, st)" by fastforce
  obtain p where p: "found_peer ?cfg v k p" "read_answer (wb_block v (block_url p k)) = Inr (b, m)"
    using ok Storing by auto
  note d = download_at [OF p(1), unfolded p(2) sum.case prod.case put]
  show ?thesis
  proof (cases e)
    case (Some e)
    have "st = dm_store (go_daemon s)" using put Some by (auto simp: store_put_def split: if_splits)
    show ?thesis
      by (rule run [of c k v "Inl e" "(go_daemon s)\<lparr>dm_store := st\<rparr>" "[]", where q = "Returning (Some e)"])
        (use assms(1) ok Storing put Some d in \<open>auto simp: go_step_def move_def\<close>)
  next
    case None
    obtain x where x: "will_put ?cfg v k = Some x" using found_puts [OF p(1)] by blast
    show ?thesis
      by (rule run [of c k v "case x of None \<Rightarrow> Inr (map link_cid (mn_links m)) | Some e \<Rightarrow> Inl e"
            "(go_daemon s)\<lparr>dm_store := st\<rparr>" "case x of None \<Rightarrow> [k] | Some e \<Rightarrow> []", where q = "Announcing k v m"])
        (use assms(1) ok Storing put None d x in \<open>auto simp: go_step_def move_def split: option.splits\<close>)
  qed
qed

lemma announcing_simulation:
  assumes "go_step cap w i s = Next s'" and "i < length (go_running s)"
    and "\<forall>c k. starts (go_running s ! i) = Some c \<longrightarrow> parse_cid c = Inr k \<longrightarrow> P k w"
    and "related P s t" and "dl_reachable P t0 n t" and Announcing: "go_running s ! i = Announcing k v m"
  shows "\<exists>n t. dl_reachable P t0 n t \<and> related P s' t"
proof -
  let ?cfg = "dm_config (go_daemon s)"
  note silent = related_silent [OF assms(4,5,2) refl refl, where s' = s']
  have ok: "phase_ok P ?cfg (go_running s ! i)" by (rule phase_at [OF assms(4,2)])
  obtain x where x: "will_put ?cfg v k = Some x" using ok Announcing by auto
  show ?thesis
  proof (cases x)
    case None
    then show ?thesis using assms(1) Announcing x
      by (intro silent [where q = "Starting (mn_links m)"]) (auto simp: go_step_def move_def will_put_def)
  next
    case (Some e)
    then show ?thesis using assms(1) Announcing x
      by (intro silent [where q = "Returning (Some e)"]) (auto simp: go_step_def move_def will_put_def)
  qed
qed

lemma starting_simulation:
  assumes "go_step cap w i s = Next s'" and "i < length (go_running s)"
    and "\<forall>c k. starts (go_running s ! i) = Some c \<longrightarrow> parse_cid c = Inr k \<longrightarrow> P k w"
    and "related P s t" and "dl_reachable P t0 n t" and Starting: "go_running s ! i = Starting ls"
  shows "\<exists>n t. dl_reachable P t0 n t \<and> related P s' t"
proof -
  let ?cfg = "dm_config (go_daemon s)"
  note silent = related_silent [OF assms(4,5,2) refl refl, where s' = s']
  show ?thesis
  proof (cases ls)
    case Nil
    then show ?thesis using assms(1) Starting
      by (intro silent [where q = "Returning None"]) (auto simp: go_step_def move_def)
  next
    case (Cons l ls')
    let ?R = "mset (go_running s) - {#Starting ls#}"
    have R: "mset (go_running s) = add_mset (Starting ls) ?R" by (rule running_at [OF Starting assms(2)])
    have "related P s' t"
      by (rule related_change [OF assms(4) R, where ps' = "[Starting ls', Spawned (link_cid l) w]" and good = True and cfg = ?cfg])
        (use assms(1-4) Starting Cons in \<open>auto simp: go_step_def mset_update related_def Let_def\<close>)
    then show ?thesis using assms(5) by blast
  qed
qed

lemma reporting_simulation:
  assumes "go_step cap w i s = Next s'" and "i < length (go_running s)"
    and "\<forall>c k. starts (go_running s ! i) = Some c \<longrightarrow> parse_cid c = Inr k \<longrightarrow> P k w"
    and "related P s t" and "dl_reachable P t0 n t" and Reporting: "go_running s ! i = Reporting e"
  shows "\<exists>n t. dl_reachable P t0 n t \<and> related P s' t"
proof -
  let ?cfg = "dm_config (go_daemon s)"
  let ?R = "mset (go_running s) - {#Reporting e#}"
  have R: "mset (go_running s) = add_mset (Reporting e) ?R" by (rule running_at [OF Reporting assms(2)])
  have "mset (go_running s') = ?R"
    using assms(1) Reporting mset_without [OF assms(2)] by (auto simp: go_step_def)
  then have "related P s' t"
    by (intro related_change [OF assms(4) R, where ps' = "[]" and good = True and cfg = ?cfg])
      (use assms(1,4) Reporting first_error_Some in \<open>auto simp: go_step_def related_def Let_def split: option.splits\<close>)
  then show ?thesis using assms(5) by blast
qed

lemma go_simulation:
  assumes "go_step cap w i s = Next s'" and "i < length (go_running s)"
    and "\<forall>c k. starts (go_running s ! i) = Some c \<longrightarrow> parse_cid c = Inr k \<longrightarrow> P k w"
    and "related P s t" and "dl_reachable P t0 n t"
  shows "\<exists>n t. dl_reachable P t0 n t \<and> related P s' t"
proof -
  note silent = related_silent [OF assms(4,5,2) refl refl, where s' = s']
  have ok: "phase_ok P (dm_config (go_daemon s)) (go_running s ! i)" by (rule phase_at [OF assms(4,2)])
  show ?thesis
  proof (cases "go_running s ! i")
    case (Spawned c v)
    then show ?thesis by (rule spawned_simulation [OF assms])
  next
    case (Waiting c k v)
    then show ?thesis using assms(1) ok
      by (intro silent [where q = "Finding c k v"]) (auto simp: go_step_def move_def split: if_splits)
  next
    case (Finding c k v)
    then show ?thesis by (rule finding_simulation [OF assms])
  next
    case (Fetching c k v p)
    then show ?thesis by (rule fetching_simulation [OF assms])
  next
    case (Storing c k v b m)
    then show ?thesis by (rule storing_simulation [OF assms])
  next
    case (Announcing k v m)
    then show ?thesis by (rule announcing_simulation [OF assms])
  next
    case (Starting ls)
    then show ?thesis by (rule starting_simulation [OF assms])
  next
    case (Returning e)
    then show ?thesis using assms(1)
      by (intro silent [where q = "Reporting e"]) (auto simp: go_step_def move_def)
  next
    case (Reporting e)
    then show ?thesis by (rule reporting_simulation [OF assms])
  qed
qed

lemma related_start:
  assumes "go_start d root w = Inr s0" and "start_download d root = Inr t0" and "\<forall>k. parse_cid root = Inr k \<longrightarrow> P k w"
  shows "related P s0 t0"
  using assms by (auto simp: go_start_def start_download_def related_def Let_def split: sum.splits)

lemma go_refines:
  assumes "go_reachable P cap s0 n s" and "go_start d root w = Inr s0" and "start_download d root = Inr t0"
    and "\<forall>k. parse_cid root = Inr k \<longrightarrow> P k w"
  shows "\<exists>m t. dl_reachable P t0 m t \<and> related P s t"
  using assms(1)
proof induction
  case Start
  show ?case using related_start [OF assms(2,3), of P] assms(4) dl_reachable.Start by blast
next
  case (Step n s i v s')
  then show ?case using go_simulation by blast
qed

subsection \<open>The semaphore\<close>

fun holds_token :: "phase \<Rightarrow> bool" where
  "holds_token (Spawned c w) = False"
| "holds_token (Waiting c k w) = False"
| "holds_token (Reporting e) = False"
| "holds_token _ = True"

definition tokens :: "go_state \<Rightarrow> nat" where
  "tokens s = length (filter holds_token (go_running s))"

lemma filter_change:
  assumes "i < length xs"
  shows "length (filter Q (xs[i := x])) = length (filter Q xs) + (if Q x then 1 else 0) - (if Q (xs ! i) then 1 else 0)"
    and "length (filter Q (take i xs)) + length (filter Q (drop (Suc i) xs)) = length (filter Q xs) - (if Q (xs ! i) then 1 else 0)"
proof -
  from id_take_nth_drop [OF assms] have "filter Q xs = filter Q (take i xs @ xs ! i # drop (Suc i) xs)" by (rule arg_cong)
  then show "length (filter Q (xs[i := x])) = length (filter Q xs) + (if Q x then 1 else 0) - (if Q (xs ! i) then 1 else 0)"
    and "length (filter Q (take i xs)) + length (filter Q (drop (Suc i) xs)) = length (filter Q xs) - (if Q (xs ! i) then 1 else 0)"
    using assms by (simp_all add: upd_conv_take_nth_drop)
qed

lemma go_tokens:
  assumes "go_reachable P cap s0 n s" and "go_start d root w = Inr s0"
  shows "go_held s = tokens s \<and> go_held s \<le> cap"
  using assms(1)
proof induction
  case Start
  then show ?case using assms(2) by (auto simp: go_start_def tokens_def split: sum.splits)
next
  case (Step n s i v s')
  show ?case
    using Step.IH Step(4) filter_change [OF Step(2), of holds_token]
    by (auto simp: go_step_def Let_def move_def tokens_def
        split: phase.splits list.splits option.splits sum.splits prod.splits if_splits)
qed

text \<open>A goroutine is blocked only by the semaphore, so one that holds a token is not.\<close>

lemma blocked_waits: "go_step cap w i s = Blocked \<Longrightarrow> (\<exists>c k v. go_running s ! i = Waiting c k v) \<and> cap \<le> go_held s"
  by (auto simp: go_step_def Let_def split: phase.splits list.splits option.splits sum.splits prod.splits if_splits)

lemma go_unblocked:
  assumes "go_held s = tokens s" and "0 < cap" and "go_running s \<noteq> []"
  shows "\<exists>i < length (go_running s). \<forall>w. go_step cap w i s \<noteq> Blocked"
proof (rule ccontr)
  assume a: "\<not> ?thesis"
  have all: "(\<exists>c k v. go_running s ! i = Waiting c k v) \<and> cap \<le> go_held s" if "i < length (go_running s)" for i
    using a that blocked_waits by blast
  then have "cap \<le> go_held s" using assms(3) by (metis length_greater_0_conv)
  moreover have "\<not> holds_token p" if "p \<in> set (go_running s)" for p
    using all that by (metis holds_token.simps(2) in_set_conv_nth)
  then have "tokens s = 0" by (simp add: tokens_def)
  ultimately show False using assms(1,2) by simp
qed

subsection \<open>A bound on the steps\<close>

text \<open>
  If peers send what the publisher's store has, a goroutine and those it starts have at most as many
  steps to go as a relation counts: ten for each path of the DAG below its identifier.
\<close>

definition dags_below :: "store \<Rightarrow> link list \<Rightarrow> nat \<Rightarrow> bool" where
  "dags_below S ls n \<longleftrightarrow> (\<exists>css. list_all2 (dag_list S) (map link_cid ls) css \<and> n = length (concat css))"

definition paths_below :: "store \<Rightarrow> cid \<Rightarrow> nat \<Rightarrow> bool" where
  "paths_below S c l \<longleftrightarrow> (\<exists>cs. dag_list S c cs \<and> length cs = Suc l)"

fun steps_left :: "store \<Rightarrow> phase \<Rightarrow> nat \<Rightarrow> bool" where
  "steps_left S (Spawned c w) n = (\<exists>l. paths_below S c l \<and> n = 10 * l + 9)"
| "steps_left S (Waiting c k w) n = (\<exists>l. paths_below S c l \<and> n = 10 * l + 8)"
| "steps_left S (Finding c k w) n = (\<exists>l. paths_below S c l \<and> n = 10 * l + 7)"
| "steps_left S (Fetching c k w p) n = (\<exists>l. paths_below S c l \<and> n = 10 * l + 6)"
| "steps_left S (Storing c k w b m) n = (\<exists>l. paths_below S c l \<and> n = 10 * l + 5)"
| "steps_left S (Announcing k w m) n = (\<exists>l. dags_below S (mn_links m) l \<and> n = 10 * l + 4)"
| "steps_left S (Starting ls) n = (\<exists>l. dags_below S ls l \<and> n = 10 * l + 3)"
| "steps_left S (Returning e) n = (n = 2)"
| "steps_left S (Reporting e) n = (n = 1)"

definition all_left :: "store \<Rightarrow> go_state \<Rightarrow> nat \<Rightarrow> bool" where
  "all_left S s r \<longleftrightarrow> (\<exists>ns. list_all2 (steps_left S) (go_running s) ns \<and> r = sum_list ns)"

lemma dag_list_Cons:
  assumes "dag_list S c cs"
  shows "\<exists>l. length cs = Suc l"
proof -
  have "cs \<noteq> []" using assms dag_root unfolding dag_list_def by fastforce
  then show ?thesis by (cases cs) simp_all
qed

lemma all_left_split:
  assumes "all_left S s r" and "i < length (go_running s)"
  obtains n r' where "steps_left S (go_running s ! i) n" "r = n + r'"
    "\<And>q m. steps_left S q m \<Longrightarrow> all_left S (s\<lparr>go_running := (go_running s)[i := q]\<rparr>) (m + r')"
    "all_left S (s\<lparr>go_running := take i (go_running s) @ drop (Suc i) (go_running s)\<rparr>) r'"
proof -
  obtain ns where ns: "list_all2 (steps_left S) (go_running s) ns" "r = sum_list ns" using assms(1) unfolding all_left_def by blast
  have i: "i < length ns" using ns(1) assms(2) list_all2_lengthD by metis
  let ?r = "sum_list (take i ns) + sum_list (drop (Suc i) ns)"
  have sum: "sum_list ns = ns ! i + ?r"
    using arg_cong [OF id_take_nth_drop [OF i], of sum_list] by simp
  show thesis
  proof (rule that)
    show "steps_left S (go_running s ! i) (ns ! i)" using ns(1) assms(2) by (rule list_all2_nthD)
    show "r = ns ! i + ?r" using ns(2) sum by simp
    have sum_update: "sum_list (ns[i := m]) = m + ?r" for m
      using i by (simp add: upd_conv_take_nth_drop)
    show "all_left S (s\<lparr>go_running := (go_running s)[i := q]\<rparr>) (m + ?r)" if "steps_left S q m" for q m
      unfolding all_left_def
      by (intro exI [of _ "ns[i := m]"]) (use that ns(1) i in \<open>simp add: list_all2_update_cong sum_update\<close>)
    show "all_left S (s\<lparr>go_running := take i (go_running s) @ drop (Suc i) (go_running s)\<rparr>) ?r"
      unfolding all_left_def
      by (intro exI [of _ "take i ns @ drop (Suc i) ns"])
        (use ns(1) in \<open>simp add: list_all2_appendI list_all2_takeI list_all2_dropI\<close>)
  qed
qed

lemma all_left_running: "go_running s = go_running s' \<Longrightarrow> all_left S s r = all_left S s' r"
  by (simp add: all_left_def)

lemma all_left_move: "all_left S (s\<lparr>go_running := (go_running s)[i := q]\<rparr>) r \<Longrightarrow> go_running s' = (go_running s)[i := q] \<Longrightarrow> all_left S s' r"
  by (simp add: all_left_def)

lemma sent_answer: "read_answer (wb_block w url) = Inr (b, m) \<Longrightarrow> sent w b"
  by (auto simp: read_answer_def sent_def split: sum.splits option.splits if_splits)

lemma dags_below_Cons:
  assumes "dags_below S (l # ls) n"
  obtains m n' where "paths_below S (link_cid l) m" "dags_below S ls n'" "n = Suc m + n'"
proof -
  obtain css where css: "list_all2 (dag_list S) (map link_cid (l # ls)) css" "n = length (concat css)"
    using assms unfolding dags_below_def by blast
  obtain cs css' where c: "css = cs # css'" "dag_list S (link_cid l) cs" "list_all2 (dag_list S) (map link_cid ls) css'"
    using css(1) by (auto simp: list_all2_Cons1)
  obtain m where "length cs = Suc m" using dag_list_Cons [OF c(2)] by blast
  then show thesis
    by (intro that [of m "length (concat css')"]) (use c css(2) in \<open>auto simp: dags_below_def paths_below_def\<close>)
qed

lemma stored_links:
  assumes "paths_below S c l" and "rows_inv S" and "from_source S k v" and "parse_cid c = Inr k"
    and "read_answer (wb_block v url) = Inr (b, m)"
  shows "dags_below S (mn_links m) l"
proof -
  obtain cs where cs: "dag_list S c cs" "length cs = Suc l" using assms(1) unfolding paths_below_def by blast
  obtain b' where b': "store_get S c = Inr b'" "c = cid_of (block_data b')" using dag_list_valid [OF cs(1) assms(2)] by blast
  then have "marshal_b32 k = c" using assms(4) parse_cid_of by auto
  then have "store_get S c = Inr b" using assms(3) sent_answer [OF assms(5)] by (auto simp: from_source_def)
  then obtain css where "list_all2 (dag_list S) (map link_cid (mn_links m)) css" "cs = c # concat css"
    using dag_list_unfold [OF cs(1)] read_answer_ok [OF assms(5)] by blast
  then show ?thesis using cs(2) by (auto simp: dags_below_def)
qed

lemma steps_decrease:
  assumes "go_step cap w i s = Next s'" and "i < length (go_running s)" and "all_left S s r"
    and "\<forall>p \<in> set (go_running s). phase_ok P (dm_config (go_daemon s)) p" and "\<And>k w. P k w \<Longrightarrow> from_source S k w"
    and "rows_inv S"
  shows "\<exists>r' < r. all_left S s' r'"
proof -
  obtain n r' where n: "steps_left S (go_running s ! i) n" "r = n + r'"
    "\<And>q m. steps_left S q m \<Longrightarrow> all_left S (s\<lparr>go_running := (go_running s)[i := q]\<rparr>) (m + r')"
    "all_left S (s\<lparr>go_running := take i (go_running s) @ drop (Suc i) (go_running s)\<rparr>) r'"
    using all_left_split [OF assms(3,2)] by blast
  have moved: "\<exists>r' < r. all_left S s' r'" if "steps_left S q m" "m < n" "go_running s' = (go_running s)[i := q]" for q m
    using all_left_move [OF n(3) [OF that(1)] that(3)] that(2) n(2) by (intro exI [of _ "m + r'"]) simp
  have fail: "\<exists>r' < r. all_left S s' r'" if "go_running s' = (go_running s)[i := Returning e]" "2 < n" for e
    using that by (intro moved [of "Returning e" 2]) simp_all
  have ok: "phase_ok P (dm_config (go_daemon s)) (go_running s ! i)" using assms(2,4) by simp
  show ?thesis
  proof (cases "go_running s ! i")
    case (Spawned c v)
    then obtain l where l: "paths_below S c l" "n = 10 * l + 9" using n(1) by auto
    show ?thesis
    proof (cases "parse_cid c")
      case (Inr k)
      then show ?thesis using assms(1) l Spawned
        by (intro moved [of "Waiting c k v" "10 * l + 8"]) (auto simp: go_step_def move_def)
    next
      case (Inl e)
      then show ?thesis using assms(1) l Spawned
        by (intro moved [of "Reporting (Some e)" 1]) (auto simp: go_step_def move_def)
    qed
  next
    case (Waiting c k v)
    then obtain l where "paths_below S c l" "n = 10 * l + 8" using n(1) by auto
    then show ?thesis using assms(1) Waiting
      by (intro moved [of "Finding c k v" "10 * l + 7"]) (auto simp: go_step_def move_def split: if_splits)
  next
    case (Finding c k v)
    then obtain l where l: "paths_below S c l" "n = 10 * l + 7" using n(1) by auto
    have "(\<exists>e. go_running s' = (go_running s)[i := Returning e]) \<or> (\<exists>p. go_running s' = (go_running s)[i := Fetching c k v p])"
      using assms(1) Finding by (auto simp: go_step_def move_def split: option.splits sum.splits list.splits)
    then show ?thesis
      using fail l moved [of "Fetching c k v p" "10 * l + 6" for p] by (elim disjE exE) auto
  next
    case (Fetching c k v p)
    then obtain l where l: "paths_below S c l" "n = 10 * l + 6" using n(1) by auto
    have "(\<exists>e. go_running s' = (go_running s)[i := Returning e]) \<or> (\<exists>b m. go_running s' = (go_running s)[i := Storing c k v b m])"
      using assms(1) Fetching by (cases "read_answer (wb_block v (block_url p k))") (force simp: go_step_def move_def)+
    then show ?thesis
      using fail l moved [of "Storing c k v b m" "10 * l + 5" for b m] by (elim disjE exE) auto
  next
    case (Storing c k v b m)
    then obtain l where l: "paths_below S c l" "n = 10 * l + 5" using n(1) by auto
    have "(\<exists>e. go_running s' = (go_running s)[i := Returning e]) \<or> go_running s' = (go_running s)[i := Announcing k v m]"
      using assms(1) Storing by (auto simp: go_step_def move_def split: prod.splits option.splits)
    moreover have "dags_below S (mn_links m) l"
    proof -
      obtain p where "parse_cid c = Inr k" "P k v" "read_answer (wb_block v (block_url p k)) = Inr (b, m)"
        using ok Storing by auto
      then show ?thesis using stored_links [OF l(1) assms(6)] assms(5) by blast
    qed
    ultimately show ?thesis
      using fail l(2) moved [of "Announcing k v m" "10 * l + 4"] by (elim disjE exE) auto
  next
    case (Announcing k v m)
    then obtain l where l: "dags_below S (mn_links m) l" "n = 10 * l + 4" using n(1) by auto
    have "(\<exists>e. go_running s' = (go_running s)[i := Returning e]) \<or> go_running s' = (go_running s)[i := Starting (mn_links m)]"
      using assms(1) Announcing by (auto simp: go_step_def move_def split: option.splits)
    then show ?thesis
      using fail l moved [of "Starting (mn_links m)" "10 * l + 3"] by (elim disjE exE) auto
  next
    case (Starting ls)
    then obtain l where l: "dags_below S ls l" "n = 10 * l + 3" using n(1) by auto
    show ?thesis
    proof (cases ls)
      case Nil
      then show ?thesis using assms(1) Starting l by (intro fail [of None]) (auto simp: go_step_def move_def)
    next
      case (Cons x xs)
      obtain m n' where l': "paths_below S (link_cid x) m" "dags_below S xs n'" "l = Suc m + n'"
        using dags_below_Cons [of S x xs l] l(1) Cons by blast
      have "all_left S (s\<lparr>go_running := (go_running s)[i := Starting xs]\<rparr>) (10 * n' + 3 + r')"
        by (rule n(3)) (use l'(2) in auto)
      then obtain ns where ns: "list_all2 (steps_left S) ((go_running s)[i := Starting xs]) ns" "10 * n' + 3 + r' = sum_list ns"
        unfolding all_left_def by auto
      have "list_all2 (steps_left S) (go_running s') (ns @ [10 * m + 9])"
        using assms(1) Starting Cons ns(1) l'(1) by (auto simp: go_step_def intro!: list_all2_appendI)
      moreover have "sum_list (ns @ [10 * m + 9]) < r"
        using ns(2) n(2) l(2) l'(3) by simp
      ultimately show ?thesis unfolding all_left_def by blast
    qed
  next
    case (Returning e)
    then show ?thesis using assms(1) n(1)
      by (intro moved [of "Reporting e" 1]) (auto simp: go_step_def move_def)
  next
    case (Reporting e)
    then have "go_running s' = take i (go_running s) @ drop (Suc i) (go_running s)" "n = 1"
      using assms(1) n(1) by (auto simp: go_step_def)
    then show ?thesis using n(2,4) by (intro exI [of _ r']) (simp add: all_left_def)
  qed
qed


lemma go_bound:
  assumes "go_reachable P cap s0 n s" and "go_start d root w = Inr s0" and "start_download d root = Inr t0"
    and "\<forall>k. parse_cid root = Inr k \<longrightarrow> P k w" and "\<And>k w. P k w \<Longrightarrow> from_source S k w"
    and "rows_inv S" and "dag f S root = Some (Inr (cs, sz))"
  shows "\<exists>r. all_left S s r \<and> n + r < 10 * length cs"
  using assms(1)
proof induction
  case Start
  have d: "dag_list S root cs" using assms(7) unfolding dag_list_def by blast
  obtain l where "length cs = Suc l" using dag_list_Cons [OF d] by blast
  then show ?case
    using d assms(2) by (intro exI [of _ "10 * l + 8"]) (auto simp: all_left_def go_start_def paths_below_def split: sum.splits
        intro!: exI [of _ "[10 * l + 8]"])
next
  case (Step n s i v s')
  then obtain r where r: "all_left S s r" "n + r < 10 * length cs" by blast
  obtain m t where "related P s t" using go_refines [OF Step(1) assms(2-4)] by blast
  then have "\<forall>p \<in> set (go_running s). phase_ok P (dm_config (go_daemon s)) p" by (simp add: related_def Let_def)
  from steps_decrease [OF Step(4,2) r(1) this assms(5,6)] obtain r' where "r' < r" "all_left S s' r'" by blast
  then show ?case using r(2) by (intro exI [of _ r']) simp
qed

subsection \<open>Honest peers that answer\<close>

text \<open>
  For a key, the network names a peer, any peer either fails or sends what the publisher's daemon
  serves, the peer that is asked does not fail, and neither does the announcement.
\<close>

definition honest_web :: "daemon \<Rightarrow> daemon_config \<Rightarrow> key \<Rightarrow> web \<Rightarrow> bool" where
  "honest_web A cfg k w \<longleftrightarrow>
     (\<forall>url. wb_block w url = None \<or> wb_block w url = Some (block_route A (marshal_b32 k))) \<and>
     (\<exists>p. found_peer cfg w k p \<and> wb_block w (block_url p k) \<noteq> None) \<and> will_put cfg w k = Some None"

lemma served_answer:
  assumes "rows_inv (dm_store A)" and "store_get (dm_store A) c = Inr b" and "parse_block b = Inr m"
  shows "read_answer (Some (block_route A c)) = Inr (b, m)"
  using assms get_valid_cid(1) [OF assms(1,2)] decode_served [OF valid_block_utf8]
  by (simp add: read_answer_def block_route_def check_status_def)

lemma honest_from_source:
  assumes "honest_web A cfg k w" and "rows_inv (dm_store A)"
  shows "from_source (dm_store A) k w"
  unfolding from_source_def
proof (intro allI impI)
  fix b assume "sent w b"
  then obtain url body where u: "check_status (wb_block w url) = Inr body" "decode_first decode_block body = Some b"
    unfolding sent_def by blast
  from u(1) have "wb_block w url \<noteq> None" by (cases "wb_block w url") (simp_all add: check_status_def)
  then have "wb_block w url = Some (block_route A (marshal_b32 k))"
    using assms(1) unfolding honest_web_def by metis
  then show "store_get (dm_store A) (marshal_b32 k) = Inr b"
    using u get_valid_cid(1) [OF assms(2)] decode_served [OF valid_block_utf8]
    by (auto simp: block_route_def check_status_def split: sum.splits)
qed

lemma paths_block:
  assumes "paths_below S c l"
  shows "\<exists>b m. store_get S c = Inr b \<and> parse_block b = Inr m"
proof -
  obtain f cs sz where "dag f S c = Some (Inr (cs, sz))" using assms unfolding paths_below_def dag_list_def by blast
  then show ?thesis by (cases f) (auto elim!: dag_SucE simp del: dag.simps(2))
qed

text \<open>Then no goroutine fails, or panics.\<close>

lemma honest_step:
  assumes "related (honest_web A cfg) s t" and "i < length (go_running s)" and "all_left (dm_store A) s r"
    and "cfg = dm_config (go_daemon s)" and "rows_inv (dm_store A)" and "st_open (dm_store (go_daemon s))"
    and "\<forall>p \<in> set (go_running s). \<not> failing cfg p"
  shows "go_step cap w i s \<noteq> Panics \<and> (\<forall>s'. go_step cap w i s = Next s' \<longrightarrow>
    (go_error s = None \<longrightarrow> go_error s' = None) \<and> (\<forall>p \<in> set (go_running s'). \<not> failing cfg p))"
proof -
  have ok: "phase_ok (honest_web A cfg) cfg (go_running s ! i)" "\<not> failing cfg (go_running s ! i)"
    using assms(1,2,4,7) by (auto simp: related_def Let_def)
  obtain n where n: "steps_left (dm_store A) (go_running s ! i) n" using all_left_split [OF assms(3,2)] by metis
  have others: "\<forall>p \<in> set ((go_running s)[i := q]). \<not> failing cfg p" if "\<not> failing cfg q" for q
    using assms(7) that set_update_subset_insert [of "go_running s" i q] by blast
  have found: "\<exists>p. found_peer cfg v k p \<and> wb_block v (block_url p k) = Some (block_route A (marshal_b32 k))"
    if "honest_web A cfg k v" for k v
    using that unfolding honest_web_def by (metis not_None_eq)
  have block: "\<exists>b m. read_answer (Some (block_route A (marshal_b32 k))) = Inr (b, m)"
    if l: "paths_below (dm_store A) c l" and k: "parse_cid c = Inr k" for c k l
  proof -
    obtain b m where b: "store_get (dm_store A) c = Inr b" "parse_block b = Inr m"
      using paths_block [OF l] by blast
    have "marshal_b32 k = c" using get_valid_cid(3,4) [OF assms(5) b(1)] k by simp
    then show ?thesis using served_answer [OF assms(5) b] by blast
  qed
  show ?thesis
  proof (cases "go_running s ! i")
    case (Spawned c v)
    then obtain l where "paths_below (dm_store A) c l" using n by auto
    then obtain b where "store_get (dm_store A) c = Inr b" using paths_block by blast
    then show ?thesis using Spawned get_valid_cid(3) [OF assms(5)] others [of "Waiting c k v" for k]
      by (auto simp: go_step_def move_def)
  next
    case (Waiting c k v)
    then show ?thesis using others [of "Finding c k v"] by (auto simp: go_step_def move_def)
  next
    case (Finding c k v)
    then obtain p where "found_peer cfg v k p" using ok found by auto
    then show ?thesis using Finding others [of "Fetching c k v p" for p] assms(4)
      by (auto simp: go_step_def move_def found_peer_def)
  next
    case (Fetching c k v p)
    then obtain l where l: "paths_below (dm_store A) c l" using n by auto
    have h: "honest_web A cfg k v" "parse_cid c = Inr k" "found_peer cfg v k p" using ok Fetching by auto
    obtain p' where "found_peer cfg v k p'" "wb_block v (block_url p' k) = Some (block_route A (marshal_b32 k))"
      using found [OF h(1)] by blast
    moreover have "p' = p" using h(3) calculation(1) by (auto simp: found_peer_def)
    ultimately obtain b m where "read_answer (wb_block v (block_url p k)) = Inr (b, m)" using block [OF l h(2)] by auto
    then show ?thesis using Fetching others [of "Storing c k v b m"] by (auto simp: go_step_def move_def)
  next
    case (Storing c k v b m)
    then have "honest_web A cfg k v" using ok by auto
    then have "\<not> failing cfg (Announcing k v m)" by (simp add: honest_web_def)
    then show ?thesis using Storing others [of "Announcing k v m"] assms(6) by (auto simp: go_step_def move_def store_put_def)
  next
    case (Announcing k v m)
    then have "will_put cfg v k = Some None" using ok(2) by simp
    then show ?thesis using Announcing others [of "Starting (mn_links m)"] assms(4)
      by (auto simp: go_step_def move_def will_put_def)
  next
    case (Starting ls)
    show ?thesis
    proof (cases ls)
      case Nil
      then show ?thesis using Starting others [of "Returning None"] by (auto simp: go_step_def move_def)
    next
      case (Cons l ls')
      then show ?thesis using Starting others [of "Starting ls'"] by (auto simp: go_step_def)
    qed
  next
    case (Returning e)
    then show ?thesis using ok(2) others [of "Reporting e"] by (auto simp: go_step_def move_def)
  next
    case (Reporting e)
    then show ?thesis using ok(2) assms(7) by (auto simp: go_step_def dest: in_set_takeD in_set_dropD)
  qed
qed

end
