(* ===== verification/Concurrency.thy ===== *)
theory Concurrency
  imports Goroutines Daemon_Correct
begin

text \<open>
  Downloads with interleaved goroutines: they refine the atomic steps of \<^const>\<open>dl_reachable\<close>, the
  semaphore never stops all of them, and from honest peers a download transfers the DAG.
\<close>

subsection \<open>Reading below the root\<close>

lemma dag_read_below:
  assumes "dag f s c = Some (Inr (cs, sz))" and "\<forall>c \<in> set cs. store_get s' c = store_get s c"
    and "resolve s c parts = Inr n"
  shows "read_bytes g s' n = read_bytes g s n"
  using assms
proof (induction parts arbitrary: f c cs sz)
  case Nil
  then show ?case by (rule dag_read(1))
next
  case (Cons p ps)
  obtain h where h: "f = Suc h" using Cons.prems(1) by (cases f) auto
  from Cons.prems(1) [unfolded h] show ?case
  proof (rule dag_SucE)
    fix b m cs1 sz1
    assume *: "store_get s c = Inr b" "parse_block b = Inr m" "dag_links h s (mn_links m) = Some (Inr (cs1, sz1))"
      "cs = c # cs1"
    obtain c' where c': "find_link p (mn_links m) = Some c'" "resolve s c' ps = Inr n"
      using Cons.prems(3) * by (auto simp: resolve.simps [of s c] split: option.splits)
    obtain l where l: "l \<in> set (mn_links m)" "link_cid l = c'" using find_link_in [OF c'(1)] by auto
    obtain cs2 sz2 where d: "dag h s c' = Some (Inr (cs2, sz2))" "set cs2 \<subseteq> set cs1"
      using dag_links_sub [OF *(3) l(1)] l(2) by auto
    then have "\<forall>c \<in> set cs2. store_get s' c = store_get s c" using Cons.prems(2) *(4) by auto
    then show ?thesis using Cons.IH [OF d(1) _ c'(2)] by blast
  qed
qed

lemma cat_agrees:
  assumes "dag f (dm_store A) root = Some (Inr (cs, sz))" and "\<forall>c \<in> set cs. store_get (dm_store d) c = store_get (dm_store A) c"
    and "split_at (CHR ''/'') path = root # parts"
  shows "daemon_cat g d path = daemon_cat g A path"
  using dag_resolve [OF assms(1,2), of parts] dag_read_below [OF assms(1,2), of parts _ g] assms(3)
  by (auto simp: daemon_cat_def resolve_path_def split: sum.split)

subsection \<open>Runs with honest peers\<close>

lemma start_iff: "go_start d root w = Inr s0 \<Longrightarrow> \<exists>t0. start_download d root = Inr t0 \<and> dl_daemon t0 = d"
  by (auto simp: go_start_def start_download_def split: sum.splits)

lemma go_daemon_kept:
  assumes "related P s t" and "dl_reachable P t0 m t" and "dl_daemon t0 = d" and "rows_inv (dm_store d)"
  shows "dm_config (go_daemon s) = dm_config d" and "st_open (dm_store (go_daemon s)) = st_open (dm_store d)"
  using assms(1) reach_store [OF assms(2)] assms(3,4) by (simp_all add: related_def Let_def)

lemma honest_reach:
  assumes "go_reachable (honest_web A (dm_config d)) cap s0 n s" and "go_start d root w = Inr s0"
    and "\<forall>k. parse_cid root = Inr k \<longrightarrow> honest_web A (dm_config d) k w"
    and "rows_inv (dm_store d)" and "st_open (dm_store d)" and "rows_inv (dm_store A)"
    and "dag f (dm_store A) root = Some (Inr (cs, sz))"
  shows "go_error s = None \<and> (\<forall>p \<in> set (go_running s). \<not> failing (dm_config d) p) \<and>
    (\<forall>i < length (go_running s). \<forall>v. go_step cap v i s \<noteq> Panics)"
proof -
  let ?P = "honest_web A (dm_config d)"
  obtain t0 where t0: "start_download d root = Inr t0" "dl_daemon t0 = d" using start_iff [OF assms(2)] by blast
  have step: "go_step cap v i s \<noteq> Panics \<and> (\<forall>s'. go_step cap v i s = Next s' \<longrightarrow>
      (go_error s = None \<longrightarrow> go_error s' = None) \<and> (\<forall>p \<in> set (go_running s'). \<not> failing (dm_config d) p))"
    if r: "go_reachable ?P cap s0 n s" and i: "i < length (go_running s)"
      and fine: "\<forall>p \<in> set (go_running s). \<not> failing (dm_config d) p" for n s i v
  proof -
    obtain m t where t: "dl_reachable ?P t0 m t" "related ?P s t" using go_refines [OF r assms(2) t0(1) assms(3)] by blast
    note kept = go_daemon_kept [OF t(2,1) t0(2) assms(4)]
    obtain x where x: "all_left (dm_store A) s x"
      using go_bound [OF r assms(2) t0(1) assms(3) honest_from_source [of A "dm_config d", OF _ assms(6)] assms(6,7)] by blast
    show ?thesis
      by (rule honest_step [OF t(2) i x kept(1) [symmetric] assms(6) _ fine]) (use kept(2) assms(5) in simp)
  qed
  have "go_error s = None \<and> (\<forall>p \<in> set (go_running s). \<not> failing (dm_config d) p)"
    using assms(1)
  proof induction
    case Start
    then show ?case using assms(2) by (auto simp: go_start_def split: sum.splits)
  next
    case (Step n s i v s')
    then show ?case using step [OF Step(1,2)] by blast
  qed
  then show ?thesis using step [OF assms(1)] by blast
qed

lemma honest_as_asked: "honest_web A cfg k w \<Longrightarrow> rows_inv (dm_store A) \<Longrightarrow> as_asked k w"
  using honest_from_source get_valid_cid(2) unfolding from_source_def as_asked_def by blast

lemma transfer_done:
  assumes "go_start d root w = Inr s0" and "rows_inv (dm_store d)" and "st_open (dm_store d)" and "rows_inv (dm_store A)"
    and "dag f (dm_store A) root = Some (Inr (cs, sz))"
    and "\<forall>k. parse_cid root = Inr k \<longrightarrow> honest_web A (dm_config d) k w"
    and "go_reachable (honest_web A (dm_config d)) cap s0 n s" and "go_running s = []"
  shows "go_error s = None" and "rows_inv (dm_store (go_daemon s))" and "st_open (dm_store (go_daemon s))"
    and "(\<exists>x \<in> set cs. \<exists>b b'. store_get (dm_store A) x = Inr b \<and> store_get (dm_store (go_daemon s)) x = Inr b' \<and> clash b b') \<or>
      (\<forall>x \<in> set cs. x \<in> marshal_b32 ` set (go_announced s) \<and> store_get (dm_store (go_daemon s)) x = store_get (dm_store A) x)"
proof -
  let ?P = "honest_web A (dm_config d)"
  obtain t0 where t0: "start_download d root = Inr t0" "dl_daemon t0 = d" using start_iff [OF assms(1)] by blast
  obtain m t where t: "dl_reachable ?P t0 m t" "related ?P s t" using go_refines [OF assms(7,1) t0(1) assms(6)] by blast
  show fine: "go_error s = None" using honest_reach [OF assms(7,1,6,2-5)] by blast
  have d: "dl_pending t = []" "dl_error t = None" "dl_daemon t = go_daemon s" "mset (dl_announced t) = mset (go_announced s)"
    using t(2) assms(8) fine by (simp_all add: related_def Let_def)
  show "rows_inv (dm_store (go_daemon s))" "st_open (dm_store (go_daemon s))"
    using reach_store [OF t(1)] t0(2) d(3) assms(2,3) by simp_all
  have "dl_reachable as_asked t0 m t" by (rule reachable_mono [OF t(1)]) (rule honest_as_asked [OF _ assms(4)])
  from download_agrees(2) [OF t0(1) this d(1,2) assms(2,4,5), unfolded d(3) mset_eq_setD [OF d(4)]]
  show "(\<exists>x \<in> set cs. \<exists>b b'. store_get (dm_store A) x = Inr b \<and> store_get (dm_store (go_daemon s)) x = Inr b' \<and> clash b b') \<or>
      (\<forall>x \<in> set cs. x \<in> marshal_b32 ` set (go_announced s) \<and> store_get (dm_store (go_daemon s)) x = store_get (dm_store A) x)"
    by blast
qed

subsection \<open>Properties\<close>

text \<open>
  C5: the goroutines of a download, interleaved as they may be, do what the same goroutines do one after
  the other: for every run there is a run of atomic downloads with the same daemon, and when all
  goroutines have returned, with the same announced keys and an error in both or in none.
\<close>

theorem goroutines_refine:
  assumes "go_start d root w = Inr s0" and "go_reachable P cap s0 n s" and "\<forall>k. parse_cid root = Inr k \<longrightarrow> P k w"
  shows "\<exists>t0 m t. start_download d root = Inr t0 \<and> dl_reachable P t0 m t \<and> dl_daemon t = go_daemon s \<and>
    (go_running s = [] \<longrightarrow> dl_pending t = [] \<and> mset (dl_announced t) = mset (go_announced s) \<and>
       (dl_error t = None \<longleftrightarrow> go_error s = None))"
proof -
  obtain t0 where t0: "start_download d root = Inr t0" using start_iff [OF assms(1)] by blast
  obtain m t where "dl_reachable P t0 m t" "related P s t" using go_refines [OF assms(2,1) t0 assms(3)] by blast
  then have "start_download d root = Inr t0 \<and> dl_reachable P t0 m t \<and> dl_daemon t = go_daemon s \<and>
    (go_running s = [] \<longrightarrow> dl_pending t = [] \<and> mset (dl_announced t) = mset (go_announced s) \<and>
       (dl_error t = None \<longleftrightarrow> go_error s = None))"
    using t0 by (auto simp: related_def Let_def)
  then show ?thesis by (intro exI)
qed

text \<open>
  C15: the semaphore bounds and does not block. At most as many goroutines as the channel has places are
  between acquiring and releasing it; as long as one has not returned, one can go on; when all have, no
  token is left.
\<close>

theorem semaphore_safe:
  assumes "go_start d root w = Inr s0" and "go_reachable P sem_size s0 n s"
  shows "length (filter holds_token (go_running s)) \<le> 5000 \<and>
    (go_running s \<noteq> [] \<longrightarrow> (\<exists>i < length (go_running s). \<forall>v. go_step sem_size v i s \<noteq> Blocked)) \<and>
    (go_running s = [] \<longrightarrow> go_held s = 0)"
  using go_tokens [OF assms(2,1)] go_unblocked [of s sem_size] by (auto simp: tokens_def sem_size_def)

text \<open>
  C30: a download from peers that send the publisher's blocks, or fail, ends: whatever the interleaving,
  the goroutines make fewer than ten steps for each path of the DAG, and one of them can always go on.
\<close>

theorem download_ends:
  assumes "go_start d root w = Inr s0" and "rows_inv S" and "dag f S root = Some (Inr (cs, sz))"
    and "\<forall>k. parse_cid root = Inr k \<longrightarrow> from_source S k w" and "go_reachable (from_source S) sem_size s0 n s"
  shows "n < 10 * length cs \<and>
    (go_running s = [] \<or> (\<exists>i < length (go_running s). \<forall>v. go_step sem_size v i s \<noteq> Blocked))"
proof -
  obtain t0 where "start_download d root = Inr t0" using start_iff [OF assms(1)] by blast
  from go_bound [OF assms(5,1) this assms(4) _ assms(2,3)] obtain r where "n + r < 10 * length cs" by blast
  then show ?thesis using go_tokens [OF assms(5,1)] go_unblocked [of s sem_size] by (auto simp: sem_size_def)
qed

text \<open>
  C4: from honest peers that answer, a download transfers the DAG. Whatever the interleaving, no
  goroutine fails or panics, there are fewer than ten steps for each path of the DAG and one of the
  goroutines can always go on; when all have returned, every block of the DAG is announced, and
  \<^verbatim>\<open>Cat\<close> answers for every path below the root as at the publisher, unless the two stores hold different
  contents with one SHA-256 digest.
\<close>

theorem download_transfers:
  assumes "go_start d root w = Inr s0" and "rows_inv (dm_store d)" and "st_open (dm_store d)" and "rows_inv (dm_store A)"
    and "dag f (dm_store A) root = Some (Inr (cs, sz))"
    and "\<forall>k. parse_cid root = Inr k \<longrightarrow> honest_web A (dm_config d) k w"
    and "go_reachable (honest_web A (dm_config d)) sem_size s0 n s"
  shows "n < 10 * length cs \<and> go_error s = None \<and>
    (\<forall>i < length (go_running s). \<forall>v. go_step sem_size v i s \<noteq> Panics) \<and>
    (go_running s \<noteq> [] \<longrightarrow> (\<exists>i < length (go_running s). \<forall>v. go_step sem_size v i s \<noteq> Blocked)) \<and>
    (go_running s = [] \<longrightarrow>
      (\<exists>x \<in> set cs. \<exists>b b'. store_get (dm_store A) x = Inr b \<and> store_get (dm_store (go_daemon s)) x = Inr b' \<and> clash b b') \<or>
      (set cs \<subseteq> marshal_b32 ` set (go_announced s) \<and>
       (\<forall>path parts g. split_at (CHR ''/'') path = root # parts \<longrightarrow> daemon_cat g (go_daemon s) path = daemon_cat g A path)))"
proof -
  obtain t0 where t0: "start_download d root = Inr t0" using start_iff [OF assms(1)] by blast
  have "\<exists>r. n + r < 10 * length cs"
    using go_bound [OF assms(7,1) t0 assms(6) honest_from_source [of A "dm_config d", OF _ assms(4)] assms(4,5)] by blast
  moreover have "(\<exists>x \<in> set cs. \<exists>b b'. store_get (dm_store A) x = Inr b \<and> store_get (dm_store (go_daemon s)) x = Inr b' \<and> clash b b') \<or>
      (set cs \<subseteq> marshal_b32 ` set (go_announced s) \<and>
       (\<forall>path parts g. split_at (CHR ''/'') path = root # parts \<longrightarrow> daemon_cat g (go_daemon s) path = daemon_cat g A path))"
    if "go_running s = []"
    using transfer_done(4) [OF assms that] cat_agrees [OF assms(5), of "go_daemon s"] by blast
  ultimately show ?thesis
    using go_tokens [OF assms(7,1)] go_unblocked [of s sem_size] honest_reach [OF assms(7,1,6,2-5)]
    by (auto simp: sem_size_def)
qed

subsection \<open>A run\<close>

definition sample_publisher :: daemon where
  "sample_publisher = sample_daemon\<lparr>dm_store := sample_source\<rparr>"

lemma sample_served: "snd (block_route sample_publisher (node_cid sample_node_block)) = marshal (block_json (mn_block sample_node_block)) @ [10]"
  using sample_source_ok(2) by (simp add: block_route_def sample_publisher_def)

lemma sample_found: "found_peer (dm_config sample_daemon) sample_web k sample_peer"
  using sample_daemon_ok(2,3) other_peers_one [of "dc_public_ip (dm_config sample_daemon)"]
  by (simp add: found_peer_def client_find_peers_def node_url_def check_status_def sample_web_def one_peer_def)

lemma sample_puts: "will_put (dm_config sample_daemon) sample_web k = Some None"
  using sample_daemon_ok(2)
  by (simp add: will_put_def client_put_key_def node_url_def check_status_def sample_web_def one_peer_def)

lemma sample_honest:
  assumes "marshal_b32 k = node_cid sample_node_block"
  shows "honest_web sample_publisher (dm_config sample_daemon) k sample_web"
proof -
  have "block_route sample_publisher (node_cid sample_node_block) = (200, marshal (block_json (mn_block sample_node_block)) @ [10])"
    using sample_source_ok(2) by (simp add: block_route_def sample_publisher_def)
  then show ?thesis
    using assms sample_found [of k] sample_puts [of k]
    by (auto simp: honest_web_def sample_web_def one_peer_def)
qed

lemma go_next:
  assumes "go_reachable P cap s0 n s" and "go_running s = p # ps" and "starts p = None" and "go_step cap w 0 s = Next s'"
  shows "go_reachable P cap s0 (Suc n) s'"
  by (rule go_reachable.Step [OF assms(1) _ _ assms(4)]) (use assms(2,3) in simp_all)

lemma sample_go_run:
  assumes "\<And>k. marshal_b32 k = node_cid sample_node_block \<Longrightarrow> P k sample_web"
  shows "\<exists>s0 s. go_start sample_daemon (node_cid sample_node_block) sample_web = Inr s0 \<and>
    go_reachable P sem_size s0 8 s \<and> go_running s = [] \<and>
    (\<forall>k. parse_cid (node_cid sample_node_block) = Inr k \<longrightarrow> P k sample_web)"
proof -
  let ?c = "node_cid sample_node_block" and ?k = "mk_key (sha256 (node_bytes sample_node_block))"
  let ?cfg = "dm_config sample_daemon" and ?b = "mn_block sample_node_block"
  have c: "?c = cid_of (node_bytes sample_node_block)" using sample_block(1) by (simp add: block_valid_def)
  then have k: "parse_cid ?c = Inr ?k" "marshal_b32 ?k = ?c" using parse_cid_of by simp_all
  obtain st where put: "store_put (dm_store sample_daemon) ?b = (None, st)"
    using sample_daemon_ok(1) by (simp add: store_put_def)
  let ?st = "\<lambda>dm ps h an. \<lparr>go_daemon = dm, go_running = ps, go_held = h, go_error = None, go_announced = an\<rparr>"
  let ?e = "sample_daemon\<lparr>dm_store := st\<rparr>"
  have answer: "read_answer (wb_block sample_web url) = Inr (?b, sample_node_block)" for url
    using sample_block decode_served [OF valid_block_utf8 [OF sample_block(1)]]
    by (simp add: read_answer_def check_status_def sample_web_def one_peer_def)
  obtain found qs where f: "client_find_peers (dc_client ?cfg) (wb_pick sample_web 0) (wb_find sample_web) ?k = Some (Inr found)"
    "other_peers found (dc_public_ip ?cfg) = sample_peer # qs" using sample_found [of ?k] unfolding found_peer_def by blast
  have p: "client_put_key (dc_client ?cfg) (wb_pick sample_web 1) (wb_put sample_web 0) ?k = Some None"
    using sample_puts [of ?k] by (simp add: will_put_def)
  let ?s0 = "?st sample_daemon [Waiting ?c ?k sample_web] 0 []"
  have "go_reachable P sem_size ?s0 (Suc 0) (?st sample_daemon [Finding ?c ?k sample_web] 1 [])"
    by (rule go_next [OF go_reachable.Start]) (simp, simp, simp add: go_step_def move_def sem_size_def)
  then have "go_reachable P sem_size ?s0 (Suc (Suc 0)) (?st sample_daemon [Fetching ?c ?k sample_web sample_peer] 1 [])"
    by (rule go_next) (simp, simp, simp add: go_step_def move_def f)
  then have "go_reachable P sem_size ?s0 (Suc (Suc (Suc 0))) (?st sample_daemon [Storing ?c ?k sample_web ?b sample_node_block] 1 [])"
    by (rule go_next) (simp, simp, simp add: go_step_def move_def answer)
  then have "go_reachable P sem_size ?s0 (Suc (Suc (Suc (Suc 0)))) (?st ?e [Announcing ?k sample_web sample_node_block] 1 [])"
    by (rule go_next) (simp, simp, simp add: go_step_def move_def put)
  then have "go_reachable P sem_size ?s0 (Suc (Suc (Suc (Suc (Suc 0))))) (?st ?e [Starting []] 1 [?k])"
    by (rule go_next) (simp, simp, simp add: go_step_def move_def p [simplified] sample_block(3))
  then have "go_reachable P sem_size ?s0 (Suc (Suc (Suc (Suc (Suc (Suc 0)))))) (?st ?e [Returning None] 1 [?k])"
    by (rule go_next) (simp, simp, simp add: go_step_def move_def)
  then have "go_reachable P sem_size ?s0 (Suc (Suc (Suc (Suc (Suc (Suc (Suc 0))))))) (?st ?e [Reporting None] 0 [?k])"
    by (rule go_next) (simp, simp, simp add: go_step_def move_def)
  then have "go_reachable P sem_size ?s0 (Suc (Suc (Suc (Suc (Suc (Suc (Suc (Suc 0)))))))) (?st ?e [] 0 [?k])"
    by (rule go_next) (simp, simp, simp add: go_step_def)
  moreover have "go_start sample_daemon ?c sample_web = Inr ?s0" using k(1) by (simp add: go_start_def)
  moreover have "\<forall>k. parse_cid ?c = Inr k \<longrightarrow> P k sample_web" using k assms by simp
  ultimately have "go_start sample_daemon ?c sample_web = Inr ?s0 \<and> go_reachable P sem_size ?s0 8 (?st ?e [] 0 [?k]) \<and>
      go_running (?st ?e [] 0 [?k]) = [] \<and> (\<forall>k. parse_cid ?c = Inr k \<longrightarrow> P k sample_web)"
    by (simp add: eval_nat_numeral)
  then show ?thesis by (intro exI)
qed

lemma sample_dag: "dag 1 (dm_store sample_publisher) (node_cid sample_node_block) =
    Some (Inr ([node_cid sample_node_block], length (node_bytes sample_node_block)))"
  using sample_source_ok(3) by (simp add: sample_publisher_def)

theorem goroutines_refine_witness:
  "\<exists>s0 s t0 m t. go_start sample_daemon (node_cid sample_node_block) sample_web = Inr s0 \<and>
     go_reachable (\<lambda>_ w. w = sample_web) sem_size s0 8 s \<and> go_running s = [] \<and>
     start_download sample_daemon (node_cid sample_node_block) = Inr t0 \<and>
     dl_reachable (\<lambda>_ w. w = sample_web) t0 m t \<and> dl_daemon t = go_daemon s \<and> dl_pending t = []"
proof -
  obtain s0 s where s: "go_start sample_daemon (node_cid sample_node_block) sample_web = Inr s0"
    "go_reachable (\<lambda>_ w. w = sample_web) sem_size s0 8 s" "go_running s = []"
    "\<forall>k. parse_cid (node_cid sample_node_block) = Inr k \<longrightarrow> sample_web = sample_web"
    using sample_go_run [of "\<lambda>_ w. w = sample_web"] by blast
  from goroutines_refine [OF s(1,2,4)] show ?thesis using s(1-3) by blast
qed

theorem semaphore_safe_witness:
  "\<exists>s0 s. go_start sample_daemon (node_cid sample_node_block) sample_web = Inr s0 \<and>
     go_reachable (\<lambda>_ w. w = sample_web) sem_size s0 8 s \<and> go_held s = 0"
proof -
  obtain s0 s where s: "go_start sample_daemon (node_cid sample_node_block) sample_web = Inr s0"
    "go_reachable (\<lambda>_ w. w = sample_web) sem_size s0 8 s" "go_running s = []"
    using sample_go_run [of "\<lambda>_ w. w = sample_web"] by blast
  from semaphore_safe [OF s(1,2)] show ?thesis using s by blast
qed

theorem download_ends_witness:
  "\<exists>s0 s. go_start sample_daemon (node_cid sample_node_block) sample_web = Inr s0 \<and>
     go_reachable (from_source sample_source) sem_size s0 8 s \<and> (8::nat) < 10 * length [node_cid sample_node_block]"
proof -
  have src: "from_source sample_source k sample_web" if "marshal_b32 k = node_cid sample_node_block" for k
    using honest_from_source [OF sample_honest [OF that]] sample_source_ok(1) by (simp add: sample_publisher_def)
  obtain s0 s where s: "go_start sample_daemon (node_cid sample_node_block) sample_web = Inr s0"
    "go_reachable (from_source sample_source) sem_size s0 8 s"
    "\<forall>k. parse_cid (node_cid sample_node_block) = Inr k \<longrightarrow> from_source sample_source k sample_web"
    using sample_go_run [of "from_source sample_source", OF src] by blast
  from download_ends [OF s(1) sample_source_ok(1,3) s(3,2)] show ?thesis using s(1,2) by blast
qed

theorem download_transfers_witness:
  "\<exists>s0 s. go_start sample_daemon (node_cid sample_node_block) sample_web = Inr s0 \<and>
     go_reachable (honest_web sample_publisher (dm_config sample_daemon)) sem_size s0 8 s \<and> go_running s = [] \<and> go_error s = None"
proof -
  obtain s0 s where s: "go_start sample_daemon (node_cid sample_node_block) sample_web = Inr s0"
    "go_reachable (honest_web sample_publisher (dm_config sample_daemon)) sem_size s0 8 s" "go_running s = []"
    "\<forall>k. parse_cid (node_cid sample_node_block) = Inr k \<longrightarrow> honest_web sample_publisher (dm_config sample_daemon) k sample_web"
    using sample_go_run [of "honest_web sample_publisher (dm_config sample_daemon)", OF sample_honest] by blast
  have "rows_inv (dm_store sample_publisher)" using sample_source_ok(1) by (simp add: sample_publisher_def)
  from download_transfers [OF s(1) sample_daemon_ok(4,1) this sample_dag s(4,2)] show ?thesis using s(1-3) by blast
qed

end
