(* ===== verification/Daemon_Life.thy ===== *)
theory Daemon_Life
  imports Daemon
begin

text \<open>
  Starting and stopping a daemon (\<^verbatim>\<open>Start\<close> and \<^verbatim>\<open>Stop\<close> in \<^verbatim>\<open>daemon.go\<close>): its public listener, its private
  one, and the goroutine that accepts private connections and, as its first act, stores the listener
  in the daemon.  \<^verbatim>\<open>os.Exit\<close> is the error of an operation that ends the process.
\<close>

datatype acceptor = NotStarted | Scheduled | Accepting | AcceptorEnded

record serving =
  sv_daemon :: daemon
  sv_public :: bool           \<comment> \<open>the public listener is open\<close>
  sv_private :: bool          \<comment> \<open>the private listener is open\<close>
  sv_private_set :: bool      \<comment> \<open>the field \<^verbatim>\<open>privateL\<close> is not nil\<close>
  sv_acceptor :: acceptor

definition not_serving :: "daemon \<Rightarrow> serving" where
  "not_serving d =
     \<lparr>sv_daemon = d, sv_public = False, sv_private = False, sv_private_set = False, sv_acceptor = NotStarted\<rparr>"

text \<open>\<open>public_ok\<close> and \<open>private_ok\<close> say whether the operating system gives the listeners.\<close>

definition daemon_start :: "bool \<Rightarrow> bool \<Rightarrow> serving \<Rightarrow> error + serving" where
  "daemon_start public_ok private_ok s =
     (if \<not> public_ok then Inl OsError
      else if \<not> private_ok then Inl OsError
      else Inr (s\<lparr>sv_public := True, sv_private := True, sv_acceptor := Scheduled\<rparr>))"

text \<open>The goroutine: it runs for the first time, and its \<^verbatim>\<open>Accept\<close> fails once the listener is closed.\<close>

definition accept_op :: "serving \<Rightarrow> serving option" where
  "accept_op s =
     (case sv_acceptor s of
        Scheduled \<Rightarrow> Some (s\<lparr>sv_private_set := True, sv_acceptor := Accepting\<rparr>)
      | Accepting \<Rightarrow> if sv_private s then None else Some (s\<lparr>sv_acceptor := AcceptorEnded\<rparr>)
      | _ \<Rightarrow> None)"

text \<open>\<open>None\<close>: the call on the nil listener panics.\<close>

definition daemon_stop :: "serving \<Rightarrow> (error option \<times> serving) option" where
  "daemon_stop s =
     (let d = sv_daemon s; s1 = s\<lparr>sv_daemon := d\<lparr>dm_store := store_close (dm_store d)\<rparr>, sv_public := False\<rparr> in
      if \<not> sv_private_set s1 then None
      else if \<not> sv_private s1 then Some (Some OsError, s1)
      else Some (None, s1\<lparr>sv_private := False\<rparr>))"

lemma add_bytes_closed:
  assumes "\<not> st_open s"
  shows "\<exists>e. fst (add_bytes s data) = Inl e"
proof -
  have "data_chunks data \<noteq> []"
    by (simp add: data_chunks_def chunks.simps split: option.split)
  then obtain c cs where "data_chunks data = c # cs"
    by (cases "data_chunks data") auto
  moreover have "fst (store_put s b) = Some StoreFailed" for b
    using assms by (simp add: store_put_def)
  ultimately show ?thesis
    using assms by (auto simp: add_bytes_def Let_def store_put_def split: sum.split)
qed

text \<open>
  Stopping a daemon. Once the accepting goroutine of a started daemon has run, \<^verbatim>\<open>Stop\<close> closes both
  listeners without an error, the goroutine ends, no block is served and nothing is added any more,
  and a second \<^verbatim>\<open>Stop\<close> is an error. Before the goroutine has run, \<^verbatim>\<open>Stop\<close> panics on the listener that
  is still nil, as it does for a daemon that was never started.
\<close>

theorem daemon_stop_closes:
  assumes "daemon_start True True (not_serving d) = Inr s"
  shows "daemon_stop (not_serving d) = None \<and> daemon_stop s = None \<and>
    (\<exists>s1 s2 s3 s4. accept_op s = Some s1 \<and> daemon_stop s1 = Some (None, s2) \<and> \<not> sv_public s2 \<and> \<not> sv_private s2 \<and>
       accept_op s2 = Some s3 \<and> sv_acceptor s3 = AcceptorEnded \<and> daemon_stop s2 = Some (Some OsError, s4) \<and>
       (\<forall>c. block_route (sv_daemon s2) c = (500, [])) \<and>
       (\<forall>bytes. \<exists>e. fst (daemon_add_bytes (sv_daemon s2) bytes) = Inl e))"
proof -
  let ?d = "d\<lparr>dm_store := store_close (dm_store d)\<rparr>"
  have "\<not> st_open (dm_store ?d)"
    by (simp add: store_close_def)
  then have closed: "block_route ?d c = (500, [])" "\<exists>e. fst (daemon_add_bytes ?d bytes) = Inl e" for c bytes
    using add_bytes_closed [of "dm_store ?d" bytes]
    by (auto simp: block_route_def store_get_def daemon_add_bytes_def split: prod.split)
  have s: "s = not_serving d\<lparr>sv_public := True, sv_private := True, sv_acceptor := Scheduled\<rparr>"
    using assms by (simp add: daemon_start_def)
  show ?thesis
    using closed unfolding s by (simp add: daemon_stop_def accept_op_def not_serving_def Let_def)
qed

theorem daemon_stop_closes_witness:
  "daemon_stop (not_serving \<lparr>dm_config = default_daemon_config, dm_store = new_store\<rparr>) = None"
  by (rule conjunct1 [OF daemon_stop_closes [of "\<lparr>dm_config = default_daemon_config, dm_store = new_store\<rparr>"
        "not_serving \<lparr>dm_config = default_daemon_config, dm_store = new_store\<rparr>
          \<lparr>sv_public := True, sv_private := True, sv_acceptor := Scheduled\<rparr>"]])
    (simp add: daemon_start_def)

end
