(* ===== verification/Lifecycle.thy ===== *)
theory Lifecycle
  imports Inu_Prelude
begin

text \<open>
  Starting and stopping a node (\<^verbatim>\<open>Start\<close>, \<^verbatim>\<open>Stop\<close> and the loops of \<^verbatim>\<open>refresh\<close> and \<^verbatim>\<open>republish\<close> in
  \<^verbatim>\<open>dht/node.go\<close>) as a step relation over the goroutines that take part: any number of calls of
  \<^verbatim>\<open>Stop\<close>, the two periodic loops and the goroutine of the server.  Each step is one atomic operation, or
  one exchange on an unbuffered channel, which takes both sides at once.
\<close>

text \<open>
  A loop waits in its \<^verbatim>\<open>select\<close>, works on a tick, or has received the stop and is about to
  acknowledge it.
\<close>

datatype loop = Absent | Waiting | Working | Acking | Gone

text \<open>Where a call of \<^verbatim>\<open>Stop\<close> is; \<open>Back b\<close> has returned, with \<open>b\<close> if it found the node started.\<close>

datatype stop_pc =
    LoadStarted | LoadShutdown | Swap | Polling
  | SendRefresh | RecvRefresh | CloseRefresh
  | SendRepublish | RecvRepublish | CloseRepublish
  | CloseServer | StoreShutdown | Back bool

text \<open>
  Where the goroutine is that \<^verbatim>\<open>Start\<close> gives the listener to: before \<^verbatim>\<open>ServeTLS\<close> has handed the listener
  to the server, which is when \<^verbatim>\<open>Close\<close> can close it, in the loop that accepts, or returned.
\<close>

datatype server_pc = NoServer | Entering | Serving | Returned

record life =
  lf_started :: bool
  lf_in_shutdown :: bool
  lf_shutdown :: bool
  lf_refresh :: loop
  lf_refresh_open :: bool          \<comment> \<open>the two channels of the loop are not closed\<close>
  lf_republish :: loop
  lf_republish_open :: bool
  lf_listening :: bool             \<comment> \<open>the listener is open\<close>
  lf_server :: server_pc
  lf_server_closed :: bool
  lf_starting :: nat               \<comment> \<open>calls of \<^verbatim>\<open>Start\<close> before their deferred store\<close>
  lf_stops :: "stop_pc list"
  lf_panicked :: bool

definition new_life :: life where
  "new_life =
     \<lparr>lf_started = False, lf_in_shutdown = False, lf_shutdown = False, lf_refresh = Absent, lf_refresh_open = True,
      lf_republish = Absent, lf_republish_open = True, lf_listening = False, lf_server = NoServer, lf_server_closed = False,
      lf_starting = 0, lf_stops = [], lf_panicked = False\<rparr>"

text \<open>\<^verbatim>\<open>Start\<close>: its listen fails on an address that is in use.\<close>

definition start_listen :: "life \<Rightarrow> error + life" where
  "start_listen s =
     (if lf_listening s then Inl OsError
      else Inr (s\<lparr>lf_listening := True, lf_server := Entering, lf_refresh := Waiting, lf_republish := Waiting,
        lf_starting := lf_starting s + 1\<rparr>))"

definition start_return :: "life \<Rightarrow> life" where
  "start_return s = s\<lparr>lf_started := True, lf_starting := lf_starting s - 1\<rparr>"

text \<open>
  One operation of the call number \<open>i\<close> of \<^verbatim>\<open>Stop\<close>; \<open>None\<close> where it has to wait.  Sending on a closed
  channel and closing one panic.  Closing the server closes a listener that the server has.
\<close>

definition panic :: "life \<Rightarrow> life" where
  "panic s = s\<lparr>lf_panicked := True\<rparr>"

definition goto :: "nat \<Rightarrow> stop_pc \<Rightarrow> life \<Rightarrow> life" where
  "goto i pc s = s\<lparr>lf_stops := (lf_stops s)[i := pc]\<rparr>"

fun stop_at :: "nat \<Rightarrow> stop_pc \<Rightarrow> life \<Rightarrow> life option" where
  "stop_at i LoadStarted s = Some (goto i (if \<not> lf_started s then Back False else LoadShutdown) s)"
| "stop_at i LoadShutdown s = Some (goto i (if lf_shutdown s then Back True else Swap) s)"
| "stop_at i Swap s =
     (if lf_in_shutdown s then Some (goto i Polling s)
      else Some (goto i SendRefresh (s\<lparr>lf_in_shutdown := True\<rparr>)))"
| "stop_at i Polling s = (if lf_shutdown s then Some (goto i (Back True) s) else None)"
| "stop_at i SendRefresh s =
     (if \<not> lf_refresh_open s then Some (panic s)
      else if lf_refresh s = Waiting then Some (goto i RecvRefresh (s\<lparr>lf_refresh := Acking\<rparr>)) else None)"
| "stop_at i RecvRefresh s =
     (if \<not> lf_refresh_open s then Some (goto i CloseRefresh s)
      else if lf_refresh s = Acking then Some (goto i CloseRefresh (s\<lparr>lf_refresh := Gone\<rparr>)) else None)"
| "stop_at i CloseRefresh s =
     (if \<not> lf_refresh_open s then Some (panic s) else Some (goto i SendRepublish (s\<lparr>lf_refresh_open := False\<rparr>)))"
| "stop_at i SendRepublish s =
     (if \<not> lf_republish_open s then Some (panic s)
      else if lf_republish s = Waiting then Some (goto i RecvRepublish (s\<lparr>lf_republish := Acking\<rparr>)) else None)"
| "stop_at i RecvRepublish s =
     (if \<not> lf_republish_open s then Some (goto i CloseRepublish s)
      else if lf_republish s = Acking then Some (goto i CloseRepublish (s\<lparr>lf_republish := Gone\<rparr>)) else None)"
| "stop_at i CloseRepublish s =
     (if \<not> lf_republish_open s then Some (panic s) else Some (goto i CloseServer (s\<lparr>lf_republish_open := False\<rparr>)))"
| "stop_at i CloseServer s =
     Some (goto i StoreShutdown
       (s\<lparr>lf_server_closed := True, lf_listening := (if lf_server s = Serving then False else lf_listening s)\<rparr>))"
| "stop_at i StoreShutdown s = Some (goto i (Back True) (s\<lparr>lf_shutdown := True\<rparr>))"
| "stop_at i (Back b) s = None"

definition stop_op :: "nat \<Rightarrow> life \<Rightarrow> life option" where
  "stop_op i s = stop_at i (lf_stops s ! i) s"

text \<open>
  The loops: a tick begins and ends the work; a receive on the closed channel succeeds at once, and
  the acknowledgement that follows is a send on a closed channel.  On the open channels the loop
  meets the operations of \<^verbatim>\<open>Stop\<close> above.
\<close>

fun refresh_at_loop :: "bool \<Rightarrow> loop \<Rightarrow> life \<Rightarrow> life option" where
  "refresh_at_loop tick Waiting s =
     (if tick then Some (s\<lparr>lf_refresh := Working\<rparr>)
      else if lf_refresh_open s then None else Some (s\<lparr>lf_refresh := Acking\<rparr>))"
| "refresh_at_loop tick Working s = Some (s\<lparr>lf_refresh := Waiting\<rparr>)"
| "refresh_at_loop tick Acking s = (if lf_refresh_open s then None else Some (panic s))"
| "refresh_at_loop tick Absent s = None"
| "refresh_at_loop tick Gone s = None"

definition refresh_op :: "bool \<Rightarrow> life \<Rightarrow> life option" where
  "refresh_op tick s = refresh_at_loop tick (lf_refresh s) s"

fun republish_at_loop :: "bool \<Rightarrow> loop \<Rightarrow> life \<Rightarrow> life option" where
  "republish_at_loop tick Waiting s =
     (if tick then Some (s\<lparr>lf_republish := Working\<rparr>)
      else if lf_republish_open s then None else Some (s\<lparr>lf_republish := Acking\<rparr>))"
| "republish_at_loop tick Working s = Some (s\<lparr>lf_republish := Waiting\<rparr>)"
| "republish_at_loop tick Acking s = (if lf_republish_open s then None else Some (panic s))"
| "republish_at_loop tick Absent s = None"
| "republish_at_loop tick Gone s = None"

definition republish_op :: "bool \<Rightarrow> life \<Rightarrow> life option" where
  "republish_op tick s = republish_at_loop tick (lf_republish s) s"

text \<open>
  The goroutine of the server: a server that was closed before it got the listener closes it and
  returns; one that serves returns when it was closed.
\<close>

fun serve_at :: "server_pc \<Rightarrow> life \<Rightarrow> life option" where
  "serve_at NoServer s = None"
| "serve_at Entering s =
     (if lf_server_closed s then Some (s\<lparr>lf_listening := False, lf_server := Returned\<rparr>) else Some (s\<lparr>lf_server := Serving\<rparr>))"
| "serve_at Serving s = (if lf_server_closed s then Some (s\<lparr>lf_server := Returned\<rparr>) else None)"
| "serve_at Returned s = None"

definition serve_op :: "life \<Rightarrow> life option" where
  "serve_op s = serve_at (lf_server s) s"

text \<open>
  With \<open>once\<close>, \<^verbatim>\<open>Start\<close> is not called again after it has succeeded.  With \<open>fragile\<close>, the work on a tick
  can panic, as it does when the node's alpha is not positive or a contact has a key outside its
  buckets.  A panic ends the process.
\<close>

inductive life_step :: "bool \<Rightarrow> bool \<Rightarrow> life \<Rightarrow> life \<Rightarrow> bool" for once fragile where
  Start: "\<lbrakk>\<not> lf_panicked s; once \<longrightarrow> lf_refresh s = Absent; start_listen s = Inr s'\<rbrakk> \<Longrightarrow> life_step once fragile s s'"
| Started: "\<lbrakk>\<not> lf_panicked s; 0 < lf_starting s\<rbrakk> \<Longrightarrow> life_step once fragile s (start_return s)"
| Call: "\<not> lf_panicked s \<Longrightarrow> life_step once fragile s (s\<lparr>lf_stops := lf_stops s @ [LoadStarted]\<rparr>)"
| Stop: "\<lbrakk>\<not> lf_panicked s; i < length (lf_stops s); stop_op i s = Some s'\<rbrakk> \<Longrightarrow> life_step once fragile s s'"
| Refresh: "\<lbrakk>\<not> lf_panicked s; refresh_op tick s = Some s'\<rbrakk> \<Longrightarrow> life_step once fragile s s'"
| Republish: "\<lbrakk>\<not> lf_panicked s; republish_op tick s = Some s'\<rbrakk> \<Longrightarrow> life_step once fragile s s'"
| Serve: "\<lbrakk>\<not> lf_panicked s; serve_op s = Some s'\<rbrakk> \<Longrightarrow> life_step once fragile s s'"
| Work_Panics: "\<lbrakk>\<not> lf_panicked s; fragile; lf_refresh s = Working \<or> lf_republish s = Working\<rbrakk> \<Longrightarrow> life_step once fragile s (panic s)"

inductive life_reachable :: "bool \<Rightarrow> bool \<Rightarrow> life \<Rightarrow> bool" for once fragile where
  New: "life_reachable once fragile new_life"
| Step: "life_reachable once fragile s \<Longrightarrow> life_step once fragile s s' \<Longrightarrow> life_reachable once fragile s'"

subsection \<open>The invariant of a node that is started once\<close>

fun in_section :: "stop_pc \<Rightarrow> bool" where
  "in_section LoadStarted \<longleftrightarrow> False"
| "in_section LoadShutdown \<longleftrightarrow> False"
| "in_section Swap \<longleftrightarrow> False"
| "in_section Polling \<longleftrightarrow> False"
| "in_section (Back b) \<longleftrightarrow> False"
| "in_section _ \<longleftrightarrow> True"

text \<open>The loops, channels and server at each place of the call that shuts down.\<close>

fun running :: "loop \<Rightarrow> bool" where
  "running l \<longleftrightarrow> l = Waiting \<or> l = Working"

fun refresh_at :: "stop_pc \<Rightarrow> loop \<Rightarrow> bool \<Rightarrow> bool" where
  "refresh_at SendRefresh l opn \<longleftrightarrow> running l \<and> opn"
| "refresh_at RecvRefresh l opn \<longleftrightarrow> l = Acking \<and> opn"
| "refresh_at CloseRefresh l opn \<longleftrightarrow> l = Gone \<and> opn"
| "refresh_at _ l opn \<longleftrightarrow> l = Gone \<and> \<not> opn"

fun republish_at :: "stop_pc \<Rightarrow> loop \<Rightarrow> bool \<Rightarrow> bool" where
  "republish_at RecvRepublish l opn \<longleftrightarrow> l = Acking \<and> opn"
| "republish_at CloseRepublish l opn \<longleftrightarrow> l = Gone \<and> opn"
| "republish_at CloseServer l opn \<longleftrightarrow> l = Gone \<and> \<not> opn"
| "republish_at StoreShutdown l opn \<longleftrightarrow> l = Gone \<and> \<not> opn"
| "republish_at _ l opn \<longleftrightarrow> running l \<and> opn"

text \<open>The listener is open until the server is closed, and after that until a server that has not got it closes it.\<close>

definition server_fits :: "life \<Rightarrow> bool" where
  "server_fits s \<longleftrightarrow>
     (case lf_server s of
        NoServer \<Rightarrow> False
      | Entering \<Rightarrow> lf_listening s
      | Serving \<Rightarrow> lf_listening s = (\<not> lf_server_closed s)
      | Returned \<Rightarrow> lf_server_closed s \<and> \<not> lf_listening s)"

definition at_place :: "stop_pc \<Rightarrow> life \<Rightarrow> bool" where
  "at_place pc s \<longleftrightarrow>
     refresh_at pc (lf_refresh s) (lf_refresh_open s) \<and> republish_at pc (lf_republish s) (lf_republish_open s) \<and>
     lf_server_closed s = (pc = StoreShutdown) \<and> server_fits s"

definition fresh :: "life \<Rightarrow> bool" where
  "fresh s \<longleftrightarrow> lf_refresh s = Absent \<and> lf_republish s = Absent \<and> lf_refresh_open s \<and> lf_republish_open s \<and>
     \<not> lf_listening s \<and> lf_server s = NoServer \<and> \<not> lf_server_closed s \<and> \<not> lf_started s \<and> lf_starting s = 0 \<and>
     \<not> lf_in_shutdown s \<and> \<not> lf_shutdown s"

definition up :: "life \<Rightarrow> bool" where
  "up s \<longleftrightarrow> running (lf_refresh s) \<and> running (lf_republish s) \<and> lf_refresh_open s \<and> lf_republish_open s \<and>
     server_fits s \<and> \<not> lf_server_closed s \<and> \<not> lf_in_shutdown s \<and> \<not> lf_shutdown s"

definition down :: "life \<Rightarrow> bool" where
  "down s \<longleftrightarrow> lf_refresh s = Gone \<and> lf_republish s = Gone \<and> \<not> lf_refresh_open s \<and> \<not> lf_republish_open s \<and>
     server_fits s \<and> lf_server_closed s"

text \<open>Fresh, up, shutting down in exactly one call, or down.\<close>

definition life_inv :: "life \<Rightarrow> bool" where
  "life_inv s \<longleftrightarrow> \<not> lf_panicked s \<and>
     (fresh s \<and> (\<forall>pc \<in> set (lf_stops s). pc = LoadStarted \<or> pc = Back False) \<or>
      up s \<and> (\<forall>pc \<in> set (lf_stops s). pc = LoadStarted \<or> pc = Back False \<or> lf_started s \<and> (pc = LoadShutdown \<or> pc = Swap)) \<or>
      lf_in_shutdown s \<and> \<not> lf_shutdown s \<and> lf_started s \<and>
        (\<exists>i < length (lf_stops s). in_section (lf_stops s ! i) \<and> at_place (lf_stops s ! i) s \<and>
          (\<forall>j < length (lf_stops s). j \<noteq> i \<longrightarrow> lf_stops s ! j \<in> {LoadStarted, LoadShutdown, Swap, Polling, Back False})) \<or>
      down s \<and> lf_in_shutdown s \<and> lf_shutdown s \<and> lf_started s \<and> (\<forall>pc \<in> set (lf_stops s). \<not> in_section pc))"

lemma fits_update [simp]:
  "server_fits (s\<lparr>lf_stops := x\<rparr>) = server_fits s" "server_fits (s\<lparr>lf_started := b\<rparr>) = server_fits s"
  "server_fits (s\<lparr>lf_starting := n\<rparr>) = server_fits s" "server_fits (s\<lparr>lf_in_shutdown := b\<rparr>) = server_fits s"
  "server_fits (s\<lparr>lf_shutdown := b\<rparr>) = server_fits s" "server_fits (s\<lparr>lf_refresh := l\<rparr>) = server_fits s"
  "server_fits (s\<lparr>lf_republish := l\<rparr>) = server_fits s" "server_fits (s\<lparr>lf_refresh_open := b\<rparr>) = server_fits s"
  "server_fits (s\<lparr>lf_republish_open := b\<rparr>) = server_fits s" "server_fits (s\<lparr>lf_panicked := b\<rparr>) = server_fits s"
  by (simp_all add: server_fits_def split: server_pc.split)

lemma fits_closed: "server_fits s \<Longrightarrow> \<not> lf_server_closed s \<Longrightarrow>
    (lf_server s = Serving \<longrightarrow> server_fits (s\<lparr>lf_server_closed := True, lf_listening := False\<rparr>)) \<and>
    (lf_server s \<noteq> Serving \<longrightarrow> server_fits (s\<lparr>lf_server_closed := True\<rparr>))"
  by (simp add: server_fits_def split: server_pc.splits)

lemma place_update [simp]:
  "at_place pc (s\<lparr>lf_stops := x\<rparr>) = at_place pc s" "at_place pc (s\<lparr>lf_started := b\<rparr>) = at_place pc s"
  "at_place pc (s\<lparr>lf_starting := n\<rparr>) = at_place pc s" "at_place pc (s\<lparr>lf_in_shutdown := b\<rparr>) = at_place pc s"
  by (simp_all add: at_place_def)

lemma phase_update [simp]:
  "fresh (s\<lparr>lf_stops := x\<rparr>) = fresh s" "up (s\<lparr>lf_stops := x\<rparr>) = up s" "down (s\<lparr>lf_stops := x\<rparr>) = down s"
  "up (s\<lparr>lf_started := b\<rparr>) = up s" "up (s\<lparr>lf_starting := n\<rparr>) = up s"
  "down (s\<lparr>lf_started := b\<rparr>) = down s" "down (s\<lparr>lf_starting := n\<rparr>) = down s"
  by (simp_all add: fresh_def up_def down_def)

lemma life_inv_cases:
  assumes "life_inv s"
  obtains (Fresh) "fresh s" "\<forall>pc \<in> set (lf_stops s). pc = LoadStarted \<or> pc = Back False"
    | (Up) "up s" "\<forall>pc \<in> set (lf_stops s). pc = LoadStarted \<or> pc = Back False \<or> lf_started s \<and> (pc = LoadShutdown \<or> pc = Swap)"
    | (Section) i where "lf_in_shutdown s" "\<not> lf_shutdown s" "lf_started s" "i < length (lf_stops s)"
        "in_section (lf_stops s ! i)" "at_place (lf_stops s ! i) s"
        "\<forall>j < length (lf_stops s). j \<noteq> i \<longrightarrow> lf_stops s ! j \<in> {LoadStarted, LoadShutdown, Swap, Polling, Back False}"
    | (Down) "down s" "lf_in_shutdown s" "lf_shutdown s" "lf_started s" "\<forall>pc \<in> set (lf_stops s). \<not> in_section pc"
  using assms unfolding life_inv_def by (elim disjE conjE exE) (use that in simp_all)

lemma inv_panicked: "life_inv s \<Longrightarrow> \<not> lf_panicked s"
  by (simp add: life_inv_def)

lemma inv_freshI:
  "\<not> lf_panicked s \<Longrightarrow> fresh s \<Longrightarrow> (\<And>pc. pc \<in> set (lf_stops s) \<Longrightarrow> pc = LoadStarted \<or> pc = Back False) \<Longrightarrow> life_inv s"
  unfolding life_inv_def by blast

lemma inv_upI:
  "\<not> lf_panicked s \<Longrightarrow> up s \<Longrightarrow>
   (\<And>pc. pc \<in> set (lf_stops s) \<Longrightarrow> pc = LoadStarted \<or> pc = Back False \<or> lf_started s \<and> (pc = LoadShutdown \<or> pc = Swap)) \<Longrightarrow>
   life_inv s"
  unfolding life_inv_def by blast

lemma inv_sectionI:
  "\<not> lf_panicked s \<Longrightarrow> lf_in_shutdown s \<Longrightarrow> \<not> lf_shutdown s \<Longrightarrow> lf_started s \<Longrightarrow> i < length (lf_stops s) \<Longrightarrow>
   in_section (lf_stops s ! i) \<Longrightarrow> at_place (lf_stops s ! i) s \<Longrightarrow>
   (\<And>j. j < length (lf_stops s) \<Longrightarrow> j \<noteq> i \<Longrightarrow> lf_stops s ! j \<in> {LoadStarted, LoadShutdown, Swap, Polling, Back False}) \<Longrightarrow>
   life_inv s"
  unfolding life_inv_def by blast

lemma inv_downI:
  "\<not> lf_panicked s \<Longrightarrow> down s \<Longrightarrow> lf_in_shutdown s \<Longrightarrow> lf_shutdown s \<Longrightarrow> lf_started s \<Longrightarrow>
   (\<And>pc. pc \<in> set (lf_stops s) \<Longrightarrow> \<not> in_section pc) \<Longrightarrow> life_inv s"
  unfolding life_inv_def by blast

lemma life_inv_new: "life_inv new_life"
  by (rule inv_freshI) (simp_all add: new_life_def fresh_def)

lemma section_started: "in_section pc \<Longrightarrow> at_place pc s \<Longrightarrow> lf_refresh s \<noteq> Absent"
  by (cases pc) (auto simp: at_place_def)

lemma inv_start:
  assumes inv: "life_inv s" and no: "lf_refresh s = Absent" and st: "start_listen s = Inr s'"
  shows "life_inv s'"
  using inv
proof (cases rule: life_inv_cases)
  case Fresh
  have eq: "s' = s\<lparr>lf_listening := True, lf_server := Entering, lf_refresh := Waiting, lf_republish := Waiting, lf_starting := lf_starting s + 1\<rparr>"
    using st by (simp add: start_listen_def split: if_splits)
  have "up s'"
    using Fresh(1) unfolding eq by (simp add: up_def fresh_def server_fits_def)
  with Fresh(2) show ?thesis
    using inv_panicked [OF inv] by (intro inv_upI) (auto simp: eq)
next
  case Up
  then show ?thesis using no by (simp add: up_def)
next
  case (Section i)
  then show ?thesis using no section_started by blast
next
  case Down
  then show ?thesis using no by (simp add: down_def)
qed

lemma inv_started:
  assumes inv: "life_inv s" and st: "0 < lf_starting s"
  shows "life_inv (start_return s)"
proof -
  note np = inv_panicked [OF inv]
  show ?thesis
    using inv
  proof (cases rule: life_inv_cases)
    case Fresh
    then show ?thesis using st by (simp add: fresh_def)
  next
    case Up
    then show ?thesis using np by (intro inv_upI) (auto simp: start_return_def)
  next
    case (Section i)
    then show ?thesis using np by (intro inv_sectionI [of _ i]) (simp_all add: start_return_def)
  next
    case Down
    then show ?thesis using np by (intro inv_downI) (simp_all add: start_return_def)
  qed
qed

lemma inv_call:
  assumes inv: "life_inv s"
  shows "life_inv (s\<lparr>lf_stops := lf_stops s @ [LoadStarted]\<rparr>)"
proof -
  note np = inv_panicked [OF inv]
  show ?thesis
    using inv
  proof (cases rule: life_inv_cases)
    case Fresh
    then show ?thesis using np by (intro inv_freshI) auto
  next
    case Up
    then show ?thesis using np by (intro inv_upI) auto
  next
    case (Section i)
    then show ?thesis using np by (intro inv_sectionI [of _ i]) (auto simp: nth_append less_Suc_eq)
  next
    case Down
    then show ?thesis using np by (intro inv_downI) auto
  qed
qed

lemma set_updateD: "pc \<in> set (xs[i := x]) \<Longrightarrow> pc = x \<or> pc \<in> set xs"
  using set_update_subset_insert by fastforce

lemma goto_stops [simp]: "lf_stops (goto i pc s) = (lf_stops s)[i := pc]"
  by (simp add: goto_def)

lemma goto_same [simp]:
  "lf_started (goto i pc s) = lf_started s" "lf_in_shutdown (goto i pc s) = lf_in_shutdown s"
  "lf_shutdown (goto i pc s) = lf_shutdown s" "lf_panicked (goto i pc s) = lf_panicked s"
  "fresh (goto i pc s) = fresh s" "up (goto i pc s) = up s" "down (goto i pc s) = down s"
  "at_place p (goto i pc s) = at_place p s" "lf_refresh (goto i pc s) = lf_refresh s"
  "lf_refresh_open (goto i pc s) = lf_refresh_open s" "lf_republish_open (goto i pc s) = lf_republish_open s"
  "lf_listening (goto i pc s) = lf_listening s" "lf_server (goto i pc s) = lf_server s"
  "server_fits (goto i pc s) = server_fits s" "lf_server_closed (goto i pc s) = lf_server_closed s"
  "lf_republish (goto i pc s) = lf_republish s" "lf_starting (goto i pc s) = lf_starting s"
  by (simp_all add: goto_def)

text \<open>A call outside the section that moves on.\<close>

lemma inv_fresh_goto:
  "life_inv s \<Longrightarrow> fresh s \<Longrightarrow> (\<forall>pc \<in> set (lf_stops s). pc = LoadStarted \<or> pc = Back False) \<Longrightarrow>
   pc = Back False \<Longrightarrow> life_inv (goto i pc s)"
  by (rule inv_freshI) (auto dest: inv_panicked set_updateD)

lemma inv_up_goto:
  "life_inv s \<Longrightarrow> up s \<Longrightarrow>
   (\<forall>pc \<in> set (lf_stops s). pc = LoadStarted \<or> pc = Back False \<or> lf_started s \<and> (pc = LoadShutdown \<or> pc = Swap)) \<Longrightarrow>
   pc = Back False \<or> lf_started s \<and> (pc = LoadShutdown \<or> pc = Swap) \<Longrightarrow> life_inv (goto i pc s)"
  by (rule inv_upI) (auto dest: inv_panicked set_updateD)

lemma inv_down_goto:
  "life_inv s \<Longrightarrow> down s \<Longrightarrow> lf_in_shutdown s \<Longrightarrow> lf_shutdown s \<Longrightarrow> lf_started s \<Longrightarrow>
   (\<forall>pc \<in> set (lf_stops s). \<not> in_section pc) \<Longrightarrow> \<not> in_section pc \<Longrightarrow> life_inv (goto i pc s)"
  by (rule inv_downI) (auto dest: inv_panicked set_updateD)

text \<open>The state \<open>s'\<close> differs from \<open>s\<close> in the place of the call \<open>i\<close>, which is now \<open>pc\<close> and in the section.\<close>

lemma inv_section_move:
  assumes "life_inv s" "lf_in_shutdown s'" "\<not> lf_shutdown s'" "lf_started s'" "\<not> lf_panicked s'" "i < length (lf_stops s)"
    and "lf_stops s' = (lf_stops s)[i := pc]" "in_section pc" "at_place pc s'"
    and "\<And>j. j < length (lf_stops s) \<Longrightarrow> j \<noteq> i \<Longrightarrow> lf_stops s ! j \<in> {LoadStarted, LoadShutdown, Swap, Polling, Back False}"
  shows "life_inv s'"
  using assms by (intro inv_sectionI [of s' i]) auto

lemma inv_stop_fresh:
  assumes inv: "life_inv s" and i: "i < length (lf_stops s)" and st: "stop_op i s = Some s'"
    and f: "fresh s" and pcs: "\<forall>pc \<in> set (lf_stops s). pc = LoadStarted \<or> pc = Back False"
  shows "life_inv s'"
proof -
  have "lf_stops s ! i = LoadStarted"
    using pcs [rule_format, OF nth_mem [OF i]] st by (elim disjE) (simp_all add: stop_op_def)
  then have "s' = goto i (Back False) s"
    using st f by (simp add: stop_op_def fresh_def)
  then show ?thesis
    using inv_fresh_goto [OF inv f pcs refl] by simp
qed

lemma inv_stop_up:
  assumes inv: "life_inv s" and i: "i < length (lf_stops s)" and st: "stop_op i s = Some s'" and u: "up s"
    and pcs: "\<forall>pc \<in> set (lf_stops s). pc = LoadStarted \<or> pc = Back False \<or> lf_started s \<and> (pc = LoadShutdown \<or> pc = Swap)"
  shows "life_inv s'"
proof -
  note go = inv_up_goto [OF inv u pcs]
  have no: "\<not> lf_shutdown s" "\<not> lf_in_shutdown s"
    using u by (simp_all add: up_def)
  consider "lf_stops s ! i = LoadStarted" | "lf_stops s ! i = LoadShutdown" "lf_started s" | "lf_stops s ! i = Swap" "lf_started s"
    using pcs [rule_format, OF nth_mem [OF i]] st by (elim disjE conjE) (simp_all add: stop_op_def)
  then show ?thesis
  proof cases
    case 1
    then have "s' = goto i (if \<not> lf_started s then Back False else LoadShutdown) s"
      using st by (simp add: stop_op_def)
    then show ?thesis
      using go [of "if \<not> lf_started s then Back False else LoadShutdown"] by simp
  next
    case 2
    then have "s' = goto i Swap s"
      using st no by (simp add: stop_op_def)
    then show ?thesis
      using go [of Swap] 2 by simp
  next
    case 3
    then have eq: "s' = goto i SendRefresh (s\<lparr>lf_in_shutdown := True\<rparr>)"
      using st no by (simp add: stop_op_def)
    have "at_place SendRefresh s"
      using u by (simp add: up_def at_place_def)
    moreover have "lf_stops s ! j \<in> {LoadStarted, LoadShutdown, Swap, Polling, Back False}" if "j < length (lf_stops s)" for j
      using pcs nth_mem [OF that] by auto
    ultimately show ?thesis
      using 3 i no inv_panicked [OF inv] unfolding eq by (intro inv_section_move [OF inv, where i = i and pc = SendRefresh]) simp_all
  qed
qed

lemma inv_stop_down:
  assumes inv: "life_inv s" and i: "i < length (lf_stops s)" and st: "stop_op i s = Some s'" and d: "down s"
    and fl: "lf_in_shutdown s" "lf_shutdown s" "lf_started s" and pcs: "\<forall>pc \<in> set (lf_stops s). \<not> in_section pc"
  shows "life_inv s'"
proof -
  have "\<not> in_section (lf_stops s ! i)"
    using pcs nth_mem [OF i] by blast
  then obtain pc where "s' = goto i pc s" "\<not> in_section pc"
    using st fl unfolding stop_op_def by (cases "lf_stops s ! i") auto
  then show ?thesis
    using inv_down_goto [OF inv d fl pcs] by blast
qed

lemma inv_stop_section:
  assumes inv: "life_inv s" and i: "i < length (lf_stops s)" and st: "stop_op i s = Some s'"
    and fl: "lf_in_shutdown s" "\<not> lf_shutdown s" "lf_started s"
    and k: "k < length (lf_stops s)" "in_section (lf_stops s ! k)" "at_place (lf_stops s ! k) s"
    and oth: "\<forall>j < length (lf_stops s). j \<noteq> k \<longrightarrow> lf_stops s ! j \<in> {LoadStarted, LoadShutdown, Swap, Polling, Back False}"
  shows "life_inv s'"
proof (cases "i = k")
  case True
  note np = inv_panicked [OF inv]
  have down: "\<not> in_section (lf_stops s ! j)" if "j < length (lf_stops s)" "j \<noteq> k" for j
    using oth that by auto
  show ?thesis
  proof (cases "lf_stops s ! k = StoreShutdown")
    case ss: True
    then have eq: "s' = goto i (Back True) (s\<lparr>lf_shutdown := True\<rparr>)"
      using st True by (simp add: stop_op_def)
    have "\<not> in_section ((lf_stops s)[k := Back True] ! j)" if "j < length (lf_stops s)" for j
      using that down by (cases "j = k") simp_all
    then have "\<not> in_section pc" if "pc \<in> set ((lf_stops s)[k := Back True])" for pc
      using that by (auto simp: in_set_conv_nth)
    then show ?thesis
      using ss k fl np True unfolding eq by (intro inv_downI) (simp_all add: down_def at_place_def)
  next
    case False
    obtain pc where "lf_stops s' = (lf_stops s)[i := pc]" "in_section pc" "at_place pc s'"
      "lf_in_shutdown s' = lf_in_shutdown s" "lf_shutdown s' = lf_shutdown s" "lf_started s' = lf_started s" "\<not> lf_panicked s'"
      using st k False True np unfolding stop_op_def
      by (cases "lf_stops s ! k") (auto simp: at_place_def fits_closed split: if_splits)
    then show ?thesis
      using oth i fl True by (intro inv_section_move [OF inv, where i = i and pc = pc]) auto
  qed
next
  case False
  have "lf_stops s ! i \<in> {LoadStarted, LoadShutdown, Swap, Polling, Back False}"
    using oth i False by blast
  then obtain pc where eq: "s' = goto i pc s" and pc: "pc \<in> {LoadStarted, LoadShutdown, Swap, Polling, Back False}"
    using st fl unfolding stop_op_def by auto
  have oth': "(lf_stops s)[i := pc] ! j \<in> {LoadStarted, LoadShutdown, Swap, Polling, Back False}"
    if "j < length (lf_stops s)" "j \<noteq> k" for j
  proof (cases "j = i")
    case True
    with pc that show ?thesis by simp
  next
    case False
    with oth that show ?thesis by (metis nth_list_update_neq)
  qed
  show ?thesis
    using False k fl inv_panicked [OF inv] unfolding eq
    by (intro inv_sectionI [of _ k]) (simp_all only: goto_same goto_stops length_list_update nth_list_update_neq oth' not_False_eq_True)
qed

lemma inv_stop:
  assumes inv: "life_inv s" and i: "i < length (lf_stops s)" and st: "stop_op i s = Some s'"
  shows "life_inv s'"
  using inv
proof (cases rule: life_inv_cases)
  case Fresh
  then show ?thesis by (rule inv_stop_fresh [OF inv i st])
next
  case Up
  then show ?thesis by (rule inv_stop_up [OF inv i st])
next
  case (Section k)
  then show ?thesis by (rule inv_stop_section [OF inv i st])
next
  case Down
  then show ?thesis by (rule inv_stop_down [OF inv i st])
qed

text \<open>A step of a loop keeps each phase.\<close>

lemma refresh_keeps:
  assumes "refresh_op tick s = Some s'"
  shows "fresh s \<Longrightarrow> False" "up s \<Longrightarrow> up s'" "down s \<Longrightarrow> False" "at_place pc s \<Longrightarrow> at_place pc s'"
    "at_place pc s \<Longrightarrow> lf_panicked s' = lf_panicked s" "up s \<Longrightarrow> lf_panicked s' = lf_panicked s"
proof -
  show "fresh s \<Longrightarrow> False" "up s \<Longrightarrow> up s'" "down s \<Longrightarrow> False" "up s \<Longrightarrow> lf_panicked s' = lf_panicked s"
    using assms by (cases "lf_refresh s"; auto simp: refresh_op_def fresh_def up_def down_def split: if_splits)+
  show "at_place pc s \<Longrightarrow> at_place pc s'" "at_place pc s \<Longrightarrow> lf_panicked s' = lf_panicked s"
    using assms by (cases pc; cases "lf_refresh s"; auto simp: refresh_op_def at_place_def split: if_splits)+
qed

lemma refresh_same:
  assumes "refresh_op tick s = Some s'"
  shows "lf_stops s' = lf_stops s \<and> lf_started s' = lf_started s \<and> lf_in_shutdown s' = lf_in_shutdown s \<and>
     lf_shutdown s' = lf_shutdown s"
  using assms by (cases "lf_refresh s") (auto simp: refresh_op_def panic_def split: if_splits)

lemma republish_keeps:
  assumes "republish_op tick s = Some s'"
  shows "fresh s \<Longrightarrow> False" "up s \<Longrightarrow> up s'" "down s \<Longrightarrow> False" "at_place pc s \<Longrightarrow> at_place pc s'"
    "at_place pc s \<Longrightarrow> lf_panicked s' = lf_panicked s" "up s \<Longrightarrow> lf_panicked s' = lf_panicked s"
proof -
  show "fresh s \<Longrightarrow> False" "up s \<Longrightarrow> up s'" "down s \<Longrightarrow> False" "up s \<Longrightarrow> lf_panicked s' = lf_panicked s"
    using assms by (cases "lf_republish s"; auto simp: republish_op_def fresh_def up_def down_def split: if_splits)+
  show "at_place pc s \<Longrightarrow> at_place pc s'" "at_place pc s \<Longrightarrow> lf_panicked s' = lf_panicked s"
    using assms by (cases pc; cases "lf_republish s"; auto simp: republish_op_def at_place_def split: if_splits)+
qed

lemma republish_same:
  assumes "republish_op tick s = Some s'"
  shows "lf_stops s' = lf_stops s \<and> lf_started s' = lf_started s \<and> lf_in_shutdown s' = lf_in_shutdown s \<and>
     lf_shutdown s' = lf_shutdown s"
  using assms by (cases "lf_republish s") (auto simp: republish_op_def panic_def split: if_splits)

lemma inv_loop:
  assumes inv: "life_inv s"
    and same: "lf_stops s' = lf_stops s" "lf_started s' = lf_started s" "lf_in_shutdown s' = lf_in_shutdown s" "lf_shutdown s' = lf_shutdown s"
    and keeps: "fresh s \<Longrightarrow> False" "up s \<Longrightarrow> up s'" "down s \<Longrightarrow> down s' \<and> \<not> lf_panicked s'" "\<And>pc. at_place pc s \<Longrightarrow> at_place pc s'"
      "\<And>pc. at_place pc s \<Longrightarrow> lf_panicked s' = lf_panicked s" "up s \<Longrightarrow> lf_panicked s' = lf_panicked s"
  shows "life_inv s'"
  using inv
proof (cases rule: life_inv_cases)
  case Fresh
  then show ?thesis using keeps by blast
next
  case Up
  then show ?thesis using keeps(2,6) inv_panicked [OF inv] same by (intro inv_upI) auto
next
  case (Section k)
  then show ?thesis
    using keeps(4,5) [OF Section(6)] inv_panicked [OF inv] same by (intro inv_sectionI [of s' k]) simp_all
next
  case Down
  then show ?thesis using keeps(3) same by (intro inv_downI) auto
qed

text \<open>A step of the server keeps each phase.\<close>

lemma serve_keeps:
  assumes "serve_op s = Some s'"
  shows "fresh s \<Longrightarrow> False" "up s \<Longrightarrow> up s'" "down s \<Longrightarrow> down s'" "at_place pc s \<Longrightarrow> at_place pc s'" "lf_panicked s' = lf_panicked s"
proof -
  show "fresh s \<Longrightarrow> False" "up s \<Longrightarrow> up s'" "down s \<Longrightarrow> down s'" "lf_panicked s' = lf_panicked s"
    using assms by (cases "lf_server s"; auto simp: serve_op_def fresh_def up_def down_def server_fits_def split: if_splits)+
  show "at_place pc s \<Longrightarrow> at_place pc s'"
    using assms by (cases "lf_server s"; auto simp: serve_op_def at_place_def server_fits_def split: if_splits)
qed

lemma serve_same:
  assumes "serve_op s = Some s'"
  shows "lf_stops s' = lf_stops s \<and> lf_started s' = lf_started s \<and> lf_in_shutdown s' = lf_in_shutdown s \<and>
     lf_shutdown s' = lf_shutdown s"
  using assms by (cases "lf_server s") (auto simp: serve_op_def split: if_splits)

text \<open>What the steps leave: the invariant, unless the work of a loop has panicked.\<close>

lemma life_inv_step: "life_step True fragile s s' \<Longrightarrow> life_inv s \<Longrightarrow> life_inv s' \<or> fragile \<and> s' = panic s \<and> (lf_refresh s = Working \<or> lf_republish s = Working)"
proof (induction rule: life_step.cases)
  case (Start s s')
  then show ?case using inv_start by blast
next
  case (Refresh s tick s')
  then show ?case
    using inv_loop [of s s'] refresh_same [of tick s s'] refresh_keeps [of tick s s'] by blast
next
  case (Republish s tick s')
  then show ?case
    using inv_loop [of s s'] republish_same [of tick s s'] republish_keeps [of tick s s'] by blast
next
  case (Serve s s')
  then show ?case
    using inv_loop [of s s'] serve_same [of s s'] serve_keeps [of s s'] by blast
qed (simp_all add: inv_started inv_call inv_stop)

lemma life_inv_sound: "life_step True False s s' \<Longrightarrow> life_inv s \<Longrightarrow> life_inv s'"
  using life_inv_step by blast

definition worn :: "life \<Rightarrow> bool" where
  "worn s \<longleftrightarrow> (\<exists>s0. life_inv s0 \<and> s = panic s0 \<and> (lf_refresh s0 = Working \<or> lf_republish s0 = Working))"

lemma life_inv_reachable: "life_reachable True fragile s \<Longrightarrow> life_inv s \<or> fragile \<and> worn s"
proof (induction rule: life_reachable.induct)
  case (Step s s')
  from Step.IH show ?case
  proof
    assume inv: "life_inv s"
    then show ?thesis using life_inv_step [OF Step.hyps(2)] unfolding worn_def by blast
  next
    assume "fragile \<and> worn s"
    then have "lf_panicked s" by (auto simp: worn_def panic_def)
    with Step.hyps(2) show ?thesis by cases simp_all
  qed
qed (simp add: life_inv_new)

lemma sound_reachable: "life_reachable True False s \<Longrightarrow> life_inv s"
  using life_inv_reachable by blast

subsection \<open>Every call returns\<close>

fun stop_rank :: "stop_pc \<Rightarrow> nat" where
  "stop_rank LoadStarted = 14"
| "stop_rank LoadShutdown = 13"
| "stop_rank Swap = 12"
| "stop_rank Polling = 11"
| "stop_rank SendRefresh = 8"
| "stop_rank RecvRefresh = 7"
| "stop_rank CloseRefresh = 6"
| "stop_rank SendRepublish = 5"
| "stop_rank RecvRepublish = 4"
| "stop_rank CloseRepublish = 3"
| "stop_rank CloseServer = 2"
| "stop_rank StoreShutdown = 1"
| "stop_rank (Back b) = 0"

fun busy :: "loop \<Rightarrow> nat" where
  "busy Working = 1"
| "busy Absent = 0"
| "busy Waiting = 0"
| "busy Acking = 0"
| "busy Gone = 0"

definition life_measure :: "life \<Rightarrow> nat" where
  "life_measure s = sum_list (map stop_rank (lf_stops s)) + busy (lf_refresh s) + busy (lf_republish s)"

lemma measure_goto:
  assumes "lf_stops s' = (lf_stops s)[i := pc]" "i < length (lf_stops s)" "stop_rank pc < stop_rank (lf_stops s ! i)"
    and "busy (lf_refresh s') \<le> busy (lf_refresh s)" "busy (lf_republish s') \<le> busy (lf_republish s)"
  shows "life_measure s' < life_measure s"
proof -
  have "stop_rank (lf_stops s ! i) \<le> sum_list (map stop_rank (lf_stops s))"
    using assms(2) by (intro member_le_sum_list) simp_all
  then have "sum_list (map stop_rank (lf_stops s')) < sum_list (map stop_rank (lf_stops s))"
    using assms(1-3) by (simp add: map_update sum_list_update)
  then show ?thesis
    using assms(4,5) by (simp add: life_measure_def)
qed

text \<open>A step of \<^verbatim>\<open>Stop\<close> that does not panic makes progress.\<close>

lemma stop_progress:
  assumes i: "i < length (lf_stops s)" and st: "stop_op i s = Some s'" and np: "\<not> lf_panicked s'"
  shows "life_measure s' < life_measure s \<and> length (lf_stops s') = length (lf_stops s)"
proof -
  obtain pc where "lf_stops s' = (lf_stops s)[i := pc]" "stop_rank pc < stop_rank (lf_stops s ! i)"
    "busy (lf_refresh s') \<le> busy (lf_refresh s)" "busy (lf_republish s') \<le> busy (lf_republish s)"
    using st np unfolding stop_op_def by (cases "lf_stops s ! i") (auto simp: panic_def split: if_splits)
  then show ?thesis
    using measure_goto [OF _ i] by simp
qed

text \<open>Some goroutine can always make progress while a call has not returned.\<close>

lemma stop_enabled:
  assumes inv: "life_inv s" and i: "i < length (lf_stops s)" and nb: "\<And>b. lf_stops s ! i \<noteq> Back b"
  obtains k s' where "k < length (lf_stops s)" "stop_op k s = Some s'"
    | s' where "lf_refresh s = Working" "refresh_op False s = Some s'"
    | s' where "lf_republish s = Working" "republish_op False s = Some s'"
  using inv
proof (cases rule: life_inv_cases)
  case Fresh
  then have "lf_stops s ! i = LoadStarted"
    using nb nth_mem [OF i] by blast
  then show thesis
    using that(1) [OF i] by (simp add: stop_op_def)
next
  case Up
  then consider "lf_stops s ! i = LoadStarted" | "lf_stops s ! i = LoadShutdown" | "lf_stops s ! i = Swap"
    using nb nth_mem [OF i] by blast
  then show thesis
    using that(1) [OF i] Up(1) by cases (simp_all add: stop_op_def up_def)
next
  case (Section k)
  then show thesis
    using that(1) [OF Section(4)] that(2,3)
    by (cases "lf_stops s ! k") (auto simp: stop_op_def at_place_def refresh_op_def republish_op_def)
next
  case Down
  then have "\<not> in_section (lf_stops s ! i)"
    using nth_mem [OF i] by blast
  then show thesis
    using that(1) [OF i] Down nb by (cases "lf_stops s ! i") (auto simp: stop_op_def)
qed

lemma life_progress:
  assumes inv: "life_inv s" and i: "i < length (lf_stops s)" and nb: "\<And>b. lf_stops s ! i \<noteq> Back b"
  obtains s' where "life_step True fragile s s'" "life_measure s' < life_measure s" "length (lf_stops s') = length (lf_stops s)"
proof -
  note np = inv_panicked [OF inv]
  show thesis
    using stop_enabled [OF inv i nb]
  proof cases
    case (1 k s')
    then show thesis
      using that [of s'] stop_progress [of k s s'] inv_panicked [OF inv_stop [OF inv 1]] life_step.Stop [OF np 1] by blast
  next
    case (2 s')
    then show thesis
      using that [of s'] life_step.Refresh [OF np 2(2)] by (auto simp: refresh_op_def life_measure_def)
  next
    case (3 s')
    then show thesis
      using that [of s'] life_step.Republish [OF np 3(2)] by (auto simp: republish_op_def life_measure_def)
  qed
qed

text \<open>The calls of \<^verbatim>\<open>Stop\<close> whose number changes only by new calls\<close>

interpretation life_calls: step_progress
  "\<lambda>s s'. life_step True False s s' \<and> length (lf_stops s') = length (lf_stops s)" life_inv
  "\<lambda>s. \<forall>pc \<in> set (lf_stops s). \<exists>b. pc = Back b" life_measure
proof
  fix s s'
  assume "life_step True False s s' \<and> length (lf_stops s') = length (lf_stops s)" "life_inv s"
  then show "life_inv s'" using life_inv_sound by blast
next
  fix s
  assume inv: "life_inv s" and "\<not> (\<forall>pc \<in> set (lf_stops s). \<exists>b. pc = Back b)"
  then obtain i where i: "i < length (lf_stops s)" "\<And>b. lf_stops s ! i \<noteq> Back b"
    by (metis in_set_conv_nth)
  then show "\<exists>s'. (life_step True False s s' \<and> length (lf_stops s') = length (lf_stops s)) \<and> life_measure s' < life_measure s \<and> life_inv s'"
    using life_progress [OF inv i, of False] life_inv_sound inv by metis
qed

lemma calls_run:
  "(\<lambda>s s'. life_step True False s s' \<and> length (lf_stops s') = length (lf_stops s))\<^sup>*\<^sup>* s s' \<Longrightarrow>
   (life_step True False)\<^sup>*\<^sup>* s s' \<and> length (lf_stops s') = length (lf_stops s)"
  by (induction rule: rtranclp_induct) auto

lemma all_return:
  "life_inv s \<Longrightarrow>
   \<exists>s'. (life_step True False)\<^sup>*\<^sup>* s s' \<and> length (lf_stops s') = length (lf_stops s) \<and> (\<forall>pc \<in> set (lf_stops s'). \<exists>b. pc = Back b)"
  using life_calls.reaches_goal calls_run by blast

lemma life_inv_section_unique:
  assumes inv: "life_inv s" and ij: "i < length (lf_stops s)" "j < length (lf_stops s)"
    and sec: "in_section (lf_stops s ! i)" "in_section (lf_stops s ! j)"
  shows "i = j"
  using inv
proof (cases rule: life_inv_cases)
  case (Section k)
  have "in_section (lf_stops s ! m) \<Longrightarrow> m < length (lf_stops s) \<Longrightarrow> m = k" for m
    using Section(7) by fastforce
  then show ?thesis
    using ij sec by blast
qed (use ij sec in \<open>auto dest!: bspec [OF _ nth_mem [OF ij(1)]]\<close>)

lemma life_inv_reported: "life_inv s \<Longrightarrow> Back True \<in> set (lf_stops s) \<Longrightarrow> down s"
  by (erule life_inv_cases) (fastforce simp: in_set_conv_nth)+

lemma down_listener: "down s \<Longrightarrow> lf_listening s \<Longrightarrow>
    lf_server s = Entering \<and> serve_op s = Some (s\<lparr>lf_listening := False, lf_server := Returned\<rparr>)"
  by (cases "lf_server s") (auto simp: down_def server_fits_def serve_op_def)

lemma panic_same [simp]:
  "lf_stops (panic s) = lf_stops s" "lf_refresh (panic s) = lf_refresh s" "lf_republish (panic s) = lf_republish s"
  "lf_refresh_open (panic s) = lf_refresh_open s" "lf_republish_open (panic s) = lf_republish_open s"
  "lf_listening (panic s) = lf_listening s" "lf_server_closed (panic s) = lf_server_closed s" "lf_panicked (panic s)"
  by (simp_all add: panic_def)


text \<open>
  C13: from every state of such a run, unless the work of a loop has panicked, some run leads to a
  state in which every call of \<^verbatim>\<open>Stop\<close> has returned: no call waits for ever for a loop, a channel or
  another call.
\<close>

theorem stop_returns:
  assumes "life_reachable True fragile s"
  shows "(\<exists>s'. (life_step True False)\<^sup>*\<^sup>* s s' \<and> length (lf_stops s') = length (lf_stops s) \<and>
      (\<forall>pc \<in> set (lf_stops s'). \<exists>b. pc = Back b)) \<or>
    fragile \<and> lf_panicked s"
  using life_inv_reachable [OF assms] all_return by (auto simp: worn_def)

text \<open>
  C39: a node cannot be started again. After a call of \<^verbatim>\<open>Stop\<close> has reported the shutdown, and the
  server has closed the listener if that was still to be done, \<^verbatim>\<open>Start\<close> returns no error, but the
  channels of the first run are still closed: the new refresh loop receives from its stop channel at
  once and its acknowledgement, a send on a closed channel, panics.
\<close>

theorem restart_panics:
  assumes "life_reachable True fragile s" and "Back True \<in> set (lf_stops s)"
  shows "\<exists>s0 s1 s2 s3. (if lf_listening s then serve_op s = Some s0 else s0 = s) \<and>
    start_listen s0 = Inr s1 \<and> life_step False fragile s0 s1 \<and> life_step False fragile s1 s2 \<and>
    life_step False fragile s2 s3 \<and> lf_panicked s3"
proof -
  have inv: "life_inv s"
    using life_inv_reachable [OF assms(1)] life_inv_reported assms(2) by (auto simp: worn_def down_def)
  note d = life_inv_reported [OF inv assms(2)]
  define s0 where "s0 = (if lf_listening s then s\<lparr>lf_listening := False, lf_server := Returned\<rparr> else s)"
  have s0: "if lf_listening s then serve_op s = Some s0 else s0 = s" using down_listener [OF d] by (simp add: s0_def)
  have d0: "\<not> lf_panicked s0" "\<not> lf_listening s0" "\<not> lf_refresh_open s0"
    using inv_panicked [OF inv] d by (simp_all add: s0_def down_def)
  then obtain s1 where st: "start_listen s0 = Inr s1" "\<not> lf_panicked s1" "lf_refresh s1 = Waiting" "\<not> lf_refresh_open s1"
    by (simp add: start_listen_def)
  let ?s2 = "s1\<lparr>lf_refresh := Acking\<rparr>"
  have "life_step False fragile s0 s1"
    using d0 st by (intro life_step.Start) simp_all
  moreover have "life_step False fragile s1 ?s2"
    using st by (intro life_step.Refresh [where tick = False]) (simp_all add: refresh_op_def)
  moreover have "life_step False fragile ?s2 (panic ?s2)"
    using st by (intro life_step.Refresh [where tick = False]) (simp_all add: refresh_op_def)
  moreover have "lf_panicked (panic ?s2)" by simp
  ultimately show ?thesis
    using s0 st(1) by blast
qed

subsection \<open>Runs of a node that is started and stopped\<close>

text \<open>Up to \<open>n\<close> steps of the first call of \<^verbatim>\<open>Stop\<close>, as long as it does not wait.\<close>

fun stop_run :: "nat \<Rightarrow> life \<Rightarrow> life" where
  "stop_run 0 s = s"
| "stop_run (Suc n) s = (case stop_op 0 s of None \<Rightarrow> s | Some s' \<Rightarrow> stop_run n s')"

lemma reach_run: "life_reachable True False s \<Longrightarrow> 0 < length (lf_stops s) \<Longrightarrow> life_reachable True False (stop_run n s)"
proof (induction n arbitrary: s)
  case (Suc n)
  show ?case
  proof (cases "stop_op 0 s")
    case (Some s')
    note inv = sound_reachable [OF Suc.prems(1)]
    have "life_step True False s s'"
      by (rule life_step.Stop [OF inv_panicked [OF inv] Suc.prems(2) Some])
    moreover have "length (lf_stops s') = length (lf_stops s)"
      using stop_progress [OF Suc.prems(2) Some] inv_panicked [OF inv_stop [OF inv Suc.prems(2) Some]] by blast
    ultimately show ?thesis
      using Some Suc.IH [of s'] life_reachable.Step [OF Suc.prems(1)] Suc.prems(2) by simp
  qed (simp add: Suc.prems)
qed simp

text \<open>A call of \<^verbatim>\<open>Stop\<close> while the server serves, and one before the server has got the listener.\<close>

definition called_life :: "server_pc \<Rightarrow> life" where
  "called_life srv = (start_return (new_life\<lparr>lf_listening := True, lf_server := srv, lf_refresh := Waiting,
     lf_republish := Waiting, lf_starting := 1\<rparr>))\<lparr>lf_stops := [LoadStarted]\<rparr>"

definition stopped_life :: life where
  "stopped_life = stop_run 11 (called_life Serving)"

definition hasty_life :: life where
  "hasty_life = stop_run 11 (called_life Entering)"

lemma reach_called: "srv = Entering \<or> srv = Serving \<Longrightarrow> life_reachable True False (called_life srv)"
proof -
  assume srv: "srv = Entering \<or> srv = Serving"
  let ?s = "\<lambda>srv. new_life\<lparr>lf_listening := True, lf_server := srv, lf_refresh := Waiting, lf_republish := Waiting, lf_starting := 1\<rparr>"
  have e: "life_reachable True False (?s Entering)"
    by (rule life_reachable.Step [OF life_reachable.New life_step.Start]) (simp_all add: start_listen_def new_life_def)
  have "life_step True False (?s Entering) (?s Serving)"
    by (rule life_step.Serve) (simp_all add: serve_op_def new_life_def)
  then have "life_reachable True False (?s srv)"
    using e srv life_reachable.Step [OF e] by (elim disjE) simp_all
  then have s: "life_reachable True False (start_return (?s srv))"
    by (rule life_reachable.Step [OF _ life_step.Started]) (simp_all add: new_life_def)
  have "called_life srv = (start_return (?s srv))\<lparr>lf_stops := lf_stops (start_return (?s srv)) @ [LoadStarted]\<rparr>"
    by (simp add: called_life_def start_return_def new_life_def)
  then show ?thesis
    using life_reachable.Step [OF s life_step.Call] by (simp add: start_return_def new_life_def)
qed

lemma reach_stopped: "life_reachable True False stopped_life" "life_reachable True False hasty_life"
  unfolding stopped_life_def hasty_life_def by (rule reach_run [OF reach_called]; simp add: called_life_def)+

lemma stopped_life_stops: "lf_stops stopped_life = [Back True]" "\<not> lf_listening stopped_life"
  by code_simp+


theorem stop_returns_witness:
  "\<exists>s'. (life_step True False)\<^sup>*\<^sup>* (called_life Serving) s' \<and> (\<forall>pc \<in> set (lf_stops s'). \<exists>b. pc = Back b)"
  using stop_returns [OF reach_called, of Serving] by blast

theorem restart_panics_witness:
  "\<exists>s1 s2 s3. start_listen stopped_life = Inr s1 \<and> life_step False False s1 s2 \<and> life_step False False s2 s3 \<and> lf_panicked s3"
  using restart_panics [OF reach_stopped(1)] by (auto simp: stopped_life_stops)

text \<open>
  A shutdown that is reported with the listener still open: \<^verbatim>\<open>Stop\<close> closed the server before the
  goroutine of \<^verbatim>\<open>Start\<close> had given the listener to it.
\<close>

theorem stop_leaves_listener:
  "\<exists>s. life_reachable True False s \<and> Back True \<in> set (lf_stops s) \<and> lf_shutdown s \<and> lf_listening s"
proof -
  have "Back True \<in> set (lf_stops hasty_life)" "lf_shutdown hasty_life" "lf_listening hasty_life" by code_simp+
  then show ?thesis using reach_stopped(2) by blast
qed

end
