(* ===== verification/Cli.thy ===== *)
theory Cli
  imports Daemon
begin

text \<open>
  The command line (\<^verbatim>\<open>cmd/inu\<close>): how a node and a daemon get their configuration from a JSON file and
  from the environment, the loading of the AS numbers, joining a network and the key command.  Files
  and environment variables are arguments; a variable that is not set reads as the empty text.  Of
  the table of AS numbers the rows are given as the TSV reader and the parsers of prefixes and
  numbers return them.
\<close>

subsection \<open>Numbers\<close>

text \<open>\<^verbatim>\<open>strconv.ParseUint(s, 10, bits)\<close>\<close>

definition parse_uint :: "nat \<Rightarrow> string \<Rightarrow> error + nat" where
  "parse_uint bits s =
     (if s \<noteq> [] \<and> list_all is_digit s \<and> read_nat s < 2 ^ bits then Inr (read_nat s) else Inl InvalidNumber)"

text \<open>A JSON number for an \<^verbatim>\<open>int\<close> or a \<^verbatim>\<open>time.Duration\<close>, both of 64 bits\<close>

definition decode_int :: "int \<Rightarrow> json \<Rightarrow> int option" where
  "decode_int old j =
     (case j of
        JNum s \<Rightarrow>
          (let neg = (take 1 s = ''-''); d = (if neg then drop 1 s else s);
               v = (if neg then - int (read_nat d) else int (read_nat d))
           in if d \<noteq> [] \<and> list_all is_digit d \<and> - (2 ^ 63) \<le> v \<and> v < 2 ^ 63 then Some v else None)
      | JNull \<Rightarrow> Some old
      | _ \<Rightarrow> None)"

definition decode_port :: "u16 \<Rightarrow> json \<Rightarrow> u16 option" where
  "decode_port old j = map_option of_nat (decode_uint 65535 (unat old) j)"

subsection \<open>Keys\<close>

text \<open>What \<^verbatim>\<open>inu key uint n\<close> prints\<close>

definition key_uint :: "string \<Rightarrow> error + string" where
  "key_uint arg =
     (case parse_uint 64 arg of
        Inl e \<Rightarrow> Inl e
      | Inr n \<Rightarrow> Inr (marshal_b32 (parse_uint64 (of_nat n))))"

subsection \<open>Nodes\<close>

definition set_node_field :: "node_config \<Rightarrow> string \<Rightarrow> json \<Rightarrow> node_config option" where
  "set_node_field c k v =
     (if is_field ''host'' k then map_option (\<lambda>x. c\<lparr>cf_host := x\<rparr>) (decode_string (cf_host c) v)
      else if is_field ''alt_host'' k then map_option (\<lambda>x. c\<lparr>cf_alt_host := x\<rparr>) (decode_string (cf_alt_host c) v)
      else if is_field ''port'' k then map_option (\<lambda>x. c\<lparr>cf_port := x\<rparr>) (decode_port (cf_port c) v)
      else if is_field ''id'' k then map_option (\<lambda>x. c\<lparr>cf_id := x\<rparr>) (decode_key (cf_id c) v)
      else if is_field ''alpha'' k then map_option (\<lambda>x. c\<lparr>cf_alpha := x\<rparr>) (decode_int (cf_alpha c) v)
      else if is_field ''k'' k then map_option (\<lambda>x. c\<lparr>cf_k := x\<rparr>) (decode_int (cf_k c) v)
      else if is_field ''republish_duration'' k
      then map_option (\<lambda>x. c\<lparr>cf_republish := x\<rparr>) (decode_int (cf_republish c) v)
      else if is_field ''refresh_duration'' k
      then map_option (\<lambda>x. c\<lparr>cf_refresh := x\<rparr>) (decode_int (cf_refresh c) v)
      else if is_field ''expiry_duration'' k
      then map_option (\<lambda>x. c\<lparr>cf_expiry := x\<rparr>) (decode_int (cf_expiry c) v)
      else if is_field ''swarm_key'' k then map_option (\<lambda>x. c\<lparr>cf_swarm_key := x\<rparr>) (decode_key (cf_swarm_key c) v)
      else if is_field ''upload_key'' k then map_option (\<lambda>x. c\<lparr>cf_upload_key := x\<rparr>) (decode_key (cf_upload_key c) v)
      else Some c)"

type_synonym config_file = "(error + u8 list) option"   \<comment> \<open>\<open>None\<close> when no path is given\<close>

definition read_config :: "('a \<Rightarrow> string \<Rightarrow> json \<Rightarrow> 'a option) \<Rightarrow> 'a \<Rightarrow> config_file \<Rightarrow> error + 'a" where
  "read_config set_field def f =
     (case f of
        None \<Rightarrow> Inr def
      | Some (Inl e) \<Rightarrow> Inl e
      | Some (Inr data) \<Rightarrow>
          (case unmarshal (decode_struct set_field def) data of None \<Rightarrow> Inl BadEncoding | Some c \<Rightarrow> Inr c))"

fun load_rows :: "node \<Rightarrow> (error + prefix \<times> int) list \<Rightarrow> (error + node) option" where
  "load_rows n [] = Some (Inr n)"
| "load_rows n (Inl e # rows) = Some (Inl e)"
| "load_rows n (Inr (p, asn) # rows) =
     (case update_asn n p asn of
        None \<Rightarrow> None
      | Some (Some e, _) \<Rightarrow> Some (Inl e)
      | Some (None, n') \<Rightarrow> load_rows n' rows)"

text \<open>\<open>id_env\<close> and \<open>alt_env\<close> are \<^verbatim>\<open>INU_NODE_ID\<close> and \<^verbatim>\<open>INU_NODE_ALT_HOST\<close>.\<close>

definition parse_node ::
  "int \<Rightarrow> config_file \<Rightarrow> string \<Rightarrow> string \<Rightarrow> (error + (error + prefix \<times> int) list) option \<Rightarrow> (error + node) option" where
  "parse_node now file id_env alt_env asn =
     (case read_config set_node_field default_node_config file of
        Inl e \<Rightarrow> Some (Inl e)
      | Inr c \<Rightarrow>
     (case (if id_env \<noteq> '''' then map_sum id (\<lambda>k. c\<lparr>cf_id := k\<rparr>) (unmarshal_b32 zero_key id_env) else Inr c) of
        Inl e \<Rightarrow> Some (Inl e)
      | Inr c1 \<Rightarrow>
          let c2 = (if alt_env \<noteq> '''' then c1\<lparr>cf_alt_host := alt_env\<rparr> else c1) in
     (case new_node now c2 of
        None \<Rightarrow> None
      | Some n \<Rightarrow>
     (case asn of
        None \<Rightarrow> Some (Inr n)
      | Some (Inl e) \<Rightarrow> Some (Inl e)
      | Some (Inr rows) \<Rightarrow> load_rows n rows))))"

text \<open>\<^verbatim>\<open>inu dht join\<close> after the node was parsed: a listener that fails is a panic.\<close>

definition dht_join :: "env \<Rightarrow> node \<Rightarrow> bool \<Rightarrow> string \<Rightarrow> string \<Rightarrow> (error option \<times> node) option" where
  "dht_join ev n listens ident address =
     (if \<not> listens then None
      else case unmarshal_b32 zero_key ident of
        Inl e \<Rightarrow> Some (Some e, n)
      | Inr k \<Rightarrow> node_bootstrap ev n \<lparr>contact_id = k, contact_address = address\<rparr>)"

subsection \<open>Daemons\<close>

text \<open>A configuration under construction keeps the slice of its nodes beside it.\<close>

definition set_daemon_field :: "daemon_config \<times> string slice \<Rightarrow> string \<Rightarrow> json \<Rightarrow> (daemon_config \<times> string slice) option" where
  "set_daemon_field x k v =
     (let c = fst x; cl = dc_client c in
      if is_field ''port'' k
      then map_option (\<lambda>p. (c\<lparr>dc_client := cl\<lparr>cc_port := p\<rparr>\<rparr>, snd x)) (decode_port (cc_port cl) v)
      else if is_field ''nodes'' k then map_option (\<lambda>ns. (c, ns)) (decode_slice decode_string '''' (snd x) v)
      else if is_field ''upload_key'' k
      then map_option (\<lambda>u. (c\<lparr>dc_client := cl\<lparr>cc_upload_key := u\<rparr>\<rparr>, snd x)) (decode_key (cc_upload_key cl) v)
      else if is_field ''StorePath'' k
      then map_option (\<lambda>s. (c\<lparr>dc_store_path := s\<rparr>, snd x)) (decode_string (dc_store_path c) v)
      else if is_field ''Host'' k then map_option (\<lambda>s. (c\<lparr>dc_host := s\<rparr>, snd x)) (decode_string (dc_host c) v)
      else if is_field ''PublicIP'' k
      then map_option (\<lambda>s. (c\<lparr>dc_public_ip := s\<rparr>, snd x)) (decode_string (dc_public_ip c) v)
      else if is_field ''RpcPort'' k
      then map_option (\<lambda>p. (c\<lparr>dc_rpc_port := p\<rparr>, snd x)) (decode_port (dc_rpc_port c) v)
      else Some x)"

definition with_nodes :: "daemon_config \<Rightarrow> string list \<Rightarrow> daemon_config" where
  "with_nodes c ns = c\<lparr>dc_client := (dc_client c)\<lparr>cc_nodes := ns\<rparr>\<rparr>"

definition slice_list :: "'a slice \<Rightarrow> 'a list" where
  "slice_list s = (case slice_val s of None \<Rightarrow> [] | Some xs \<Rightarrow> xs)"

text \<open>
  \<^verbatim>\<open>INU_DAEMON_DHT_NODES\<close>, \<^verbatim>\<open>INU_DAEMON_STORE_PATH\<close>, \<^verbatim>\<open>INU_DAEMON_PUBLIC_IP\<close> and
  \<^verbatim>\<open>INU_DAEMON_RPC_PORT\<close>
\<close>

record daemon_env =
  de_nodes :: "u8 list"
  de_store_path :: string
  de_public_ip :: string
  de_rpc_port :: string

definition parse_daemon_config :: "config_file \<Rightarrow> daemon_env \<Rightarrow> error + daemon_config" where
  "parse_daemon_config file env =
     (let def = default_daemon_config; ns = cc_nodes (dc_client def) in
      case read_config set_daemon_field (def, (ns, Some (length ns))) file of
        Inl e \<Rightarrow> Inl e
      | Inr (c, sl) \<Rightarrow>
     (case (if de_nodes env \<noteq> [] then
              (case unmarshal (decode_slice decode_string '''' nil_slice) (de_nodes env) of
                 None \<Rightarrow> Inl BadEncoding
               | Some sl' \<Rightarrow> Inr (with_nodes c (slice_list sl')))
            else Inr (with_nodes c (slice_list sl))) of
        Inl e \<Rightarrow> Inl e
      | Inr c1 \<Rightarrow>
          let c2 = (if de_store_path env \<noteq> '''' then c1\<lparr>dc_store_path := de_store_path env\<rparr> else c1);
              c3 = (if de_public_ip env \<noteq> '''' then c2\<lparr>dc_public_ip := de_public_ip env\<rparr> else c2)
          in if de_rpc_port env \<noteq> '''' then
               (case parse_uint 16 (de_rpc_port env) of
                  Inl e \<Rightarrow> Inl e
                | Inr p \<Rightarrow> Inr (c3\<lparr>dc_rpc_port := of_nat p\<rparr>))
             else Inr c3))"

subsection \<open>Logging\<close>

datatype level = LevelInfo | LevelWarn | LevelError

definition status_level :: "int \<Rightarrow> level" where
  "status_level status =
     (if status \<le> 0 then LevelWarn
      else if status < 400 then LevelInfo
      else if status \<ge> 400 \<and> status < 500 then LevelInfo
      else if status \<ge> 500 then LevelError
      else LevelInfo)"

subsection \<open>Configurations as files\<close>

lemma cli_names [simp]:
  "fold_name ''host'' = ''HOST''" "fold_name ''alt_host'' = ''ALT_HOST''" "fold_name ''port'' = ''PORT''"
  "fold_name ''alpha'' = ''ALPHA''" "fold_name ''k'' = ''K''"
  "fold_name ''republish_duration'' = ''REPUBLISH_DURATION''" "fold_name ''refresh_duration'' = ''REFRESH_DURATION''"
  "fold_name ''expiry_duration'' = ''EXPIRY_DURATION''" "fold_name ''swarm_key'' = ''SWARM_KEY''"
  "fold_name ''upload_key'' = ''UPLOAD_KEY''" "fold_name ''nodes'' = ''NODES''" "fold_name ''StorePath'' = ''STOREPATH''"
  "fold_name ''Host'' = ''HOST''" "fold_name ''PublicIP'' = ''PUBLICIP''" "fold_name ''RpcPort'' = ''RPCPORT''"
  by (simp_all add: fold_name.simps within_def char_of_def bit_iff_odd)

definition int_json :: "int \<Rightarrow> json" where
  "int_json n = uint_json (nat n)"

lemma decode_int_json [simp]:
  assumes "0 \<le> n" "n < 2 ^ 63"
  shows "decode_int old (int_json n) = Some n"
proof -
  have d: "\<forall>c \<in> set (show_nat (nat n)). is_digit c" by (rule show_nat_digits)
  have "take 1 (show_nat (nat n)) \<noteq> ''-''"
    using d show_nat_nonempty [of "nat n"] by (cases "show_nat (nat n)") (auto simp: is_digit_def)
  then show ?thesis
    using assms d by (simp add: decode_int_def int_json_def uint_json_def list_all_iff)
qed

lemma decode_port_json [simp]: "decode_port old (uint_json (unat p)) = Some p"
proof -
  have "unat p \<le> 65535" using unsigned_less [of p, where 'a = nat] by simp
  then show ?thesis by (simp add: decode_port_def)
qed

lemma decode_string_json [simp]: "decode_string old (JStr s) = Some s"
  by (simp add: decode_string_def)

lemma parse_uint_show: "n < 2 ^ bits \<Longrightarrow> parse_uint bits (show_nat n) = Inr n"
  using show_nat_digits [of n] by (simp add: parse_uint_def list_all_iff)

text \<open>All fields of a node's configuration, under the names of its JSON tags\<close>

definition node_config_json :: "node_config \<Rightarrow> json" where
  "node_config_json c =
     JObj [(''host'', JStr (cf_host c)), (''alt_host'', JStr (cf_alt_host c)), (''port'', uint_json (unat (cf_port c))),
       (''id'', key_json (cf_id c)), (''alpha'', int_json (cf_alpha c)), (''k'', int_json (cf_k c)),
       (''republish_duration'', int_json (cf_republish c)), (''refresh_duration'', int_json (cf_refresh c)),
       (''expiry_duration'', int_json (cf_expiry c)), (''swarm_key'', key_json (cf_swarm_key c)),
       (''upload_key'', key_json (cf_upload_key c))]"

definition node_config_ok :: "node_config \<Rightarrow> bool" where
  "node_config_ok c \<longleftrightarrow> valid_utf8 (cf_host c) \<and> valid_utf8 (cf_alt_host c) \<and>
     (\<forall>n \<in> {cf_alpha c, cf_k c, cf_republish c, cf_refresh c, cf_expiry c}. 0 \<le> n \<and> n < 2 ^ 63)"

lemma decode_node_config:
  assumes "node_config_ok c"
  shows "decode_struct set_node_field old (node_config_json c) = Some c"
  using assms by (simp add: node_config_ok_def node_config_json_def set_node_field_def is_field_def)

lemma read_node_config:
  assumes "node_config_ok c"
  shows "read_config set_node_field def (Some (Inr (marshal (node_config_json c)))) = Inr c"
proof -
  have names: "valid_utf8 s" if "s \<in> set [''host'', ''alt_host'', ''port'', ''id'', ''alpha'', ''k'', ''republish_duration'',
      ''refresh_duration'', ''expiry_duration'', ''swarm_key'', ''upload_key'']" for s
    using that by (auto intro!: valid_utf8_ascii)
  have "printable 1 (node_config_json c)"
    using assms printable_key names by (simp add: node_config_json_def node_config_ok_def int_json_def)
  then show ?thesis
    using unmarshal_marshal_json [of 1 "node_config_json c" "decode_struct set_node_field def"] decode_node_config [OF assms]
    by (simp add: read_config_def max_depth_def)
qed

text \<open>
  The configuration of a node. A file with the fields of a configuration and the two environment
  variables make the node of that configuration, in which the variables that are set replace the
  identifier and the alternative host; no default value is left.
\<close>

theorem parse_node_config:
  assumes "node_config_ok c" and "id_env \<in> {'''', marshal_b32 k}"
  shows "parse_node now (Some (Inr (marshal (node_config_json c)))) id_env alt_env None =
    map_option Inr (new_node now
      (c\<lparr>cf_id := (if id_env = '''' then cf_id c else k), cf_alt_host := (if alt_env = '''' then cf_alt_host c else alt_env)\<rparr>))"
proof -
  have m: "marshal_b32 k \<noteq> []"
    using length_marshal_b32 [of k] by auto
  show ?thesis
    using assms m read_node_config [OF assms(1)]
    by (auto simp: parse_node_def unmarshal_marshal Let_def split: option.split)
qed

text \<open>A daemon's configuration\<close>

definition daemon_config_json :: "daemon_config \<Rightarrow> json" where
  "daemon_config_json c =
     JObj [(''port'', uint_json (unat (cc_port (dc_client c)))), (''nodes'', JArr (map JStr (cc_nodes (dc_client c)))),
       (''upload_key'', key_json (cc_upload_key (dc_client c))), (''StorePath'', JStr (dc_store_path c)),
       (''Host'', JStr (dc_host c)), (''PublicIP'', JStr (dc_public_ip c)), (''RpcPort'', uint_json (unat (dc_rpc_port c)))]"

definition daemon_config_ok :: "daemon_config \<Rightarrow> bool" where
  "daemon_config_ok c \<longleftrightarrow> list_all valid_utf8 (cc_nodes (dc_client c)) \<and> valid_utf8 (dc_store_path c) \<and>
     valid_utf8 (dc_host c) \<and> valid_utf8 (dc_public_ip c)"

lemma decode_texts: "\<exists>ys. decode_elems decode_string '''' olds (map JStr ss) = Some (ss @ ys)"
  by (induction ss arbitrary: olds) (auto split: list.split)

lemma decode_nodes:
  "\<exists>sl. decode_slice decode_string '''' old (JArr (map JStr ss)) = Some sl \<and> slice_list sl = ss"
  using decode_texts [of "fst old" ss] by (auto simp: decode_slice_def slice_list_def slice_val_def)

lemma decode_daemon_config:
  "\<exists>c' sl. decode_struct set_daemon_field (old, osl) (daemon_config_json c) = Some (c', sl) \<and> with_nodes c' (slice_list sl) = c"
proof -
  obtain sl where sl: "decode_slice decode_string '''' osl (JArr (map JStr (cc_nodes (dc_client c)))) = Some sl"
    "slice_list sl = cc_nodes (dc_client c)"
    using decode_nodes by blast
  then show ?thesis
    by (simp add: daemon_config_json_def set_daemon_field_def is_field_def with_nodes_def Let_def)
qed

lemma read_daemon_config:
  assumes "daemon_config_ok c"
  shows "\<exists>c' sl. read_config set_daemon_field (def, osl) (Some (Inr (marshal (daemon_config_json c)))) = Inr (c', sl) \<and>
    with_nodes c' (slice_list sl) = c"
proof -
  have names: "valid_utf8 s"
    if "s \<in> set [''port'', ''nodes'', ''upload_key'', ''StorePath'', ''Host'', ''PublicIP'', ''RpcPort'']" for s
    using that by (auto intro!: valid_utf8_ascii)
  have "printable 2 (daemon_config_json c)"
    using assms printable_key names by (auto simp: daemon_config_json_def daemon_config_ok_def numeral_2_eq_2 list_all_iff)
  then have "unmarshal dec (marshal (daemon_config_json c)) = dec (daemon_config_json c)"
    for dec :: "json \<Rightarrow> (daemon_config \<times> string slice) option"
    using unmarshal_marshal_json [of 2 "daemon_config_json c" dec] by (simp add: max_depth_def)
  then show ?thesis
    using decode_daemon_config [of def osl c] by (auto simp: read_config_def)
qed

text \<open>
  C33: the configuration of a daemon. With a file that holds the fields of a configuration, the result
  is this configuration, in which every environment variable that is set replaces its field;
  a list of nodes replaces the whole list, and a port that is not a number below 65536 is an error.
\<close>

theorem parse_daemon_config:
  assumes "daemon_config_ok c" and "nodes \<noteq> None \<Longrightarrow> list_all valid_utf8 (the nodes)"
    and "de_nodes env = (case nodes of None \<Rightarrow> [] | Some ns \<Rightarrow> marshal (JArr (map JStr ns)))"
  shows "parse_daemon_config (Some (Inr (marshal (daemon_config_json c)))) env =
    (case (if de_rpc_port env = '''' then Inr (dc_rpc_port c) else map_sum id of_nat (parse_uint 16 (de_rpc_port env))) of
       Inl e \<Rightarrow> Inl e
     | Inr p \<Rightarrow> Inr
         \<lparr>dc_client = (dc_client c)\<lparr>cc_nodes := (case nodes of None \<Rightarrow> cc_nodes (dc_client c) | Some ns \<Rightarrow> ns)\<rparr>,
          dc_store_path = (if de_store_path env = '''' then dc_store_path c else de_store_path env),
          dc_host = dc_host c,
          dc_public_ip = (if de_public_ip env = '''' then dc_public_ip c else de_public_ip env),
          dc_rpc_port = p\<rparr>)"
proof -
  obtain c' sl where rd: "read_config set_daemon_field
       (default_daemon_config, (cc_nodes (dc_client default_daemon_config), Some (length (cc_nodes (dc_client default_daemon_config)))))
       (Some (Inr (marshal (daemon_config_json c)))) = Inr (c', sl)" and c: "with_nodes c' (slice_list sl) = c"
    using read_daemon_config [OF assms(1)] by blast
  have same: "with_nodes c' ns = with_nodes c ns" for ns
    unfolding c [symmetric] by (simp add: with_nodes_def)
  obtain c1 where "(if de_nodes env \<noteq> [] then
        (case unmarshal (decode_slice decode_string '''' nil_slice) (de_nodes env) of
           None \<Rightarrow> Inl BadEncoding | Some sl' \<Rightarrow> Inr (with_nodes c' (slice_list sl')))
      else Inr (with_nodes c' (slice_list sl))) = Inr c1"
    "c1 = with_nodes c (case nodes of None \<Rightarrow> cc_nodes (dc_client c) | Some ns \<Rightarrow> ns)"
  proof (cases nodes)
    case None
    then show thesis
      using assms(3) c that by (simp add: with_nodes_def)
  next
    case (Some ns)
    obtain sl' where sl': "decode_slice decode_string '''' nil_slice (JArr (map JStr ns)) = Some sl'" "slice_list sl' = ns"
      using decode_nodes by blast
    have "printable 1 (JArr (map JStr ns))"
      using assms(2) Some by (auto simp: list_all_iff)
    then have "unmarshal (decode_slice decode_string '''' nil_slice) (de_nodes env) = Some sl'"
      using unmarshal_marshal_json [of 1 "JArr (map JStr ns)" "decode_slice decode_string '''' nil_slice"] assms(3) Some sl'
      by (simp add: max_depth_def)
    moreover have "de_nodes env \<noteq> []"
      using assms(3) Some by (simp add: marshal_def bytes_of_def)
    ultimately show thesis
      using that Some sl' same by simp
  qed
  then show ?thesis
    using rd unfolding parse_daemon_config_def
    by (auto simp: with_nodes_def Let_def split: sum.split)
qed

text \<open>Rows of AS numbers that parse are loaded into the node's trie.\<close>

lemma load_rows_asns:
  "load_rows n (map Inr es) =
     (case load_asns (nd_trie n) es of
        None \<Rightarrow> None
      | Some (Inl e) \<Rightarrow> Some (Inl e)
      | Some (Inr t) \<Rightarrow> Some (Inr (n\<lparr>nd_trie := t\<rparr>)))"
proof (induction es arbitrary: n)
  case (Cons e es)
  then show ?case
    by (cases e) (auto simp: update_asn_def split: option.split sum.split)
qed simp

theorem parse_node_config_witness:
  "parse_node 0 (Some (Inr (marshal (node_config_json default_node_config)))) (marshal_b32 (parse_uint64 5)) ''a.b'' None =
   map_option Inr (new_node 0 (default_node_config\<lparr>cf_id := parse_uint64 5, cf_alt_host := ''a.b''\<rparr>))"
proof -
  have ok: "node_config_ok default_node_config"
    by (simp add: node_config_ok_def default_node_config_def hour_def valid_utf8_ascii)
  have "marshal_b32 (parse_uint64 5) \<noteq> []"
    using length_marshal_b32 [of "parse_uint64 5"] by auto
  then show ?thesis
    using parse_node_config [OF ok, of "marshal_b32 (parse_uint64 5)" "parse_uint64 5" 0 "''a.b''"] by simp
qed

definition sample_daemon_env :: daemon_env where
  "sample_daemon_env =
     \<lparr>de_nodes = marshal (JArr (map JStr [''n:3000''])), de_store_path = '''', de_public_ip = ''1.2.3.4'', de_rpc_port = show_nat 7001\<rparr>"

theorem parse_daemon_config_witness:
  "parse_daemon_config (Some (Inr (marshal (daemon_config_json default_daemon_config)))) sample_daemon_env =
   Inr \<lparr>dc_client = default_client_config\<lparr>cc_nodes := [''n:3000'']\<rparr>, dc_store_path = ''inu.db'', dc_host = ''0.0.0.0'',
        dc_public_ip = ''1.2.3.4'', dc_rpc_port = 7001\<rparr>"
proof -
  have "valid_utf8 (''0.0.0.0:'' @ show_nat 3000)"
    using show_nat_digits [of 3000] by (intro valid_utf8_ascii) (auto simp: is_digit_def)
  then have ok: "daemon_config_ok default_daemon_config"
    by (simp add: daemon_config_ok_def default_daemon_config_def default_client_config_def default_node_config_def
        host_port_def valid_utf8_ascii)
  show ?thesis
    using parse_daemon_config [OF ok, of "Some [''n:3000'']" sample_daemon_env]
    by (simp add: sample_daemon_env_def parse_uint_show default_daemon_config_def valid_utf8_ascii)
qed

end
