(* ===== verification/Api.thy ===== *)
theory Api
  imports Concurrency Daemon_Life
begin

text \<open>
  The API of a daemon (\<^verbatim>\<open>api.go\<close>), a stub for each of its remote procedures, and the commands on top of
  it (\<^verbatim>\<open>cmd/inu/peer.go\<close>).  The connection is the one of \<^verbatim>\<open>net/rpc\<close>: a call on a client that was closed
  fails, an error of the procedure leaves the reply at its zero value, and a slice of bytes without
  elements arrives as nil.
\<close>

subsection \<open>Remote procedures\<close>

record api =
  api_port :: u16
  api_open :: bool      \<comment> \<open>the client is not closed\<close>

text \<open>\<open>dialed\<close>: the connection can be made.\<close>

definition dial_api :: "bool \<Rightarrow> string \<Rightarrow> u16 \<Rightarrow> error + api" where
  "dial_api dialed host port = (if dialed then Inr \<lparr>api_port = port, api_open = True\<rparr> else Inl OsError)"

definition api_from_config :: "bool \<Rightarrow> daemon_config \<Rightarrow> error + api" where
  "api_from_config dialed c = dial_api dialed (dc_host c) (dc_rpc_port c)"

definition api_close :: "api \<Rightarrow> error option \<times> api" where
  "api_close a = (if api_open a then (None, a\<lparr>api_open := False\<rparr>) else (Some RpcFailed, a))"

definition rpc_call :: "api \<Rightarrow> 'r \<Rightarrow> (daemon \<Rightarrow> (error + 'r) \<times> daemon) \<Rightarrow> daemon \<Rightarrow> ('r \<times> error option) \<times> daemon" where
  "rpc_call a zero f d =
     (if \<not> api_open a then ((zero, Some RpcFailed), d)
      else case f d of (Inl e, d') \<Rightarrow> ((zero, Some e), d') | (Inr r, d') \<Rightarrow> ((r, None), d'))"

definition gob_bytes :: "u8 list option \<Rightarrow> u8 list option" where
  "gob_bytes bytes = (case bytes of None \<Rightarrow> None | Some bs \<Rightarrow> if bs = [] then None else Some bs)"

definition api_add_bytes :: "api \<Rightarrow> u8 list option \<Rightarrow> daemon \<Rightarrow> (cid \<times> error option) \<times> daemon" where
  "api_add_bytes a bytes = rpc_call a '''' (\<lambda>d. daemon_add_bytes d (gob_bytes bytes))"

text \<open>The daemon finds \<open>disk path\<close> at a path.\<close>

definition api_add_path :: "api \<Rightarrow> (string \<Rightarrow> tree) \<Rightarrow> string \<Rightarrow> daemon \<Rightarrow> (record_entry list \<times> error option) \<times> daemon" where
  "api_add_path a disk path = rpc_call a [] (\<lambda>d. daemon_add_path d path (disk path))"

text \<open>\<open>None\<close> where the daemon runs out of fuel, and for an upload also where it panics.\<close>

definition api_cat :: "nat \<Rightarrow> api \<Rightarrow> string \<Rightarrow> daemon \<Rightarrow> (u8 list \<times> error option) option" where
  "api_cat fuel a path d =
     (if \<not> api_open a then Some ([], Some RpcFailed)
      else map_option (\<lambda>r. case r of Inl e \<Rightarrow> ([], Some e) | Inr bs \<Rightarrow> (bs, None)) (daemon_cat fuel d path))"

definition api_upload :: "nat \<Rightarrow> api \<Rightarrow> web \<Rightarrow> string \<Rightarrow> daemon \<Rightarrow> (nat \<times> error option) option" where
  "api_upload fuel a w path d =
     (if \<not> api_open a then Some (0, Some RpcFailed)
      else case daemon_upload fuel d w path of
        Some (Some (r, ks)) \<Rightarrow> Some (case r of Inl e \<Rightarrow> (0, Some e) | Inr n \<Rightarrow> (n, None))
      | _ \<Rightarrow> None)"

text \<open>
  \<^verbatim>\<open>Wait\<close> returns once all goroutines of a download have, with the first error.  \<open>None\<close> is a call that has
  not returned.
\<close>

definition download_reply :: "error + go_state \<Rightarrow> error option option" where
  "download_reply r =
     (case r of Inl e \<Rightarrow> Some (Some e) | Inr s \<Rightarrow> if go_running s = [] then Some (go_error s) else None)"

definition api_download :: "api \<Rightarrow> error + go_state \<Rightarrow> error option option" where
  "api_download a r = (if \<not> api_open a then Some (Some RpcFailed) else download_reply r)"

subsection \<open>Paths on disk\<close>

text \<open>\<^verbatim>\<open>filepath.Abs\<close> and \<^verbatim>\<open>filepath.Clean\<close> of a rooted path; no working directory is an error.\<close>

fun clean_parts :: "string list \<Rightarrow> string list \<Rightarrow> string list" where
  "clean_parts acc [] = rev acc"
| "clean_parts acc (p # ps) =
     (if p = '''' \<or> p = ''.'' then clean_parts acc ps
      else if p = ''..'' then clean_parts (tl acc) ps
      else clean_parts (p # acc) ps)"

definition clean_rooted :: "string \<Rightarrow> string" where
  "clean_rooted path =
     (case clean_parts [] (split_at (CHR ''/'') path) of [] \<Rightarrow> ''/'' | ps \<Rightarrow> path_text '''' ps)"

definition path_abs :: "string option \<Rightarrow> string \<Rightarrow> error + string" where
  "path_abs cwd path =
     (if take 1 path = ''/'' then Inr (clean_rooted path)
      else case cwd of None \<Rightarrow> Inl OsError | Some wd \<Rightarrow> Inr (clean_rooted (wd @ ''/'' @ path)))"

definition trim_suffix :: "string \<Rightarrow> string \<Rightarrow> string" where
  "trim_suffix s suf =
     (if length suf \<le> length s \<and> drop (length s - length suf) s = suf then take (length s - length suf) s else s)"

definition trim_prefix :: "string \<Rightarrow> string \<Rightarrow> string" where
  "trim_prefix s pre = (if take (length pre) s = pre then drop (length pre) s else s)"

subsection \<open>Commands\<close>

text \<open>What the commands return: an error, or what they print.\<close>

definition peer_add :: "string option \<Rightarrow> (string \<Rightarrow> tree) \<Rightarrow> string \<Rightarrow> api \<Rightarrow> daemon \<Rightarrow> (error + string) \<times> daemon" where
  "peer_add cwd disk arg a d =
     (case path_abs cwd arg of
        Inl e \<Rightarrow> (Inl e, d)
      | Inr full \<Rightarrow>
     (case api_add_path a disk full d of
        ((rs, Some e), d') \<Rightarrow> (Inl e, d')
      | ((rs, None), d') \<Rightarrow>
          let parent = trim_suffix full arg in
          (Inr (''added '' @ show_nat (length rs) @ '' item(s)'' @ [CHR 0x0A] @
                concat (map (\<lambda>(c, p). c @ '' '' @ trim_prefix p parent @ [CHR 0x0A]) rs)), d')))"

definition peer_cat :: "nat \<Rightarrow> string \<Rightarrow> api \<Rightarrow> daemon \<Rightarrow> (error + u8 list) option" where
  "peer_cat fuel arg a d =
     map_option (\<lambda>(bs, e). case e of Some e \<Rightarrow> Inl e | None \<Rightarrow> Inr bs) (api_cat fuel a arg d)"

definition peer_upload :: "nat \<Rightarrow> web \<Rightarrow> string \<Rightarrow> api \<Rightarrow> daemon \<Rightarrow> (error + string) option" where
  "peer_upload fuel w arg a d =
     map_option (\<lambda>(n, e). case e of Some e \<Rightarrow> Inl e | None \<Rightarrow> Inr (''uploaded '' @ show_nat n @ '' node(s)'' @ [CHR 0x0A]))
       (api_upload fuel a w arg d)"

definition peer_download :: "api \<Rightarrow> error + go_state \<Rightarrow> (error + string) option" where
  "peer_download a r =
     map_option (\<lambda>e. case e of Some e \<Rightarrow> Inl e | None \<Rightarrow> Inr (''download successful'' @ [CHR 0x0A])) (api_download a r)"

text \<open>\<open>can_listen\<close>: the port can be listened on, \<open>closes\<close>: the listener can be closed.\<close>

definition daemon_offline :: "bool \<Rightarrow> bool \<Rightarrow> error + bool" where
  "daemon_offline can_listen closes = (if can_listen then if closes then Inr True else Inl OsError else Inr False)"

text \<open>
  \<^verbatim>\<open>runApiFunc\<close>: without a daemon on the port, the command starts one of its own on the configured store,
  and stops it before it returns.  \<open>running\<close> is the daemon that answers otherwise.  \<open>None\<close> is a panic.
\<close>

definition run_api_func ::
  "error + daemon_config \<Rightarrow> error + bool \<Rightarrow> (cid \<times> u8 list) list option \<Rightarrow> bool \<Rightarrow> daemon \<Rightarrow>
   (api \<Rightarrow> daemon \<Rightarrow> (error + 'o) \<times> daemon) \<Rightarrow> ((error + 'o) \<times> daemon) option" where
  "run_api_func parsed offline table dialed running fn =
     (case parsed of
        Inl e \<Rightarrow> Some (Inl e, running)
      | Inr c \<Rightarrow>
          let own = (offline = Inr True) in
     (case (if own then new_daemon c table else Some running) of
        None \<Rightarrow> None
      | Some d \<Rightarrow>
          let stop = (\<lambda>d. if own then d\<lparr>dm_store := store_close (dm_store d)\<rparr> else d) in
     (case api_from_config dialed c of
        Inl e \<Rightarrow> Some (Inl e, stop d)
      | Inr a \<Rightarrow> (case fn a d of (r, d') \<Rightarrow> Some (r, stop d')))))"

text \<open>
  \<^verbatim>\<open>inu peer daemon\<close>, until it is told to stop.  \<open>accepted\<close>: the accepting goroutine has run by then.  A
  listener that fails ends the process, which is an error as well.
\<close>

definition peer_daemon ::
  "error + daemon_config \<Rightarrow> (cid \<times> u8 list) list option \<Rightarrow> bool \<Rightarrow> bool \<Rightarrow> bool \<Rightarrow> (error + serving) option" where
  "peer_daemon parsed table public_ok private_ok accepted =
     (case parsed of
        Inl e \<Rightarrow> Some (Inl e)
      | Inr c \<Rightarrow>
     (case new_daemon c table of
        None \<Rightarrow> None
      | Some d \<Rightarrow>
     (case daemon_start public_ok private_ok (not_serving d) of
        Inl e \<Rightarrow> Some (Inl e)
      | Inr s \<Rightarrow>
     (case daemon_stop (case if accepted then accept_op s else None of None \<Rightarrow> s | Some s' \<Rightarrow> s') of
        None \<Rightarrow> None
      | Some (Some e, s') \<Rightarrow> Some (Inl e)
      | Some (None, s') \<Rightarrow> Some (Inr s')))))"

subsection \<open>What is listed for a tree\<close>

text \<open>The files and directories of a tree with their paths below it, in the order of \<^verbatim>\<open>AddPath\<close>.\<close>

fun tree_list :: "tree \<Rightarrow> (string list \<times> tree) list"
  and entry_list :: "(string \<times> tree) list \<Rightarrow> (string list \<times> tree) list" where
  "tree_list (File d) = [([], File d)]"
| "tree_list (Dir es) = entry_list es @ [([], Dir es)]"
| "tree_list Unreadable = []"
| "entry_list [] = []"
| "entry_list ((name, t) # es) = map (\<lambda>(ps, u). (name # ps, u)) (tree_list t) @ entry_list es"

lemma path_text_Cons: "path_text (c @ CHR ''/'' # p) ps = path_text c (p # ps)"
  by (simp add: path_text_def)

lemma add_path_records:
  "add_path s path t = (Inr (n, recs), s') \<Longrightarrow> st_open s \<Longrightarrow>
     recs = map (\<lambda>(ps, u). (node_cid (snd (tree_nodes u)), path_text path ps)) (tree_list t)"
  "add_entries s path b recs0 es = (Inr (b', recs'), s') \<Longrightarrow> st_open s \<Longrightarrow>
     recs' = recs0 @ map (\<lambda>(ps, u). (node_cid (snd (tree_nodes u)), path_text path ps)) (entry_list es)"
proof (induction s path t and s path b recs0 es arbitrary: n recs s' and b' recs' s' rule: add_path_add_entries.induct)
  case (2 s path data)
  then show ?case using honest_tree [of "File data"] by (auto simp: add_bytes_spec path_text_def)
next
  case (3 s path es)
  obtain b records s1 where e: "add_entries s path new_builder [] es = (Inr (b, records), s1)"
    using 3(2) by (auto split: prod.splits sum.splits)
  have "n = snd (tree_nodes (Dir es))" using add_path_spec(1) [OF 3(2,3)] by simp
  moreover have "recs = records @ [(node_cid n, path)]"
    using 3(2) e by (auto split: prod.splits sum.splits option.splits)
  ultimately show ?case using 3(1) [OF e 3(3)] by (simp add: path_text_def del: tree_nodes.simps honest_tree)
next
  case (5 s path b records name t es)
  obtain child recs s1 where c: "add_path s (path @ ''/'' @ name) t = (Inr (child, recs), s1)"
    using 5(3) by (auto split: prod.splits sum.splits)
  have open1: "st_open s1" using add_path_spec(1) [OF c 5(4)] 5(4) by simp
  have rest: "add_entries s1 path (add_link name child b) (records @ recs) es = (Inr (b', recs'), s')"
    using 5(3) c by simp
  have "recs = map (\<lambda>(ps, u). (node_cid (snd (tree_nodes u)), path_text path (name # ps))) (tree_list t)"
    using 5(1) [OF c 5(4)] by (simp add: path_text_Cons)
  then show ?case
    using 5(2) [OF c [symmetric] refl refl rest open1] by (simp add: comp_def case_prod_unfold)
qed simp_all

lemma tree_list_sub:
  "(ps, u) \<in> set (tree_list t) \<Longrightarrow> tree_ok t \<Longrightarrow> tree_ok u \<and> set (fst (tree_nodes u)) \<subseteq> set (fst (tree_nodes t))"
  "(ps, u) \<in> set (entry_list es) \<Longrightarrow> tree_ok (Dir es) \<Longrightarrow> tree_ok u \<and> set (fst (tree_nodes u)) \<subseteq> set (fst (entry_nodes es))"
proof (induction t and es arbitrary: ps and ps rule: tree_list_entry_list.induct)
  case (2 es)
  then show ?case by (cases "(ps, u) \<in> set (entry_list es)") (auto simp: Let_def)
next
  case (5 name t es)
  then consider ps' where "(ps', u) \<in> set (tree_list t)" | "(ps, u) \<in> set (entry_list es)" by auto
  then show ?case
  proof cases
    case 1
    then show ?thesis using 5(1) 5(4) by fastforce
  next
    case 2
    then show ?thesis using 5(2) 5(4) by fastforce
  qed
qed simp_all

subsection \<open>Clean paths\<close>

definition plain_name :: "string \<Rightarrow> bool" where
  "plain_name p \<longleftrightarrow> name_ok p \<and> p \<noteq> ''.'' \<and> p \<noteq> ''..''"

lemma clean_parts_plain: "\<forall>p \<in> set ps. plain_name p \<Longrightarrow> clean_parts acc ps = rev acc @ ps"
  by (induction ps arbitrary: acc) (auto simp: plain_name_def name_ok_def)

lemma clean_plain:
  assumes "\<forall>p \<in> set ps. plain_name p" and "ps \<noteq> []"
  shows "clean_rooted (path_text '''' ps) = path_text '''' ps"
proof -
  have "split_at (CHR ''/'') (path_text '''' ps) = '''' # ps"
    by (rule split_path) (use assms(1) in \<open>auto simp: plain_name_def name_ok_def\<close>)
  then show ?thesis using clean_parts_plain [OF assms(1), of "[]"] assms(2) by (simp add: clean_rooted_def split: list.split)
qed

lemma abs_plain:
  assumes "\<forall>q \<in> set (ws @ p # ps). plain_name q"
  shows "path_abs (Some (path_text '''' ws)) (path_text p ps) = Inr (path_text '''' (ws @ p # ps))"
proof -
  have p: "p \<noteq> ''''" "CHR ''/'' \<notin> set p" using assms by (simp_all add: plain_name_def name_ok_def)
  then have "take 1 (path_text p ps) \<noteq> ''/''" by (cases p) (auto simp: path_text_def)
  moreover have "path_text '''' ws @ ''/'' @ path_text p ps = path_text '''' (ws @ p # ps)"
    by (simp add: path_text_def)
  ultimately show ?thesis using clean_plain [OF assms] by (simp add: path_abs_def)
qed

lemma trim_plain:
  "trim_suffix (path_text '''' (ws @ p # ps)) (path_text p ps) = path_text '''' ws @ ''/''"
  "trim_prefix (path_text (path_text '''' (ws @ p # ps)) qs) (path_text '''' ws @ ''/'') = path_text p (ps @ qs)"
proof -
  have e: "path_text '''' (ws @ p # ps) = (path_text '''' ws @ ''/'') @ path_text p ps"
    by (simp add: path_text_def)
  show "trim_suffix (path_text '''' (ws @ p # ps)) (path_text p ps) = path_text '''' ws @ ''/''"
    unfolding e trim_suffix_def by simp
  have "path_text (path_text '''' (ws @ p # ps)) qs = (path_text '''' ws @ ''/'') @ path_text p (ps @ qs)"
    by (simp add: path_text_def)
  then show "trim_prefix (path_text (path_text '''' (ws @ p # ps)) qs) (path_text '''' ws @ ''/'') = path_text p (ps @ qs)"
    unfolding trim_prefix_def by simp
qed

lemma cat_tree:
  assumes "api_open a" and "tree_ok t" and "\<forall>n \<in> set (fst (tree_nodes t)). holds (dm_store d) n"
  shows "\<exists>f. peer_cat f (node_cid (snd (tree_nodes t))) a d = Some (outcome (tree_bytes t))"
proof -
  obtain f where f: "read_bytes f (dm_store d) (snd (tree_nodes t)) = Some (outcome (tree_bytes t))"
    using tree_read(1) [OF assms(2,3)] by blast
  have "resolve (dm_store d) (node_cid (snd (tree_nodes t))) [] = Inr (snd (tree_nodes t))"
    using tree_resolve [OF assms(2,3), of "[]"] by (simp del: honest_tree)
  then have "resolve_path (dm_store d) (node_cid (snd (tree_nodes t))) = Inr (snd (tree_nodes t))"
    using resolve_path_text [of "[]" "dm_store d"] by (simp add: path_text_def)
  then have "peer_cat f (node_cid (snd (tree_nodes t))) a d = Some (outcome (tree_bytes t))"
    using f assms(1) by (simp add: peer_cat_def api_cat_def daemon_cat_def outcome_def split: option.split)
  then show ?thesis ..
qed

subsection \<open>Properties\<close>

text \<open>
  C20: \<^verbatim>\<open>inu peer add\<close> prints what it added and \<^verbatim>\<open>inu peer cat\<close> reads it. For an argument that is a plain
  relative path, names other than \<^verbatim>\<open>.\<close> and \<^verbatim>\<open>..\<close> with single slashes between them, the command prints
  the number of the files and directories of the tree there and for each of them its identifier and
  its path, which begins with the argument; every identifier that is printed reads as what it stands
  for, unless two blocks of the tree have one SHA-256 digest. If the tree cannot be added, the error is
  that it is too large.
\<close>

theorem peer_add_lists:
  assumes "api_open a" and "st_open (dm_store d)" and "\<forall>q \<in> set (ws @ p # ps). plain_name q"
    and "tree_ok (disk (path_text '''' (ws @ p # ps)))"
  shows "let t = disk (path_text '''' (ws @ p # ps)) in
    case peer_add (Some (path_text '''' ws)) disk (path_text p ps) a d of
      (Inl e, d') \<Rightarrow> e = DataTooLarge
    | (Inr out, d') \<Rightarrow>
        out = ''added '' @ show_nat (length (tree_list t)) @ '' item(s)'' @ [CHR 0x0A] @
          concat (map (\<lambda>(qs, u). node_cid (snd (tree_nodes u)) @ '' '' @ path_text p (ps @ qs) @ [CHR 0x0A]) (tree_list t)) \<and>
        (collides (fst (tree_nodes t)) \<or>
         (\<forall>(qs, u) \<in> set (tree_list t). \<exists>f. peer_cat f (node_cid (snd (tree_nodes u))) a d' = Some (outcome (tree_bytes u))))"
proof -
  let ?full = "path_text '''' (ws @ p # ps)"
  let ?t = "disk ?full"
  obtain r s' where r: "add_path (dm_store d) ?full ?t = (r, s')" by fastforce
  note abs = abs_plain [OF assms(3)]
  show ?thesis
  proof (cases r)
    case (Inl e)
    then have "e = DataTooLarge" using add_path_errors(1) r assms(2,4) by simp
    then show ?thesis using abs r Inl assms(1) by (simp add: peer_add_def api_add_path_def rpc_call_def daemon_add_path_def Let_def)
  next
    case (Inr nr)
    obtain n recs where nr: "nr = (n, recs)" by fastforce
    note a = r [unfolded Inr nr]
    have recs: "recs = map (\<lambda>(qs, u). (node_cid (snd (tree_nodes u)), path_text ?full qs)) (tree_list ?t)"
      by (rule add_path_records(1) [OF a assms(2)])
    have out: "peer_add (Some (path_text '''' ws)) disk (path_text p ps) a d =
      (Inr (''added '' @ show_nat (length (tree_list ?t)) @ '' item(s)'' @ [CHR 0x0A] @
          concat (map (\<lambda>(qs, u). node_cid (snd (tree_nodes u)) @ '' '' @ path_text p (ps @ qs) @ [CHR 0x0A]) (tree_list ?t))),
       d\<lparr>dm_store := s'\<rparr>)"
      using abs a assms(1) recs
      by (simp add: peer_add_def api_add_path_def rpc_call_def daemon_add_path_def trim_plain comp_def case_prod_unfold
          del: honest_tree)
    have "\<forall>(qs, u) \<in> set (tree_list ?t). \<exists>f. peer_cat f (node_cid (snd (tree_nodes u))) a (d\<lparr>dm_store := s'\<rparr>) = Some (outcome (tree_bytes u))"
      if nc: "\<not> collides (fst (tree_nodes ?t))"
    proof -
      have "s' = put_all (dm_store d) (fst (tree_nodes ?t))" using add_path_spec(1) [OF a assms(2)] by simp
      then have h: "\<forall>n \<in> set (fst (tree_nodes ?t)). holds s' n"
        using put_all_holds [OF assms(2)] honest_nodes(1) nc no_collision_or by blast
      show ?thesis
      proof clarify
        fix qs u assume u: "(qs, u) \<in> set (tree_list ?t)"
        show "\<exists>f. peer_cat f (node_cid (snd (tree_nodes u))) a (d\<lparr>dm_store := s'\<rparr>) = Some (outcome (tree_bytes u))"
          by (rule cat_tree [OF assms(1)]) (use tree_list_sub(1) [OF u assms(4)] h in auto)
      qed
    qed
    then show ?thesis unfolding Let_def out prod.case sum.case by blast
  qed
qed

theorem peer_add_lists_witness:
  "\<exists>out d'. peer_add (Some ''/w'') (\<lambda>_. File [5]) ''f'' \<lparr>api_port = 4000, api_open = True\<rparr> sample_daemon = (Inr out, d') \<and>
     out = ''added 1 item(s)'' @ [CHR 0x0A] @ node_cid (leaf (Some [5])) @ '' f'' @ [CHR 0x0A] \<and>
     (\<exists>g. peer_cat g (node_cid (leaf (Some [5]))) \<lparr>api_port = 4000, api_open = True\<rparr> d' = Some (Inr [5]))"
proof -
  let ?a = "\<lparr>api_port = 4000, api_open = True\<rparr>"
  let ?r = "peer_add (Some ''/w'') (\<lambda>_. File [5]) ''f'' ?a sample_daemon"
  have f: "file_dag (Some [5]) = ([leaf (Some [5])], leaf (Some [5]))"
    by (rule file_dag_small) (simp add: chunk_size_def)
  have plain: "\<forall>q \<in> set ([''w''] @ ''f'' # []). plain_name q" by (simp add: plain_name_def name_ok_def)
  have one: "show_nat 1 = ''1''" by (simp add: show_nat.simps digit_def char_of_def bit_iff_odd)
  have full: "path_abs (Some ''/w'') ''f'' = Inr ''/w/f''"
    using abs_plain [OF plain] by (simp add: path_text_def)
  obtain out d' where out: "?r = (Inr out, d')"
    using full sample_daemon_ok(1)
    by (simp add: peer_add_def api_add_path_def rpc_call_def daemon_add_path_def add_bytes_spec)
  have c: "\<not> collides (fst (tree_nodes (File [5])))" by (simp add: f collides_def)
  have "tree_ok ((\<lambda>_. File [5]) (path_text '''' ([''w''] @ ''f'' # [])))" by simp
  note P = peer_add_lists [of ?a sample_daemon "[''w'']" "''f''" "[]" "\<lambda>_. File [5]", OF _ sample_daemon_ok(1) plain this]
  have texts: "path_text '''' [''w''] = ''/w''" "path_text ''f'' [] = ''f''" by (simp_all add: path_text_def)
  have "out = ''added '' @ show_nat 1 @ '' item(s)'' @ [CHR 0x0A] @ node_cid (leaf (Some [5])) @ '' '' @ ''f'' @ [CHR 0x0A] \<and>
      (\<exists>g. peer_cat g (node_cid (leaf (Some [5]))) ?a d' = Some (Inr [5]))"
    using P [unfolded Let_def texts out prod.case sum.case] c by (simp add: f outcome_def texts del: honest_tree)
  then show ?thesis using out one by (intro exI [of _ out] exI [of _ d']) simp
qed

text \<open>
  The empty content has two identifiers: an empty file that is added by its path becomes a block with
  an empty text, the same content sent through the API becomes one with null.
\<close>

theorem api_empty_bytes:
  assumes "api_open a" and "st_open (dm_store d)"
  shows "\<exists>c1 d1 c2 d2. api_add_bytes a (Some []) d = ((c1, None), d1) \<and>
    daemon_add_path d path (File []) = (Inr [(c2, path)], d2) \<and> (c1 = c2 \<longrightarrow> collides [leaf None, leaf (Some [])])"
proof -
  have "length [] \<le> chunk_size" by simp
  then have f: "file_dag (Some []) = ([leaf (Some [])], leaf (Some []))" by (rule file_dag_small)
  have n: "file_dag None = ([leaf None], leaf None)" by (simp add: file_dag_def data_chunks_def)
  have "unmarshal_inode (mn_data (leaf x)) = Inr (Raw x)" for x
    unfolding leaf_def mn_data_def node_of_def by (simp add: unmarshal_inode_json del: inode_json.simps)
  then have "unmarshal_inode (mn_data (leaf None)) \<noteq> unmarshal_inode (mn_data (leaf (Some [])))" by simp
  then have "leaf None \<noteq> leaf (Some [])" by auto
  then have "node_bytes (leaf None) \<noteq> node_bytes (leaf (Some [])) \<or> node_cid (leaf None) \<noteq> node_cid (leaf (Some []))"
    using genuine_leaf [of None] genuine_leaf [of "Some []"] by (metis block.equality genuine_def sum.inject(2) old.unit.exhaust)
  then have "node_cid (leaf None) = node_cid (leaf (Some [])) \<longrightarrow> collides [leaf None, leaf (Some [])]"
    using genuine_leaf [of None] genuine_leaf [of "Some []"] cid_of_inject by (auto simp: collides_def genuine_def)
  then show ?thesis
    using assms add_bytes_spec [OF assms(2), of None] add_bytes_spec [OF assms(2), of "Some []"]
    by (simp add: api_add_bytes_def rpc_call_def gob_bytes_def daemon_add_bytes_def daemon_add_path_def f n)
qed

text \<open>
  Without a daemon on the port and without a public IP a command panics: it starts a daemon of its own,
  which has to have one.
\<close>

theorem command_panics:
  assumes "dc_public_ip c = ''''" and "daemon_offline can_listen closes = Inr True"
  shows "run_api_func (Inr c) (daemon_offline can_listen closes) table dialed running fn = None"
  using assms by (simp add: run_api_func_def new_daemon_def)

text \<open>
  A path that \<^verbatim>\<open>filepath.Abs\<close> changes is not printed as it was given: for the working directory itself
  the path is empty.
\<close>

theorem dot_prints_nothing:
  assumes "\<forall>q \<in> set ws. plain_name q" and "ws \<noteq> []" and "last (last ws) \<noteq> CHR ''.''"
  shows "path_abs (Some (path_text '''' ws)) ''.'' = Inr (path_text '''' ws) \<and>
    trim_prefix (path_text '''' ws) (trim_suffix (path_text '''' ws) ''.'') = ''''"
proof -
  have ns: "\<forall>q \<in> set (ws @ [''.'']). CHR ''/'' \<notin> set q" using assms(1) by (auto simp: plain_name_def name_ok_def)
  have parts: "split_at (CHR ''/'') (path_text '''' (ws @ [''.''])) = '''' # ws @ [''.'']"
    by (rule split_path) (use ns in auto)
  have "clean_parts acc (ws @ [''.'']) = rev acc @ ws" for acc
    using assms(1) by (induction ws arbitrary: acc) (auto simp: plain_name_def name_ok_def)
  then have "clean_rooted (path_text '''' (ws @ [''.''])) = path_text '''' ws"
    using parts assms(2) by (simp add: clean_rooted_def split: list.split)
  moreover have "path_text '''' ws @ ''/'' @ ''.'' = path_text '''' (ws @ [''.''])" by (simp add: path_text_def)
  moreover have "drop (length (path_text '''' ws) - length ''.'') (path_text '''' ws) \<noteq> ''.''"
  proof -
    have e: "path_text '''' ws = path_text '''' (butlast ws) @ CHR ''/'' # last ws"
      using assms(2) by (cases ws rule: rev_cases) (simp_all add: path_text_def)
    have ne: "last ws \<noteq> ''''" using assms(1,2) by (auto simp: plain_name_def name_ok_def)
    then obtain us u where u: "last ws = us @ [u]" by (metis append_butlast_last_id)
    then show ?thesis using assms(3) unfolding e u by simp
  qed
  ultimately show ?thesis by (simp add: path_abs_def trim_suffix_def trim_prefix_def)
qed

end
