(* ===== verification/Evaluate.thy ===== *)
theory Evaluate
  imports Node
begin

text \<open>
  The allocators of the evaluation (\<^verbatim>\<open>cmd/evaluate/eval.go\<close>): IPv4 addresses of a range and temporary
  files, each handed out by one goroutine and taken back by another.  The range is given as its four
  bytes and the length of its prefix, as \<^verbatim>\<open>net.ParseCIDR\<close> returns it for an IPv4 range.
\<close>

subsection \<open>IPv4 addresses\<close>

text \<open>\<^verbatim>\<open>incIP\<close>: \<open>j\<close> bytes are left, the last of them is incremented; a carry goes on with those before.\<close>

fun inc_bytes :: "nat \<Rightarrow> u8 list \<Rightarrow> u8 list" where
  "inc_bytes 0 ip = ip"
| "inc_bytes (Suc j) ip =
     (let ip' = ip[j := ip ! j + 1] in if ip' ! j > 0 then ip' else inc_bytes j ip')"

definition inc_ip :: "u8 list \<Rightarrow> u8 list" where
  "inc_ip ip = inc_bytes (length ip) ip"

fun show_ip :: "u8 list \<Rightarrow> string" where
  "show_ip [a, b, c, d] = show_v4 a b c d"
| "show_ip _ = ''''"

text \<open>\<^verbatim>\<open>net.CIDRMask\<close>, \<^verbatim>\<open>IP.Mask\<close> and \<^verbatim>\<open>IPNet.Contains\<close>\<close>

fun cidr_mask :: "nat \<Rightarrow> nat \<Rightarrow> u8 list" where
  "cidr_mask 0 n = []"
| "cidr_mask (Suc l) n = (if n \<ge> 8 then 255 # cidr_mask l (n - 8) else NOT (mask (8 - n)) # cidr_mask l 0)"

definition mask_ip :: "u8 list \<Rightarrow> nat \<Rightarrow> u8 list" where
  "mask_ip ip n = map2 (AND) ip (cidr_mask (length ip) n)"

definition net_contains :: "u8 list \<Rightarrow> nat \<Rightarrow> u8 list \<Rightarrow> bool" where
  "net_contains net n ip \<longleftrightarrow> mask_ip net n = mask_ip ip n"

text \<open>The loop over the range, from \<open>ip\<close> on; it need not end.\<close>

partial_function (option) range_loop :: "u8 list \<Rightarrow> nat \<Rightarrow> u8 list \<Rightarrow> string list option" where
  "range_loop net n ip =
     (if net_contains net n ip
      then Option.bind (range_loop net n (inc_ip ip)) (\<lambda>r. Some (show_ip ip # r)) else Some [])"

record ip_alloc =
  ia_free :: "string list"
  ia_offer :: "string option"     \<comment> \<open>what the goroutine offers on the channel\<close>
  ia_prefix_len :: nat

text \<open>
  The outer \<open>None\<close> is a call that does not return, the inner one a panic: \<^verbatim>\<open>r[1:len(r)-1]\<close> on a
  range of one address.
\<close>

definition allocate_ipv4 :: "u8 list \<Rightarrow> nat \<Rightarrow> ip_alloc option option" where
  "allocate_ipv4 ip n =
     map_option (\<lambda>r. if length r - 1 < 1 then None
        else Some \<lparr>ia_free = take (length r - 2) (drop 1 r), ia_offer = None, ia_prefix_len = n\<rparr>)
       (range_loop (mask_ip ip n) n (mask_ip ip n))"

text \<open>
  The goroutines: one takes the next address and offers it, the other takes addresses back.  A pick
  with nothing left is an index out of range.
\<close>

definition ip_pick :: "ip_alloc \<Rightarrow> ip_alloc option" where
  "ip_pick a = (case ia_free a of [] \<Rightarrow> None | x # xs \<Rightarrow> Some (a\<lparr>ia_free := xs, ia_offer := Some x\<rparr>))"

definition ip_give :: "ip_alloc \<Rightarrow> ip_alloc" where
  "ip_give a = a\<lparr>ia_offer := None\<rparr>"

definition ip_return :: "string \<Rightarrow> ip_alloc \<Rightarrow> ip_alloc" where
  "ip_return x a = a\<lparr>ia_free := ia_free a @ [x]\<rparr>"

text \<open>The states of an allocator, with the addresses that are handed out.\<close>

inductive ip_reachable :: "ip_alloc \<Rightarrow> ip_alloc \<Rightarrow> string list \<Rightarrow> bool" for a0 where
  Init: "ip_reachable a0 a0 []"
| Pick: "\<lbrakk>ip_reachable a0 a held; ia_offer a = None; ip_pick a = Some a'\<rbrakk> \<Longrightarrow> ip_reachable a0 a' held"
| Give: "\<lbrakk>ip_reachable a0 a held; ia_offer a = Some x\<rbrakk> \<Longrightarrow> ip_reachable a0 (ip_give a) (x # held)"
| Return: "\<lbrakk>ip_reachable a0 a held; x \<in> set held\<rbrakk> \<Longrightarrow> ip_reachable a0 (ip_return x a) (remove1 x held)"

subsection \<open>Incrementing\<close>

lemma length_inc [simp]: "length (inc_bytes j ip) = length ip"
  by (induction j ip rule: inc_bytes.induct) (simp_all add: Let_def)

lemma byte_succ: "unat (b + 1 :: u8) = (if unat b = 255 then 0 else unat b + 1)"
proof -
  have "unat (b + 1) = (unat b + 1) mod 256"
    by (simp add: unat_word_ariths)
  moreover have "unat b + 1 < 256 \<or> unat b = 255"
    using unat_u8 [of b] by linarith
  ultimately show ?thesis
    by auto
qed

lemma inc_bytes_value:
  "j \<le> length ip \<Longrightarrow>
   set_bytes (take j (inc_bytes j ip)) = (set_bytes (take j ip) + 1) mod 256 ^ j \<and> drop j (inc_bytes j ip) = drop j ip"
proof (induction j ip rule: inc_bytes.induct)
  case (2 j ip)
  define ip' where "ip' = ip[j := ip ! j + 1]"
  have len: "j < length ip" "length ip' = length ip" and nth: "ip' ! j = ip ! j + 1"
    using 2(2) by (simp_all add: ip'_def)
  have tk: "take (Suc j) ip = take j ip @ [ip ! j]" "take j ip' = take j ip" "drop (Suc j) ip' = drop (Suc j) ip"
    using len by (simp_all add: take_Suc_conv_app_nth ip'_def)
  have bound: "set_bytes (take j ip) < 256 ^ j"
    using set_bytes_bound [of "take j ip"] len by simp
  show ?case
  proof (cases "ip' ! j > 0")
    case True
    then have "unat (ip ! j) \<noteq> 255"
      using byte_succ [of "ip ! j"] nth by (auto simp: word_gt_0 unat_eq_0)
    moreover have "take (Suc j) ip' = take j ip @ [ip ! j + 1]"
      using len nth tk(2) by (simp add: take_Suc_conv_app_nth)
    moreover have "256 * set_bytes (take j ip) + unat (ip ! j) + 1 < 256 * 256 ^ j"
      using bound calculation(1) unat_u8 [of "ip ! j"] by linarith
    ultimately show ?thesis
      using True tk byte_succ [of "ip ! j"] by (simp add: ip'_def [symmetric] Let_def)
  next
    case False
    then have z: "unat (ip ! j) = 255" "ip' ! j = 0"
      using byte_succ [of "ip ! j"] nth by (auto simp: word_gt_0 split: if_splits)
    have IH: "set_bytes (take j (inc_bytes j ip')) = (set_bytes (take j ip) + 1) mod 256 ^ j"
      "drop j (inc_bytes j ip') = drop j ip'"
      using 2(1) [OF ip'_def False] len tk(2) by simp_all
    have "inc_bytes j ip' ! j = 0"
      using IH(2) z(2) len by (metis hd_drop_conv_nth length_inc)
    then have "take (Suc j) (inc_bytes j ip') = take j (inc_bytes j ip') @ [0]"
      using len by (simp add: take_Suc_conv_app_nth)
    moreover have "drop (Suc j) (inc_bytes j ip') = drop (Suc j) ip"
      using IH(2) tk(3) by (metis drop_drop plus_1_eq_Suc)
    ultimately show ?thesis
      using False z tk IH(1) by (simp add: ip'_def [symmetric] Let_def mult_mod_right)
  qed
qed simp

lemma inc_ip_value: "set_bytes (inc_ip ip) = (set_bytes ip + 1) mod 256 ^ length ip"
  using inc_bytes_value [of "length ip" ip] by (simp add: inc_ip_def)

lemma length_inc_ip [simp]: "length (inc_ip ip) = length ip"
  by (simp add: inc_ip_def)

subsection \<open>Ranges\<close>

lemma masked_byte: "unat ((x :: u8) AND NOT (mask m)) = unat x div 2 ^ m * 2 ^ m"
proof -
  have "x AND NOT (mask m) = push_bit m (drop_bit m x)"
    by (rule bit_word_eqI) (auto simp: bit_simps)
  then have "unat (x AND NOT (mask m)) = take_bit 8 (push_bit m (drop_bit m (take_bit 8 (unat x))))"
    by (simp only: unsigned_push_bit_eq unsigned_drop_bit_eq) simp
  also have "\<dots> = take_bit 8 (unat x div 2 ^ m * 2 ^ m)"
    by (simp add: take_bit_nat_eq_self push_bit_eq_mult drop_bit_eq_div)
  also have "\<dots> = unat x div 2 ^ m * 2 ^ m"
    using le_less_trans [OF div_times_less_eq_dividend unat_u8 [of x]] by (simp add: take_bit_nat_eq_self)
  finally show ?thesis .
qed

lemma length_cidr_mask [simp]: "length (cidr_mask l n) = l"
  by (induction l n rule: cidr_mask.induct) simp_all

lemma mask_zero: "map2 (AND) xs (cidr_mask (length xs) 0) = replicate (length xs) (0 :: u8)"
proof (induction xs)
  case (Cons x xs)
  have "NOT (mask 8) = (0 :: u8)" by (rule bit_word_eqI) (auto simp: bit_simps)
  then show ?case using Cons by simp
qed simp

lemma high_div: "(a * (B * 2 ^ h) + r) div 2 ^ h = a * B + r div (2 ^ h :: nat)"
proof -
  have "a * (B * 2 ^ h) + r = r + a * B * 2 ^ h" by simp
  then show ?thesis by (simp only: div_mult_self1) simp
qed

text \<open>Masking clears the bits below the prefix.\<close>

lemma masked_value:
  "n \<le> 8 * length xs \<Longrightarrow>
   set_bytes (map2 (AND) xs (cidr_mask (length xs) n)) = set_bytes xs div 2 ^ (8 * length xs - n) * 2 ^ (8 * length xs - n)"
proof (induction xs arbitrary: n)
  case (Cons x xs)
  define l where "l = length xs"
  have pow: "(256 :: nat) ^ l = 2 ^ (8 * l)"
    by (simp add: power_mult)
  have b: "set_bytes xs < 2 ^ (8 * l)"
    using set_bytes_bound [of xs] pow by (simp add: l_def)
  show ?case
  proof (cases "n \<ge> 8")
    case True
    define h where "h = 8 * l - (n - 8)"
    define B :: nat where "B = 2 ^ (8 * l - h)"
    have h: "8 * length (x # xs) - n = h" "h \<le> 8 * l" "n - 8 \<le> 8 * l"
      using True Cons.prems by (auto simp: h_def l_def)
    have pB: "2 ^ (8 * l) = B * 2 ^ h"
      using h(2) by (simp add: B_def power_add [symmetric])
    have "(255 :: u8) = - 1" by simp
    then have "x AND 255 = x" by (simp only: bit.conj_one_right)
    then have "set_bytes (map2 (AND) (x # xs) (cidr_mask (length (x # xs)) n)) =
        unat x * (B * 2 ^ h) + set_bytes xs div 2 ^ h * 2 ^ h"
      using True Cons.IH [of "n - 8"] h(3) pow pB by (simp add: set_bytes_Cons h_def l_def)
    also have "\<dots> = (unat x * (B * 2 ^ h) + set_bytes xs) div 2 ^ h * 2 ^ h"
      unfolding high_div by (simp add: algebra_simps)
    also have "unat x * (B * 2 ^ h) + set_bytes xs = set_bytes (x # xs)"
      using pow pB by (simp add: set_bytes_Cons l_def)
    finally show ?thesis by (simp only: h(1))
  next
    case False
    define m where "m = 8 - n"
    have e: "8 * length (x # xs) - n = 8 * l + m" using False by (simp add: m_def l_def)
    have "set_bytes (x # xs) div 2 ^ (8 * l + m) = unat x div 2 ^ m"
      using b pow by (simp add: set_bytes_Cons l_def [symmetric] power_add div_mult2_eq)
    moreover have "set_bytes (map2 (AND) (x # xs) (cidr_mask (length (x # xs)) n)) = unat x div 2 ^ m * 2 ^ m * 2 ^ (8 * l)"
      using False mask_zero [of xs] masked_byte [of x m] pow set_bytes_zeros [of l "[]"]
      by (simp add: set_bytes_Cons m_def [symmetric] l_def)
    ultimately show ?thesis
      by (simp only: e) (simp add: power_add)
  qed
qed simp

lemma net_contains_value:
  assumes "length net = length ip" "n \<le> 8 * length ip"
  shows "net_contains net n ip \<longleftrightarrow>
    set_bytes net div 2 ^ (8 * length ip - n) = set_bytes ip div 2 ^ (8 * length ip - n)"
proof -
  have "net_contains net n ip \<longleftrightarrow> set_bytes (mask_ip net n) = set_bytes (mask_ip ip n)"
    unfolding net_contains_def using assms(1) by (simp add: set_bytes_inject mask_ip_def)
  then show ?thesis
    using masked_value [of n net] masked_value [of n ip] assms by (simp add: mask_ip_def)
qed

text \<open>The address of a number\<close>

definition ip_of :: "nat \<Rightarrow> u8 list" where
  "ip_of v = map (\<lambda>i. of_nat (v div 256 ^ i)) [3, 2, 1, 0]"

lemma length_ip_of [simp]: "length (ip_of v) = 4"
  by (simp add: ip_of_def)

lemma ip_of_value:
  assumes "v < 2 ^ 32"
  shows "set_bytes (ip_of v) = v"
proof -
  define a b c where "a = v div 256" and "b = a div 256" and "c = b div 256"
  have "v div 256 ^ 3 = c" "v div 256 ^ 2 = b" "v div 256 ^ 1 = a" "v div 256 ^ 0 = v"
    by (simp_all add: a_def b_def c_def div_mult2_eq [symmetric])
  then have ip: "ip_of v = [of_nat c, of_nat b, of_nat a, of_nat v]"
    by (simp only: ip_of_def list.map)
  have "c < 256"
    using assms by (simp add: a_def b_def c_def less_mult_imp_div_less)
  then have "set_bytes (ip_of v) = 256 * (256 * (256 * c + b mod 256) + a mod 256) + v mod 256"
    unfolding ip by (simp add: set_bytes_def unat_of_nat)
  also have "\<dots> = v"
    by (simp add: a_def b_def c_def)
  finally show ?thesis .
qed

lemma ip_of_eq: "length bs = 4 \<Longrightarrow> ip_of (set_bytes bs) = bs"
  using set_bytes_bound [of bs] ip_of_value [of "set_bytes bs"] set_bytes_inject [of "ip_of (set_bytes bs)" bs] by simp

lemma inc_ip_of:
  assumes v: "v < 2 ^ 32"
  shows "inc_ip (ip_of v) = ip_of (if v + 1 = 2 ^ 32 then 0 else v + 1)"
proof -
  have "inc_ip (ip_of v) = ip_of (set_bytes (inc_ip (ip_of v)))"
    by (rule ip_of_eq [symmetric]) simp
  also have "set_bytes (inc_ip (ip_of v)) = (v + 1) mod 256 ^ 4"
    by (simp only: inc_ip_value ip_of_value [OF v] length_ip_of)
  also have "\<dots> = (if v + 1 = 2 ^ 32 then 0 else v + 1)"
    using v by simp
  finally show ?thesis .
qed

lemma contains_ip_of:
  assumes "n \<le> 32" "base < 2 ^ 32" "v < 2 ^ 32"
  shows "net_contains (ip_of base) n (ip_of v) \<longleftrightarrow> base div 2 ^ (32 - n) = v div 2 ^ (32 - n)"
  using net_contains_value [of "ip_of base" "ip_of v" n] assms by (simp add: ip_of_value)

lemma range_loop_block:
  assumes n: "1 \<le> n" "n \<le> 32" and top: "q * 2 ^ (32 - n) + 2 ^ (32 - n) \<le> 2 ^ 32"
  shows "i \<le> 2 ^ (32 - n) \<Longrightarrow>
    range_loop (ip_of (q * 2 ^ (32 - n))) n (ip_of (if q * 2 ^ (32 - n) + i = 2 ^ 32 then 0 else q * 2 ^ (32 - n) + i)) =
      Some (map (show_ip \<circ> ip_of) [q * 2 ^ (32 - n) + i ..< q * 2 ^ (32 - n) + 2 ^ (32 - n)])"
proof -
  define H :: nat where "H = 2 ^ (32 - n)"
  have H0: "0 < H" and top': "q * H + H \<le> 2 ^ 32"
    using top by (simp_all add: H_def)
  then have bs: "q * H < 2 ^ 32" by linarith
  have two: "2 * H \<le> 2 ^ 32"
    using n(1) power_increasing [of "Suc (32 - n)" 32 "2 :: nat"] n(2) by (simp add: H_def)
  note cont = contains_ip_of [OF n(2) bs, folded H_def]
  have "i \<le> H \<Longrightarrow> range_loop (ip_of (q * H)) n (ip_of (if q * H + i = 2 ^ 32 then 0 else q * H + i)) =
      Some (map (show_ip \<circ> ip_of) [q * H + i ..< q * H + H])"
  proof (induction "H - i" arbitrary: i)
    case 0
    then have i: "i = H" by simp
    have "\<not> net_contains (ip_of (q * H)) n (ip_of (if q * H + i = 2 ^ 32 then 0 else q * H + i))"
    proof (cases "q * H + H = 2 ^ 32")
      case True
      then have "0 < q" using two H0 by (cases q) auto
      then show ?thesis using True i cont [of 0] H0 by simp
    next
      case False
      then have "(q * H + H) div H \<noteq> q" "q * H + H < 2 ^ 32" using H0 top' by simp_all
      then show ?thesis using i False cont [of "q * H + H"] H0 by simp
    qed
    then show ?case using i by (subst range_loop.simps) simp
  next
    case (Suc x)
    then have i: "i < H" "x = H - Suc i" by simp_all
    then have v: "q * H + i < 2 ^ 32" using top' by simp
    have "(q * H + i) div H = q" using i(1) by simp
    then have "net_contains (ip_of (q * H)) n (ip_of (q * H + i))" using cont [OF v] H0 by simp
    moreover have "range_loop (ip_of (q * H)) n (inc_ip (ip_of (q * H + i))) =
        Some (map (show_ip \<circ> ip_of) [q * H + Suc i ..< q * H + H])"
    proof -
      have "inc_ip (ip_of (q * H + i)) = ip_of (if q * H + Suc i = 2 ^ 32 then 0 else q * H + Suc i)"
        using inc_ip_of [OF v] by (simp only: add.assoc Suc_eq_plus1)
      then show ?thesis
        using Suc.hyps(1) [OF i(2)] i(1) by (simp only: Suc_leI)
    qed
    ultimately have "range_loop (ip_of (q * H)) n (ip_of (q * H + i)) =
        Some (show_ip (ip_of (q * H + i)) # map (show_ip \<circ> ip_of) [q * H + Suc i ..< q * H + H])"
      by (subst range_loop.simps) simp
    then show ?case using v i(1) by (simp add: upt_conv_Cons)
  qed
  then show "i \<le> 2 ^ (32 - n) \<Longrightarrow> ?thesis" by (simp only: H_def)
qed

text \<open>A range of all addresses never ends.\<close>

lemma range_loop_all: "length net = 4 \<Longrightarrow> length ip = 4 \<Longrightarrow> range_loop net 0 ip = None"
proof (rule ccontr)
  assume len: "length net = 4" "length ip = 4" and "range_loop net 0 ip \<noteq> None"
  then obtain r where r: "range_loop net 0 ip = Some r" by blast
  have "length net = 4 \<longrightarrow> length ip = 4 \<longrightarrow> n \<noteq> 0" if "range_loop net n ip = Some r" for net n ip r
  proof (rule range_loop.raw_induct [where P = "\<lambda>net n ip r. length net = 4 \<longrightarrow> length ip = 4 \<longrightarrow> n \<noteq> 0", OF _ that])
    fix f :: "u8 list \<Rightarrow> nat \<Rightarrow> u8 list \<Rightarrow> string list option" and net n ip r
    assume IH: "\<And>net n ip r. f net n ip = Some r \<Longrightarrow> length net = 4 \<longrightarrow> length ip = 4 \<longrightarrow> n \<noteq> 0"
      and eq: "(if net_contains net n ip
        then Option.bind (f net n (inc_ip ip)) (\<lambda>r. Some (show_ip ip # r)) else Some []) = Some r"
    show "length net = 4 \<longrightarrow> length ip = 4 \<longrightarrow> n \<noteq> 0"
    proof (intro impI notI)
      assume l: "length net = 4" "length ip = 4" "n = 0"
      have "set_bytes net < 2 ^ 32" "set_bytes ip < 2 ^ 32"
        using set_bytes_bound [of net] set_bytes_bound [of ip] l by simp_all
      then have "net_contains net n ip" using net_contains_value [of net ip n] l by simp
      then obtain r' where "f net n (inc_ip ip) = Some r'" using eq by (auto simp: bind_eq_Some_conv)
      then show False using IH [of net n "inc_ip ip" r'] l by simp
    qed
  qed
  then show False using r len by blast
qed

lemma mask_ip_of:
  assumes "length ip = 4" "n \<le> 32"
  shows "mask_ip ip n = ip_of (set_bytes ip div 2 ^ (32 - n) * 2 ^ (32 - n))"
proof -
  have "set_bytes (mask_ip ip n) = set_bytes ip div 2 ^ (32 - n) * 2 ^ (32 - n)"
    using masked_value [of n ip] assms by (simp add: mask_ip_def)
  moreover have "length (mask_ip ip n) = 4" using assms by (simp add: mask_ip_def)
  ultimately show ?thesis using ip_of_eq by metis
qed

lemma allocate_block:
  assumes ip: "length ip = 4" and n: "1 \<le> n" "n \<le> 32"
  defines "H \<equiv> 2 ^ (32 - n) :: nat" and "base \<equiv> set_bytes ip div 2 ^ (32 - n) * 2 ^ (32 - n)"
  shows "allocate_ipv4 ip n =
    Some (if n = 32 then None
          else Some \<lparr>ia_free = map (show_ip \<circ> ip_of) [base + 1 ..< base + H - 1], ia_offer = None, ia_prefix_len = n\<rparr>)"
proof -
  define q where "q = set_bytes ip div H"
  have base: "base = q * H" by (simp add: base_def q_def H_def)
  have H0: "0 < H" by (simp add: H_def)
  have pw: "2 ^ n * H = (2 ^ 32 :: nat)"
    using n by (simp add: H_def power_add [symmetric])
  have "set_bytes ip < 2 ^ 32" using set_bytes_bound [of ip] ip by simp
  then have "q < 2 ^ n" using pw by (simp add: q_def less_mult_imp_div_less)
  then have "(q + 1) * H \<le> 2 ^ n * H" by (intro mult_le_mono1) simp
  then have top: "q * H + H \<le> 2 ^ 32" using pw by simp
  then have "q * H < 2 ^ 32" using H0 by linarith
  then have loop: "range_loop (mask_ip ip n) n (mask_ip ip n) = Some (map (show_ip \<circ> ip_of) [base ..< base + H])"
    using range_loop_block [OF n, of q 0] top mask_ip_of [OF ip n(2)] by (simp add: H_def base_def q_def)
  have "take (H - 2) (drop 1 (map (show_ip \<circ> ip_of) [base ..< base + H])) = map (show_ip \<circ> ip_of) [base + 1 ..< base + H - 1]"
  proof (cases "H = 1")
    case False
    then have "base + 1 + (H - 2) = base + H - 1" "base + 1 + (H - 2) \<le> base + H" using H0 by linarith+
    then have "take (H - 2) [base + 1 ..< base + H] = [base + 1 ..< base + H - 1]"
      using take_upt [of "base + 1" "H - 2" "base + H"] by (simp only:)
    then show ?thesis
      by (simp only: drop_map take_map drop_upt)
  qed simp
  moreover have "H - 1 < 1 \<longleftrightarrow> n = 32"
  proof
    assume "H - 1 < 1"
    then have "H = 1" using H0 by linarith
    then show "n = 32" using n by (simp add: H_def)
  qed (simp add: H_def)
  ultimately show ?thesis
    using loop by (simp add: allocate_ipv4_def)
qed


subsection \<open>Handing out\<close>

lemma show_v4_inject: "show_v4 a b c d = show_v4 a' b' c' d' \<longleftrightarrow> a = a' \<and> b = b' \<and> c = c' \<and> d = d'"
proof
  assume "show_v4 a b c d = show_v4 a' b' c' d'"
  then have "Some (Addr4 a b c d) = Some (Addr4 a' b' c' d')" by (metis parse_v4_show)
  then show "a = a' \<and> b = b' \<and> c = c' \<and> d = d'" by simp
qed simp

lemma show_ip_inject: "length xs = 4 \<Longrightarrow> length ys = 4 \<Longrightarrow> show_ip xs = show_ip ys \<longleftrightarrow> xs = ys"
  by (auto simp: eval_nat_numeral length_Suc_conv show_v4_inject)

lemma show_ip_of_inject:
  assumes "v < 2 ^ 32" "w < 2 ^ 32"
  shows "show_ip (ip_of v) = show_ip (ip_of w) \<longleftrightarrow> v = w"
proof
  assume "show_ip (ip_of v) = show_ip (ip_of w)"
  then have "ip_of v = ip_of w" using show_ip_inject [of "ip_of v" "ip_of w"] by simp
  then show "v = w" using ip_of_value assms by metis
qed simp

definition offered :: "ip_alloc \<Rightarrow> string list" where
  "offered a = (case ia_offer a of None \<Rightarrow> [] | Some x \<Rightarrow> [x])"

lemma ip_reachable_mset:
  "ip_reachable a0 a held \<Longrightarrow> ia_offer a0 = None \<Longrightarrow> mset (held @ offered a @ ia_free a) = mset (ia_free a0)"
proof (induction rule: ip_reachable.induct)
  case Init
  then show ?case by (simp add: offered_def)
next
  case (Pick a held a')
  then show ?case by (auto simp: offered_def ip_pick_def split: list.splits)
next
  case (Give a held x)
  then show ?case by (simp add: offered_def ip_give_def)
next
  case (Return a held x)
  then obtain M where M: "mset held = add_mset x M" by (metis insert_DiffM set_mset_mset)
  then show ?case using Return by (simp add: offered_def ip_return_def)
qed

lemma hosts_distinct:
  assumes "q * h + h \<le> 2 ^ 32"
  shows "distinct (map (show_ip \<circ> ip_of) [q * h + 1 ..< q * h + h - 1])"
  unfolding distinct_map
proof (intro conjI inj_onI)
  fix v w
  assume "v \<in> set [q * h + 1 ..< q * h + h - 1]" "w \<in> set [q * h + 1 ..< q * h + h - 1]"
    and "(show_ip \<circ> ip_of) v = (show_ip \<circ> ip_of) w"
  moreover have "v < 2 ^ 32" "w < 2 ^ 32"
    using calculation(1,2) assms unfolding set_upt atLeastLessThan_iff by linarith+
  ultimately show "v = w" using show_ip_of_inject by simp
qed simp

lemma hosts_inside:
  assumes "x \<in> set (map (show_ip \<circ> ip_of) [q * h + 1 ..< q * h + h - 1])"
  shows "\<exists>v. x = show_ip (ip_of v) \<and> q = v div h \<and> 0 < v mod h \<and> v mod h < h - 1"
proof -
  obtain v where v: "x = show_ip (ip_of v)" "q * h + 1 \<le> v" "v < q * h + h - 1"
    using assms by auto
  define j where "j = v - q * h"
  have j: "v = q * h + j" "0 < j" "j < h - 1" using v(2,3) by (simp_all add: j_def)
  have "v div h = q" "v mod h = j" using j(3) by (simp_all add: j(1))
  then show ?thesis using v(1) j(2,3) by (intro exI [of _ v]) simp
qed

lemma ip_reachable_held:
  assumes "ip_reachable \<lparr>ia_free = hosts, ia_offer = None, ia_prefix_len = n\<rparr> a held" and "distinct hosts"
  shows "distinct held" and "set held \<subseteq> set hosts"
    and "ia_offer a = None \<Longrightarrow> ip_pick a = None \<longleftrightarrow> length held = length hosts"
proof -
  have ms: "mset (held @ offered a @ ia_free a) = mset hosts"
    using ip_reachable_mset [OF assms(1)] by simp
  show "distinct held" using assms(2) mset_eq_imp_distinct_iff [OF ms] by simp
  show "set held \<subseteq> set hosts" using mset_eq_setD [OF ms] by auto
  show "ip_pick a = None \<longleftrightarrow> length held = length hosts" if "ia_offer a = None"
    using that mset_eq_length [OF ms] by (auto simp: offered_def ip_pick_def split: list.split)
qed

text \<open>
  C34: what an allocator hands out. It hands out only addresses of the range, never the first or the last
  of it, and none to two holders at a time, whatever is returned and in whatever order; its goroutine
  panics as soon as all of them are handed out, before anybody asks for another. A range of one
  address makes the call panic, and for the range of all addresses the call does not return.
\<close>

theorem allocate_unique:
  assumes "length ip = 4" and "n \<le> 32"
  shows "case allocate_ipv4 ip n of
      None \<Rightarrow> n = 0
    | Some None \<Rightarrow> n = 32
    | Some (Some a0) \<Rightarrow> 1 \<le> n \<and> n \<le> 31 \<and>
        (\<forall>a held. ip_reachable a0 a held \<longrightarrow>
           distinct held \<and>
           (\<forall>x \<in> set held. \<exists>v. x = show_ip (ip_of v) \<and> set_bytes ip div 2 ^ (32 - n) = v div 2 ^ (32 - n) \<and>
              0 < v mod 2 ^ (32 - n) \<and> v mod 2 ^ (32 - n) < 2 ^ (32 - n) - 1) \<and>
           (ia_offer a = None \<longrightarrow> (ip_pick a = None \<longleftrightarrow> length held = 2 ^ (32 - n) - 2)))"
proof (cases "n = 0")
  case True
  then show ?thesis
    using range_loop_all [of "mask_ip ip 0" "mask_ip ip 0"] assms(1) by (simp add: allocate_ipv4_def mask_ip_def)
next
  case False
  define H :: nat where "H = 2 ^ (32 - n)"
  define q where "q = set_bytes ip div H"
  have n: "1 \<le> n" using False by simp
  have alloc: "allocate_ipv4 ip n = Some (if n = 32 then None
      else Some \<lparr>ia_free = map (show_ip \<circ> ip_of) [q * H + 1 ..< q * H + H - 1], ia_offer = None, ia_prefix_len = n\<rparr>)"
    using allocate_block [OF assms(1) n assms(2)] by (simp add: q_def H_def)
  have H: "2 * H \<le> 2 ^ 32" "0 < H"
    using n assms(2) power_increasing [of "Suc (32 - n)" 32 "2 :: nat"] by (simp_all add: H_def)
  have pw: "2 ^ n * H = (2 ^ 32 :: nat)"
    using n assms(2) by (simp add: H_def power_add [symmetric])
  have "q < 2 ^ n"
    using set_bytes_bound [of ip] assms(1) pw by (simp add: q_def less_mult_imp_div_less)
  then have "(q + 1) * H \<le> 2 ^ n * H" by (intro mult_le_mono1) simp
  then have top: "q * H + H \<le> 2 ^ 32" using pw by simp
  define hosts where "hosts = map (show_ip \<circ> ip_of) [q * H + 1 ..< q * H + H - 1]"
  note held = ip_reachable_held [OF _ hosts_distinct [OF top, folded hosts_def]]
  have main: "distinct held \<and> (\<forall>x \<in> set held. \<exists>v. x = show_ip (ip_of v) \<and> q = v div H \<and> 0 < v mod H \<and> v mod H < H - 1) \<and>
      (ia_offer a = None \<longrightarrow> (ip_pick a = None \<longleftrightarrow> length held = H - 2))"
    if r: "ip_reachable \<lparr>ia_free = hosts, ia_offer = None, ia_prefix_len = n\<rparr> a held" for a held
  proof -
    have "length hosts = H - 2" by (simp add: hosts_def)
    then show ?thesis using held [OF r] hosts_inside [of _ q H, folded hosts_def] by (metis subsetD)
  qed
  show ?thesis
  proof (cases "n = 32")
    case True
    then show ?thesis unfolding alloc by simp
  next
    case False
    then have "allocate_ipv4 ip n = Some (Some \<lparr>ia_free = hosts, ia_offer = None, ia_prefix_len = n\<rparr>)"
      using alloc by (simp add: hosts_def)
    moreover have "n \<le> 31" using False assms(2) by simp
    ultimately show ?thesis
      unfolding H_def [symmetric] q_def [symmetric] using n main by simp
  qed
qed

theorem allocate_unique_witness:
  "\<exists>a0. allocate_ipv4 [10, 42, 1, 0] 24 = Some (Some a0) \<and> \<not> ip_reachable a0 a0 [''10.42.1.1'', ''10.42.1.1'']"
  using allocate_unique [of "[10, 42, 1, 0]" 24] by (fastforce split: option.splits)

subsection \<open>Temporary files\<close>

text \<open>
  Of the two goroutines, the creator makes a file, enters it in the map under the lock and
  offers its name; the returner takes a name back, removes the entry under the lock and the file.
  Once the context is done, each of them cleans up: it locks, removes the files of the map
  and, in its deferred call, locks again.
\<close>

datatype creator = Creating | Entering string | Offering string | CreatorLocks | CreatorCleans | CreatorLocksAgain | CreatorEnded
datatype returner = Waiting_name | Returning string | Removing string | ReturnerLocks | ReturnerCleans | ReturnerLocksAgain | ReturnerEnded

record file_alloc =
  fa_locked :: bool
  fa_map :: "string list"       \<comment> \<open>the keys of \<^verbatim>\<open>fileMap\<close>\<close>
  fa_disk :: "string list"      \<comment> \<open>the temporary files that exist\<close>
  fa_done :: bool               \<comment> \<open>the context is done\<close>
  fa_creator :: creator
  fa_returner :: returner
  fa_held :: "string list"      \<comment> \<open>the names that users hold\<close>
  fa_panicked :: bool

definition new_file_alloc :: file_alloc where
  "new_file_alloc =
     \<lparr>fa_locked = False, fa_map = [], fa_disk = [], fa_done = False, fa_creator = Creating, fa_returner = Waiting_name,
      fa_held = [], fa_panicked = False\<rparr>"

text \<open>\<^verbatim>\<open>os.Remove\<close> for each file of the map; a file that is missing is a panic.\<close>

definition remove_files :: "file_alloc \<Rightarrow> file_alloc" where
  "remove_files s =
     (if set (fa_map s) \<subseteq> set (fa_disk s) then s\<lparr>fa_disk := filter (\<lambda>f. f \<notin> set (fa_map s)) (fa_disk s)\<rparr>
      else s\<lparr>fa_panicked := True\<rparr>)"

text \<open>A step of the creator; \<open>name\<close> is the name of the next file, \<open>ready\<close> says that a user receives.\<close>

fun creator_op :: "creator \<Rightarrow> string \<Rightarrow> bool \<Rightarrow> file_alloc \<Rightarrow> file_alloc option" where
  "creator_op Creating name ready s =
     (if name \<in> set (fa_disk s) then None
      else Some (s\<lparr>fa_disk := name # fa_disk s, fa_creator := Entering name\<rparr>))"
| "creator_op (Entering f) name ready s =
     (if fa_locked s then None else Some (s\<lparr>fa_map := f # fa_map s, fa_creator := Offering f\<rparr>))"
| "creator_op (Offering f) name ready s =
     (if ready then Some (s\<lparr>fa_held := f # fa_held s, fa_creator := Creating\<rparr>)
      else if fa_done s then Some (s\<lparr>fa_creator := CreatorLocks\<rparr>) else None)"
| "creator_op CreatorLocks name ready s =
     (if fa_locked s then None else Some (s\<lparr>fa_locked := True, fa_creator := CreatorCleans\<rparr>))"
| "creator_op CreatorCleans name ready s = Some ((remove_files s)\<lparr>fa_creator := CreatorLocksAgain\<rparr>)"
| "creator_op CreatorLocksAgain name ready s =
     (if fa_locked s then None else Some (s\<lparr>fa_locked := True, fa_creator := CreatorEnded\<rparr>))"
| "creator_op CreatorEnded name ready s = None"

text \<open>A step of the returner; \<open>back\<close> is a name that a user returns.\<close>

fun returner_op :: "returner \<Rightarrow> string option \<Rightarrow> file_alloc \<Rightarrow> file_alloc option" where
  "returner_op Waiting_name back s =
     (case back of
        Some f \<Rightarrow> if f \<in> set (fa_held s) then Some (s\<lparr>fa_held := remove1 f (fa_held s), fa_returner := Returning f\<rparr>) else None
      | None \<Rightarrow> if fa_done s then Some (s\<lparr>fa_returner := ReturnerLocks\<rparr>) else None)"
| "returner_op (Returning f) back s =
     (if fa_locked s then None
      else if f \<notin> set (fa_map s) then Some (s\<lparr>fa_panicked := True\<rparr>)
      else Some (s\<lparr>fa_map := remove1 f (fa_map s), fa_returner := Removing f\<rparr>))"
| "returner_op (Removing f) back s =
     (if f \<in> set (fa_disk s) then Some (s\<lparr>fa_disk := remove1 f (fa_disk s), fa_returner := Waiting_name\<rparr>)
      else Some (s\<lparr>fa_panicked := True\<rparr>))"
| "returner_op ReturnerLocks back s =
     (if fa_locked s then None else Some (s\<lparr>fa_locked := True, fa_returner := ReturnerCleans\<rparr>))"
| "returner_op ReturnerCleans back s = Some ((remove_files s)\<lparr>fa_returner := ReturnerLocksAgain\<rparr>)"
| "returner_op ReturnerLocksAgain back s =
     (if fa_locked s then None else Some (s\<lparr>fa_locked := True, fa_returner := ReturnerEnded\<rparr>))"
| "returner_op ReturnerEnded back s = None"

inductive file_step :: "file_alloc \<Rightarrow> file_alloc \<Rightarrow> bool" where
  Create: "\<lbrakk>\<not> fa_panicked s; creator_op (fa_creator s) name ready s = Some s'\<rbrakk> \<Longrightarrow> file_step s s'"
| Return: "\<lbrakk>\<not> fa_panicked s; returner_op (fa_returner s) nm s = Some s'\<rbrakk> \<Longrightarrow> file_step s s'"
| Done: "\<not> fa_panicked s \<Longrightarrow> file_step s (s\<lparr>fa_done := True\<rparr>)"

text \<open>The lock is held exactly by a goroutine that cleans up, and never given back.\<close>

definition cleaning_creator :: "creator \<Rightarrow> bool" where
  "cleaning_creator c \<longleftrightarrow> c = CreatorCleans \<or> c = CreatorLocksAgain"

definition cleaning_returner :: "returner \<Rightarrow> bool" where
  "cleaning_returner r \<longleftrightarrow> r = ReturnerCleans \<or> r = ReturnerLocksAgain"

definition cleaned :: "file_alloc \<Rightarrow> bool" where
  "cleaned s \<longleftrightarrow> fa_creator s = CreatorLocksAgain \<or> fa_returner s = ReturnerLocksAgain"

definition lock_inv :: "file_alloc \<Rightarrow> bool" where
  "lock_inv s \<longleftrightarrow>
     (fa_locked s \<longleftrightarrow> cleaning_creator (fa_creator s) \<or> cleaning_returner (fa_returner s)) \<and>
     \<not> (cleaning_creator (fa_creator s) \<and> cleaning_returner (fa_returner s)) \<and>
     fa_creator s \<noteq> CreatorEnded \<and> fa_returner s \<noteq> ReturnerEnded"

text \<open>Which names are on disk, in the map and with users, at each place of the goroutines.\<close>

definition name_inv :: "file_alloc \<Rightarrow> bool" where
  "name_inv s \<longleftrightarrow>
     distinct (fa_map s) \<and> distinct (fa_disk s) \<and> distinct (fa_held s) \<and> \<not> fa_panicked s \<and>
     set (fa_held s) \<subseteq> set (fa_map s) \<and> (\<not> cleaned s \<longrightarrow> set (fa_map s) \<subseteq> set (fa_disk s)) \<and>
     (\<forall>f. fa_creator s = Entering f \<longrightarrow> f \<in> set (fa_disk s) \<and> (\<not> cleaned s \<longrightarrow> f \<notin> set (fa_map s) \<and> fa_returner s \<noteq> Removing f)) \<and>
     (\<forall>f. fa_creator s = Offering f \<longrightarrow> f \<in> set (fa_map s) \<and> f \<notin> set (fa_held s) \<and> fa_returner s \<noteq> Returning f) \<and>
     (\<forall>f. fa_returner s = Returning f \<longrightarrow> f \<in> set (fa_map s) \<and> f \<notin> set (fa_held s)) \<and>
     (\<forall>f. fa_returner s = Removing f \<longrightarrow> f \<in> set (fa_disk s) \<and> f \<notin> set (fa_map s))"

lemmas file_defs = lock_inv_def name_inv_def cleaned_def cleaning_creator_def cleaning_returner_def

lemma remove_files_same [simp]:
  "fa_locked (remove_files s) = fa_locked s" "fa_creator (remove_files s) = fa_creator s"
  "fa_returner (remove_files s) = fa_returner s" "fa_map (remove_files s) = fa_map s"
  "fa_held (remove_files s) = fa_held s" "fa_done (remove_files s) = fa_done s"
  by (simp_all add: remove_files_def)

lemma lock_inv_creator: "creator_op (fa_creator s) name ready s = Some s' \<Longrightarrow> lock_inv s \<Longrightarrow> lock_inv s'"
  by (cases "fa_creator s") (auto simp: file_defs split: if_splits)

lemma lock_inv_returner: "returner_op (fa_returner s) nm s = Some s' \<Longrightarrow> lock_inv s \<Longrightarrow> lock_inv s'"
  by (cases "fa_returner s") (auto simp: file_defs split: if_splits option.splits)

lemma name_inv_creator:
  assumes "creator_op (fa_creator s) name ready s = Some s'" and "lock_inv s" and "name_inv s"
  shows "name_inv s'"
proof (cases "fa_creator s")
  case CreatorCleans
  then have "\<not> cleaned s" "set (fa_map s) \<subseteq> set (fa_disk s)"
    using assms(2,3) by (auto simp: file_defs)
  then show ?thesis
    using assms CreatorCleans by (auto simp: file_defs remove_files_def)
next
  case (Entering f)
  then have "\<not> cleaned s"
    using assms(1,2) by (auto simp: file_defs split: if_splits)
  then show ?thesis
    using assms Entering by (auto simp: file_defs split: if_splits)
qed (use assms in \<open>auto simp: file_defs split: if_splits\<close>)

lemma name_inv_returner:
  assumes "returner_op (fa_returner s) nm s = Some s'" and "lock_inv s" and "name_inv s"
  shows "name_inv s'"
proof (cases "fa_returner s")
  case ReturnerCleans
  then have "\<not> cleaned s" "set (fa_map s) \<subseteq> set (fa_disk s)"
    using assms(2,3) by (auto simp: file_defs)
  then show ?thesis
    using assms ReturnerCleans by (auto simp: file_defs remove_files_def)
next
  case (Returning f)
  then have "\<not> cleaned s"
    using assms(1,2) assms(3) by (auto simp: file_defs split: if_splits)
  then show ?thesis
    using assms Returning by (auto simp: file_defs split: if_splits)
qed (use assms in \<open>auto simp: file_defs split: if_splits option.splits\<close>)

lemma file_inv_step: "file_step s s' \<Longrightarrow> lock_inv s \<and> name_inv s \<Longrightarrow> lock_inv s' \<and> name_inv s'"
proof (induction rule: file_step.cases)
  case (Create s name ready s')
  then show ?case using lock_inv_creator name_inv_creator by blast
next
  case (Return s nm s')
  then show ?case using lock_inv_returner name_inv_returner by blast
qed (simp add: file_defs)

interpretation files: step_invariant file_step "\<lambda>s. lock_inv s \<and> name_inv s"
  by unfold_locales (rule file_inv_step)

lemma file_inv_reachable: "file_step\<^sup>*\<^sup>* new_file_alloc s \<Longrightarrow> lock_inv s \<and> name_inv s"
  by (erule files.run_keeps) (simp add: new_file_alloc_def file_defs)

text \<open>After the clean-up of the returner, a file that was just created waits for the lock for ever.\<close>

definition stuck :: "string \<Rightarrow> file_alloc \<Rightarrow> bool" where
  "stuck f s \<longleftrightarrow> lock_inv s \<and> fa_creator s = Entering f \<and> fa_returner s = ReturnerLocksAgain \<and> f \<in> set (fa_disk s)"

interpretation stuck_file: step_invariant file_step "stuck f" for f
proof
  fix s s'
  assume "file_step s s'" "stuck f s"
  then show "stuck f s'"
    by (induction rule: file_step.cases) (auto simp: stuck_def file_defs split: if_splits)
qed

text \<open>
  The clean-up of the temporary files never returns. Its deferred call locks the mutex a second
  time instead of unlocking it, so neither goroutine ever ends, in any run; no file is missing when it
  is removed, but a file that was created while the returner cleaned up stays on disk for ever.
\<close>

theorem cleanup_never_returns:
  assumes "file_step\<^sup>*\<^sup>* new_file_alloc s"
  shows "fa_creator s \<noteq> CreatorEnded \<and> fa_returner s \<noteq> ReturnerEnded \<and> \<not> fa_panicked s \<and>
    (fa_returner s = ReturnerLocksAgain \<longrightarrow>
      (\<forall>f. fa_creator s = Entering f \<longrightarrow> (\<forall>s'. file_step\<^sup>*\<^sup>* s s' \<longrightarrow> f \<in> set (fa_disk s') \<and> fa_creator s' = Entering f)))"
proof -
  have inv: "lock_inv s" "name_inv s"
    using file_inv_reachable [OF assms] by simp_all
  then have "fa_creator s \<noteq> CreatorEnded" "fa_returner s \<noteq> ReturnerEnded" "\<not> fa_panicked s"
    "\<And>f. fa_creator s = Entering f \<Longrightarrow> f \<in> set (fa_disk s)"
    by (simp_all add: file_defs)
  moreover have "f \<in> set (fa_disk s') \<and> fa_creator s' = Entering f"
    if "fa_returner s = ReturnerLocksAgain" "fa_creator s = Entering f" "file_step\<^sup>*\<^sup>* s s'" for f s'
  proof -
    have "stuck f s"
      using that inv(1) calculation(4) by (simp add: stuck_def)
    with that(3) have "stuck f s'"
      by (rule stuck_file.run_keeps)
    then show ?thesis
      by (simp add: stuck_def)
  qed
  ultimately show ?thesis
    by blast
qed

definition leaked_state :: file_alloc where
  "leaked_state = new_file_alloc
     \<lparr>fa_locked := True, fa_disk := [''inu.1.db''], fa_done := True, fa_creator := Entering ''inu.1.db'',
      fa_returner := ReturnerLocksAgain\<rparr>"

lemma leaked_reachable: "file_step\<^sup>*\<^sup>* new_file_alloc leaked_state"
proof -
  let ?s1 = "new_file_alloc\<lparr>fa_done := True\<rparr>"
  let ?s2 = "?s1\<lparr>fa_returner := ReturnerLocks\<rparr>"
  let ?s3 = "?s2\<lparr>fa_locked := True, fa_returner := ReturnerCleans\<rparr>"
  let ?s4 = "?s3\<lparr>fa_returner := ReturnerLocksAgain\<rparr>"
  have "file_step new_file_alloc ?s1" by (rule file_step.Done) (simp add: new_file_alloc_def)
  moreover have "file_step ?s1 ?s2" by (rule file_step.Return [where nm = None]) (simp_all add: new_file_alloc_def)
  moreover have "file_step ?s2 ?s3" by (rule file_step.Return [where nm = None]) (simp_all add: new_file_alloc_def)
  moreover have "file_step ?s3 ?s4"
    by (rule file_step.Return [where nm = None]) (simp_all add: new_file_alloc_def remove_files_def)
  moreover have "file_step ?s4 leaked_state"
    by (rule file_step.Create [where name = "''inu.1.db''"]) (simp_all add: new_file_alloc_def leaked_state_def)
  ultimately show ?thesis by (meson converse_rtranclp_into_rtranclp rtranclp.rtrancl_refl)
qed

theorem cleanup_never_returns_witness: "fa_creator leaked_state \<noteq> CreatorEnded \<and> ''inu.1.db'' \<in> set (fa_disk leaked_state)"
  using cleanup_never_returns [OF leaked_reachable] by (simp add: leaked_state_def)

subsection \<open>The load between two hosts\<close>

text \<open>A captured packet: its IPv4 source and destination, if it has any, and its length.\<close>

record packet =
  pk_hosts :: "(string \<times> string) option"
  pk_length :: int

fun measure_loop :: "packet list \<Rightarrow> string \<Rightarrow> string \<Rightarrow> int \<Rightarrow> int" where
  "measure_loop [] a b sz = sz"
| "measure_loop (p # ps) a b sz =
     (case pk_hosts p of
        None \<Rightarrow> measure_loop ps a b sz
      | Some (src, dst) \<Rightarrow>
          if (src = a \<and> dst = b) \<or> (src = b \<and> dst = a) then measure_loop ps a b (sz + pk_length p)
          else measure_loop ps a b sz)"

definition measure_load :: "packet list \<Rightarrow> string \<Rightarrow> string \<Rightarrow> int" where
  "measure_load ps a b = measure_loop ps a b 0"

lemma measure_loop_sum:
  "measure_loop ps a b sz = sz + (\<Sum>p \<leftarrow> filter (\<lambda>p. pk_hosts p \<in> {Some (a, b), Some (b, a)}) ps. pk_length p)"
  by (induction ps arbitrary: sz) (auto split: option.split)

lemma measure_load_sym: "measure_load ps a b = measure_load ps b a"
  by (simp add: measure_load_def measure_loop_sum insert_commute)

subsection \<open>The controller\<close>

text \<open>
  \<^verbatim>\<open>newAPI\<close> in \<^verbatim>\<open>inuctl/main.go\<close>: \<open>dial i\<close> is what the attempt number \<open>i\<close> returns; after too many
  failures it panics.
\<close>

function dial_loop :: "(nat \<Rightarrow> error + 'a) \<Rightarrow> nat \<Rightarrow> error + 'a \<Rightarrow> 'a option" where
  "dial_loop dial retries (Inr a) = Some a"
| "dial_loop dial retries (Inl e) =
     (if retries > 30 then None else dial_loop dial (retries + 1) (dial (retries + 1)))"
  by pat_completeness auto
termination by (relation "measure (\<lambda>(dial, retries, r). 32 - retries)") auto

definition new_api :: "(nat \<Rightarrow> error + 'a) \<Rightarrow> 'a option" where
  "new_api dial = dial_loop dial 0 (dial 0)"

lemma dial_loop_first:
  "dial_loop dial n (dial n) =
     (case find (\<lambda>i. \<exists>a. dial i = Inr a) [n ..< max 32 (Suc n)] of None \<Rightarrow> None | Some i \<Rightarrow> Some (projr (dial i)))"
proof (induction "32 - n" arbitrary: n)
  case 0
  then have "max 32 (Suc n) = Suc n" by simp
  with 0 show ?case by (cases "dial n") simp_all
next
  case (Suc x)
  then have n: "n < 32" "x = 32 - Suc n" by simp_all
  show ?case
  proof (cases "dial n")
    case (Inl e)
    show ?thesis
    proof (cases "n = 31")
      case False
      then have "[n ..< max 32 (Suc n)] = n # [Suc n ..< max 32 (Suc (Suc n))]" using n by (simp add: upt_conv_Cons)
      then show ?thesis using Inl Suc.hyps(1) [OF n(2)] False n by simp
    next
      case True
      then show ?thesis using Inl by simp
    qed
  qed (use n in \<open>simp add: upt_conv_Cons\<close>)
qed

text \<open>It connects exactly if one of 32 attempts does, with the first that does.\<close>

lemma new_api_first:
  "new_api dial = (case find (\<lambda>i. \<exists>a. dial i = Inr a) [0 ..< 32] of None \<Rightarrow> None | Some i \<Rightarrow> Some (projr (dial i)))"
  unfolding new_api_def dial_loop_first by simp

text \<open>\<^verbatim>\<open>randKey\<close>: a byte is 1 where the number drawn for it is even, else 0.\<close>

definition rand_key :: "(nat \<Rightarrow> nat) \<Rightarrow> key" where
  "rand_key draw = mk_key (map (\<lambda>i. if draw i mod 2 = 0 then 1 else 0) [0 ..< key_len])"

lemma rand_key_bytes: "set (key_bytes (rand_key draw)) \<subseteq> {0, 1}"
  unfolding rand_key_def by (subst key_bytes_mk_key) (auto simp: key_len_def)

end
