(* ===== verification/Control.thy ===== *)
theory Control
  imports Api Evaluate
begin

text \<open>
  The controller of the evaluation (\<^verbatim>\<open>cmd/evaluate/inuctl/main.go\<close>): it reads its task as JSON and drives
  daemons over their API.  A file is published at one daemon, downloaded by others, and in the end
  by the daemon that is measured.  Every error is a panic.
\<close>

subsection \<open>Tasks\<close>

record routing_ctl =
  rc_uploader :: string
  rc_downloader :: string
  rc_midstream :: string
  rc_filesize :: nat

record dl_speed_ctl =
  dc_uploader :: string
  dc_downloader :: string
  dc_midstreams :: "string slice"
  dc_filesize :: nat

definition uint_max :: nat where
  "uint_max = 2 ^ 64 - 1"

definition set_routing_field :: "routing_ctl \<Rightarrow> string \<Rightarrow> json \<Rightarrow> routing_ctl option" where
  "set_routing_field c k v =
     (if is_field ''uploader-ip'' k then map_option (\<lambda>s. c\<lparr>rc_uploader := s\<rparr>) (decode_string (rc_uploader c) v)
      else if is_field ''downloader-ip'' k then map_option (\<lambda>s. c\<lparr>rc_downloader := s\<rparr>) (decode_string (rc_downloader c) v)
      else if is_field ''midstream-ip'' k then map_option (\<lambda>s. c\<lparr>rc_midstream := s\<rparr>) (decode_string (rc_midstream c) v)
      else if is_field ''filesize'' k then map_option (\<lambda>n. c\<lparr>rc_filesize := n\<rparr>) (decode_uint uint_max (rc_filesize c) v)
      else Some c)"

definition set_dl_speed_field :: "dl_speed_ctl \<Rightarrow> string \<Rightarrow> json \<Rightarrow> dl_speed_ctl option" where
  "set_dl_speed_field c k v =
     (if is_field ''uploader-ip'' k then map_option (\<lambda>s. c\<lparr>dc_uploader := s\<rparr>) (decode_string (dc_uploader c) v)
      else if is_field ''downloader-ip'' k then map_option (\<lambda>s. c\<lparr>dc_downloader := s\<rparr>) (decode_string (dc_downloader c) v)
      else if is_field ''midstream-ips'' k
      then map_option (\<lambda>s. c\<lparr>dc_midstreams := s\<rparr>) (decode_slice decode_string '''' (dc_midstreams c) v)
      else if is_field ''filesize'' k then map_option (\<lambda>n. c\<lparr>dc_filesize := n\<rparr>) (decode_uint uint_max (dc_filesize c) v)
      else Some c)"

definition parse_routing :: "u8 list \<Rightarrow> routing_ctl option" where
  "parse_routing = unmarshal (decode_struct set_routing_field
     \<lparr>rc_uploader = '''', rc_downloader = '''', rc_midstream = '''', rc_filesize = 0\<rparr>)"

definition parse_dl_speed :: "u8 list \<Rightarrow> dl_speed_ctl option" where
  "parse_dl_speed = unmarshal (decode_struct set_dl_speed_field
     \<lparr>dc_uploader = '''', dc_downloader = '''', dc_midstreams = nil_slice, dc_filesize = 0\<rparr>)"

text \<open>What the evaluation writes for the controller.\<close>

definition routing_json :: "routing_ctl \<Rightarrow> json" where
  "routing_json c =
     JObj [(''uploader-ip'', JStr (rc_uploader c)), (''downloader-ip'', JStr (rc_downloader c)),
       (''midstream-ip'', JStr (rc_midstream c)), (''filesize'', uint_json (rc_filesize c))]"

subsection \<open>Steps of a task\<close>

text \<open>\<open>rnd\<close>: the bytes that the seeded source of random numbers gives for a length.\<close>

definition new_file :: "(nat \<Rightarrow> u8 list) \<Rightarrow> nat \<Rightarrow> u8 list option" where
  "new_file rnd len = (if len = 0 then None else if length (rnd len) \<noteq> len then None else Some (rnd len))"

text \<open>The file is added and uploaded; the result is its identifier and the daemon.\<close>

definition ctl_publish :: "nat \<Rightarrow> (nat \<Rightarrow> u8 list) \<Rightarrow> web \<Rightarrow> nat \<Rightarrow> api \<Rightarrow> daemon \<Rightarrow> (cid \<times> daemon) option" where
  "ctl_publish fuel rnd w len a d =
     (case new_file rnd len of
        None \<Rightarrow> None
      | Some bytes \<Rightarrow>
     (case api_add_bytes a (Some bytes) d of
        ((c, Some e), d') \<Rightarrow> None
      | ((c, None), d') \<Rightarrow>
     (case api_upload fuel a w c d' of
        Some (n, None) \<Rightarrow> Some (c, d')
      | _ \<Rightarrow> None)))"

text \<open>A download, by what has come of its goroutines; \<open>None\<close> also while it has not returned.\<close>

definition ctl_download :: "api \<Rightarrow> error + go_state \<Rightarrow> daemon option" where
  "ctl_download a r =
     (case api_download a r of
        Some None \<Rightarrow> (case r of Inl e \<Rightarrow> None | Inr s \<Rightarrow> Some (go_daemon s))
      | _ \<Rightarrow> None)"

text \<open>\<open>fetch i d c\<close> is what comes of the download of \<open>c\<close> by the daemon \<open>d\<close>, the \<open>i\<close>-th of the task.\<close>

type_synonym fetches = "nat \<Rightarrow> daemon \<Rightarrow> cid \<Rightarrow> error + go_state"

definition ctl_routing ::
  "nat \<Rightarrow> (nat \<Rightarrow> u8 list) \<Rightarrow> web \<Rightarrow> (string \<Rightarrow> nat \<Rightarrow> error + api) \<Rightarrow> fetches \<Rightarrow> u8 list \<Rightarrow>
   daemon \<Rightarrow> daemon \<Rightarrow> daemon \<Rightarrow> (cid \<times> daemon \<times> daemon \<times> daemon) option" where
  "ctl_routing fuel rnd w dials fetch data up mid down =
     (case parse_routing data of
        None \<Rightarrow> None
      | Some ctl \<Rightarrow>
     (case new_api (dials (rc_uploader ctl)) of
        None \<Rightarrow> None
      | Some a \<Rightarrow>
     (case new_api (dials (rc_downloader ctl)) of
        None \<Rightarrow> None
      | Some b \<Rightarrow>
     (case new_api (dials (rc_midstream ctl)) of
        None \<Rightarrow> None
      | Some m \<Rightarrow>
     (case ctl_publish fuel rnd w (rc_filesize ctl) a up of
        None \<Rightarrow> None
      | Some (c, up') \<Rightarrow>
     (case ctl_download m (fetch 0 mid c) of
        None \<Rightarrow> None
      | Some mid' \<Rightarrow>
     (case ctl_download b (fetch 1 down c) of
        None \<Rightarrow> None
      | Some down' \<Rightarrow> Some (c, up', mid', down'))))))))"

text \<open>The midstream daemons download at the same time, each on its own; one panic ends the task.\<close>

fun ctl_midstreams :: "fetches \<Rightarrow> nat \<Rightarrow> cid \<Rightarrow> (api \<times> daemon) list \<Rightarrow> daemon list option" where
  "ctl_midstreams fetch i c [] = Some []"
| "ctl_midstreams fetch i c ((m, d) # ds) =
     (case ctl_download m (fetch i d c) of
        None \<Rightarrow> None
      | Some d' \<Rightarrow> map_option (\<lambda>ds'. d' # ds') (ctl_midstreams fetch (Suc i) c ds))"

definition ack_netem :: nat where
  "ack_netem = 0"

text \<open>
  \<open>connected\<close>: the socket of the network manager can be dialed; \<open>ack\<close> is what the manager answers on it, if
  anything is decoded.
\<close>

definition ctl_dl_speed ::
  "nat \<Rightarrow> (nat \<Rightarrow> u8 list) \<Rightarrow> web \<Rightarrow> (string \<Rightarrow> nat \<Rightarrow> error + api) \<Rightarrow> fetches \<Rightarrow> bool \<Rightarrow> nat option \<Rightarrow> u8 list \<Rightarrow>
   daemon \<Rightarrow> daemon list \<Rightarrow> daemon \<Rightarrow> (cid \<times> daemon \<times> daemon list \<times> daemon) option" where
  "ctl_dl_speed fuel rnd w dials fetch connected ack data up mids down =
     (case parse_dl_speed data of
        None \<Rightarrow> None
      | Some ctl \<Rightarrow>
     (case new_api (dials (dc_uploader ctl)) of
        None \<Rightarrow> None
      | Some a \<Rightarrow>
     (case new_api (dials (dc_downloader ctl)) of
        None \<Rightarrow> None
      | Some b \<Rightarrow>
     (case those (map (\<lambda>ip. new_api (dials ip)) (case slice_val (dc_midstreams ctl) of None \<Rightarrow> [] | Some ips \<Rightarrow> ips)) of
        None \<Rightarrow> None
      | Some ms \<Rightarrow>
          if \<not> connected then None
          else
     (case ctl_publish fuel rnd w (dc_filesize ctl) a up of
        None \<Rightarrow> None
      | Some (c, up') \<Rightarrow>
     (case ctl_midstreams fetch 0 c (zip ms mids) of
        None \<Rightarrow> None
      | Some mids' \<Rightarrow>
          if ack \<noteq> Some ack_netem then None
          else
     (case ctl_download b (fetch (length ms) down c) of
        None \<Rightarrow> None
      | Some down' \<Rightarrow> Some (c, up', mids', down'))))))))"

subsection \<open>A file that reads has a DAG\<close>

lemma read_dag:
  "read_bytes f s n = Some (Inr d) \<Longrightarrow> store_get s c = Inr b \<Longrightarrow> parse_block b = Inr n \<Longrightarrow> \<exists>cs sz. dag f s c = Some (Inr (cs, sz))"
  "read_links f s ls = Some (Inr d) \<Longrightarrow> \<exists>cs sz. dag_links f s ls = Some (Inr (cs, sz))"
proof (induction f s n and f s ls arbitrary: c b d and d rule: read_bytes_read_links.induct)
  case (2 f s n)
  have "\<exists>cs sz. dag_links f s (mn_links n) = Some (Inr (cs, sz))"
  proof (cases "length (mn_links n) = 0")
    case False
    then show ?thesis using 2(1) [OF False, of d] 2(2) by simp
  qed simp
  then show ?case using 2(3,4) by auto
next
  case (4 f s l ls)
  obtain b m where b: "store_get s (link_cid l) = Inr b" "parse_block b = Inr m" using 4(3) by (auto split: sum.splits)
  obtain chunk where chunk: "read_bytes f s m = Some (Inr chunk)"
    using 4(3) b by (auto split: option.splits sum.splits)
  obtain d' where d': "read_links f s ls = Some (Inr d')"
    using 4(3) b chunk by (auto split: option.splits sum.splits)
  obtain cs sz where "dag f s (link_cid l) = Some (Inr (cs, sz))" using 4(1) [OF b chunk b] by blast
  moreover obtain cs' sz' where "dag_links f s ls = Some (Inr (cs', sz'))" using 4(2) [OF b chunk refl d'] by blast
  ultimately show ?case by simp
qed simp_all

subsection \<open>Tasks with honest peers\<close>

text \<open>All goroutines of a download have returned, and their answers came from peers that serve what \<open>X\<close> does.\<close>

definition honest_fetch :: "daemon \<Rightarrow> daemon \<Rightarrow> cid \<Rightarrow> error + go_state \<Rightarrow> bool" where
  "honest_fetch X d c r \<longleftrightarrow> (\<exists>w s0 n s. go_start d c w = Inr s0 \<and>
     (\<forall>k. parse_cid c = Inr k \<longrightarrow> honest_web X (dm_config d) k w) \<and>
     go_reachable (honest_web X (dm_config d)) sem_size s0 n s \<and> go_running s = [] \<and> r = Inr s)"

definition sound :: "daemon \<Rightarrow> bool" where
  "sound d \<longleftrightarrow> st_open (dm_store d) \<and> rows_inv (dm_store d)"

definition stores_clash :: "daemon \<Rightarrow> daemon \<Rightarrow> bool" where
  "stores_clash d d' \<longleftrightarrow> (\<exists>x b b'. store_get (dm_store d) x = Inr b \<and> store_get (dm_store d') x = Inr b' \<and> clash b b')"

lemma honest_download:
  assumes "honest_fetch X d c r" and "api_open a" and "sound d" and "rows_inv (dm_store X)"
    and "dag f (dm_store X) c = Some (Inr (cs, sz))"
  obtains d' where "ctl_download a r = Some d'" "rows_inv (dm_store d')"
    "stores_clash X d' \<or> (\<forall>x \<in> set cs. store_get (dm_store d') x = store_get (dm_store X) x)"
proof -
  obtain w s0 n s where s: "go_start d c w = Inr s0" "\<forall>k. parse_cid c = Inr k \<longrightarrow> honest_web X (dm_config d) k w"
    "go_reachable (honest_web X (dm_config d)) sem_size s0 n s" "go_running s = []" "r = Inr s"
    using assms(1) unfolding honest_fetch_def by blast
  have d: "rows_inv (dm_store d)" "st_open (dm_store d)" using assms(3) by (simp_all add: sound_def)
  note T = transfer_done [OF s(1) d assms(4,5) s(2,3,4)]
  show thesis
  proof (rule that)
    show "ctl_download a r = Some (go_daemon s)"
      using s(4,5) T(1) assms(2) by (simp add: ctl_download_def api_download_def download_reply_def)
    show "stores_clash X (go_daemon s) \<or> (\<forall>x \<in> set cs. store_get (dm_store (go_daemon s)) x = store_get (dm_store X) x)"
      using T(4) unfolding stores_clash_def by blast
  qed (rule T(2))
qed

lemma new_file_ok: "0 < len \<Longrightarrow> length (rnd len) = len \<Longrightarrow> new_file rnd len = Some (rnd len)"
  by (simp add: new_file_def)

lemma put_keys_ok:
  assumes "\<And>i k. client_put_key c (wb_pick w i) (wb_put w i) k = Some None" and "\<forall>x \<in> set cids. \<exists>y. x = cid_of y"
  shows "\<exists>ks. put_keys c w i cids = Some (None, ks)"
  using assms(2)
proof (induction cids arbitrary: i)
  case (Cons x cids)
  then obtain y where y: "x = cid_of y" by auto
  obtain ks where "put_keys c w (Suc i) cids = Some (None, ks)" using Cons by auto
  then show ?case using assms(1) y by (simp add: parse_cid_of)
qed simp

lemma put_all_rows: "st_open s \<Longrightarrow> rows_inv s \<Longrightarrow> \<forall>n \<in> set ns. genuine n \<Longrightarrow> rows_inv (put_all s ns)"
proof (induction ns arbitrary: s)
  case (Cons n ns)
  obtain s' where put: "store_put s (mn_block n) = (None, s')" using Cons.prems(1) by (simp add: store_put_def)
  have v: "block_valid (mn_block n)" using Cons.prems(3) by (simp add: block_valid_def genuine_def)
  have "rows_inv s'" by (rule rows.inv_put [OF Cons.prems(2) v put])
  moreover have "st_open s'" by (rule put_valid_get(3) [OF v put])
  ultimately show ?case using Cons.IH [of s'] Cons.prems(3) put by simp
qed simp

text \<open>Publishing works, and leaves a store from which the file reads.\<close>

lemma publish_ok:
  assumes "api_open a" and "sound d" and "0 < len" and "length (rnd len) = len"
    and "\<And>i k. client_put_key (dc_client (dm_config d)) (wb_pick w i) (wb_put w i) k = Some None"
    and "\<not> collides (fst (file_dag (Some (rnd len))))"
  obtains fuel c d' cs sz where "ctl_publish fuel rnd w len a d = Some (c, d')" "rows_inv (dm_store d')"
    "dag fuel (dm_store d') c = Some (Inr (cs, sz))" "daemon_cat fuel d' c = Some (Inr (rnd len))" "split_at (CHR ''/'') c = [c]"
proof -
  let ?bs = "rnd len" and ?s = "dm_store d"
  let ?n = "snd (file_dag (Some ?bs))" and ?s' = "put_all ?s (fst (file_dag (Some ?bs)))"
  have op: "st_open ?s" "rows_inv ?s" using assms(2) by (simp_all add: sound_def)
  have ne: "?bs \<noteq> []" using assms(3,4) by auto
  have "no_collision (fst (file_dag (Some ?bs)))" using assms(6) no_collision_or by blast
  then have h: "\<forall>n \<in> set (fst (file_dag (Some ?bs))). holds ?s' n"
    using put_all_holds [OF op(1)] honest_file by blast
  note R = file_dag_reads [OF h]
  have held: "holds ?s' ?n" "genuine ?n" using R h by blast+
  then have get: "store_get ?s' (node_cid ?n) = Inr (mn_block ?n)" "parse_block (mn_block ?n) = Inr ?n"
    by (simp_all add: holds_def genuine_def)
  obtain f where f: "read_bytes f ?s' ?n = Some (Inr ?bs)" using R by (auto simp: reads_def)
  obtain cs sz where dag: "dag f ?s' (node_cid ?n) = Some (Inr (cs, sz))" using read_dag(1) [OF f get] by blast
  obtain y where cid: "node_cid ?n = cid_of y" using held(2) by (auto simp: genuine_def)
  have path: "resolve_path ?s' (node_cid ?n) = Inr ?n"
    using resolve_held(1) [OF held(2,1)] resolve_path_text [of "[]" ?s' y] cid by (simp add: path_text_def)
  have inv: "rows_inv ?s'" using put_all_rows [OF op] file_nodes_small by blast
  let ?d = "d\<lparr>dm_store := ?s'\<rparr>"
  have valid: "\<forall>x \<in> set cs. \<exists>y. x = cid_of y" using dag_cids_valid(1) [OF dag inv] by blast
  obtain ks where ks: "put_keys (dc_client (dm_config d)) w 0 cs = Some (None, ks)"
    using put_keys_ok [OF assms(5) valid] by blast
  show thesis
  proof (rule that)
    show "ctl_publish f rnd w len a d = Some (node_cid ?n, ?d)"
      using new_file_ok [where rnd = rnd, OF assms(3,4)] add_bytes_spec [OF op(1), of "Some ?bs"] ne assms(1) path dag ks
      by (simp add: ctl_publish_def api_add_bytes_def rpc_call_def gob_bytes_def daemon_add_bytes_def api_upload_def daemon_upload_def)
    show "dag f (dm_store ?d) (node_cid ?n) = Some (Inr (cs, sz))" using dag by simp
    show "daemon_cat f ?d (node_cid ?n) = Some (Inr ?bs)" using path f by (simp add: daemon_cat_def)
    show "split_at (CHR ''/'') (node_cid ?n) = [node_cid ?n]"
      using split_path [of "node_cid ?n" "[]"] no_slash_cid cid by (simp add: path_text_def)
  qed (use inv in simp)
qed

lemma parse_routing_json:
  assumes "valid_utf8 (rc_uploader ctl)" "valid_utf8 (rc_downloader ctl)" "valid_utf8 (rc_midstream ctl)" "rc_filesize ctl \<le> uint_max"
  shows "parse_routing (marshal (routing_json ctl)) = Some ctl"
proof -
  have names: "valid_utf8 s" if "s \<in> set [''uploader-ip'', ''downloader-ip'', ''midstream-ip'', ''filesize'']" for s
    using that by (auto intro!: valid_utf8_ascii)
  have p: "printable 1 (routing_json ctl)" using assms names by (simp add: routing_json_def)
  have f: "fold_name ''uploader-ip'' = ''UPLOADER-IP''" "fold_name ''downloader-ip'' = ''DOWNLOADER-IP''"
    "fold_name ''midstream-ip'' = ''MIDSTREAM-IP''" "fold_name ''filesize'' = ''FILESIZE''"
    by (simp_all add: fold_name.simps within_def char_of_def bit_iff_odd)
  have "parse_routing (marshal (routing_json ctl)) = decode_struct set_routing_field
      \<lparr>rc_uploader = '''', rc_downloader = '''', rc_midstream = '''', rc_filesize = 0\<rparr> (routing_json ctl)"
    unfolding parse_routing_def by (rule unmarshal_marshal_json [OF p]) (simp add: max_depth_def)
  also have "\<dots> = Some ctl"
    using assms(4) f by (simp add: routing_json_def set_routing_field_def is_field_def decode_string_def)
  finally show ?thesis .
qed

subsection \<open>Properties\<close>

text \<open>
  C6: the routing task, end to end. If the daemons can be reached and the network does its part, the
  controller publishes the file at the first daemon, the second downloads it from there, the third
  from one of the two, and no step panics; then the third daemon reads the file as the first got it.
  Only different contents with one SHA-256 digest, within the file or between two of the stores, can
  make it otherwise.
\<close>

theorem routing_transfers:
  assumes "valid_utf8 (rc_uploader ctl)" and "valid_utf8 (rc_downloader ctl)" and "valid_utf8 (rc_midstream ctl)"
    and "0 < rc_filesize ctl" and "rc_filesize ctl \<le> uint_max" and "length (rnd (rc_filesize ctl)) = rc_filesize ctl"
    and "new_api (dials (rc_uploader ctl)) = Some a" and "new_api (dials (rc_downloader ctl)) = Some b"
    and "new_api (dials (rc_midstream ctl)) = Some m" and "api_open a" and "api_open b" and "api_open m"
    and "sound up" and "sound mid" and "sound down"
    and "\<forall>i k. client_put_key (dc_client (dm_config up)) (wb_pick w i) (wb_put w i) k = Some None"
    and "\<forall>fuel c up'. ctl_publish fuel rnd w (rc_filesize ctl) a up = Some (c, up') \<longrightarrow>
      honest_fetch up' mid c (fetch 0 mid c) \<and>
      (\<forall>mid'. ctl_download m (fetch 0 mid c) = Some mid' \<longrightarrow>
        honest_fetch up' down c (fetch 1 down c) \<or> honest_fetch mid' down c (fetch 1 down c))"
  shows "collides (fst (file_dag (Some (rnd (rc_filesize ctl))))) \<or>
    (\<exists>fuel c up' mid'. ctl_publish fuel rnd w (rc_filesize ctl) a up = Some (c, up') \<and>
       ctl_download m (fetch 0 mid c) = Some mid' \<and>
       (stores_clash up' mid' \<or>
        (\<exists>down'. ctl_routing fuel rnd w dials fetch (marshal (routing_json ctl)) up mid down = Some (c, up', mid', down') \<and>
           (stores_clash up' down' \<or> stores_clash mid' down' \<or>
            daemon_cat fuel down' c = Some (Inr (rnd (rc_filesize ctl)))))))"
proof (cases "collides (fst (file_dag (Some (rnd (rc_filesize ctl)))))")
  case False
  obtain fuel c up' cs sz where pub: "ctl_publish fuel rnd w (rc_filesize ctl) a up = Some (c, up')" "rows_inv (dm_store up')"
    "dag fuel (dm_store up') c = Some (Inr (cs, sz))" "daemon_cat fuel up' c = Some (Inr (rnd (rc_filesize ctl)))"
    "split_at (CHR ''/'') c = [c]"
    using publish_ok [where rnd = rnd, OF assms(10,13,4,6) _ False] assms(16) by blast
  have "honest_fetch up' mid c (fetch 0 mid c)" using assms(17) pub(1) by blast
  from honest_download [OF this assms(12,14) pub(2,3)]
  obtain mid' where mid': "ctl_download m (fetch 0 mid c) = Some mid'" "rows_inv (dm_store mid')"
    "stores_clash up' mid' \<or> (\<forall>x \<in> set cs. store_get (dm_store mid') x = store_get (dm_store up') x)" by blast
  show ?thesis
  proof (cases "stores_clash up' mid'")
    case True
    then show ?thesis using pub(1) mid'(1) by blast
  next
    case no: False
    then have same: "\<forall>x \<in> set cs. store_get (dm_store mid') x = store_get (dm_store up') x" using mid'(3) by blast
    have down: "\<exists>down'. ctl_download b (fetch 1 down c) = Some down' \<and>
        (stores_clash X down' \<or> (\<forall>x \<in> set cs. store_get (dm_store down') x = store_get (dm_store X) x))"
      if X: "X = up' \<or> X = mid'" and fetched: "honest_fetch X down c (fetch 1 down c)" for X
    proof -
      have "rows_inv (dm_store X)" "dag fuel (dm_store X) c = Some (Inr (cs, sz))"
        using X pub(2,3) mid'(2) dag_agrees(1) [OF pub(3) same] by auto
      from honest_download [OF fetched assms(11,15) this] show ?thesis by metis
    qed
    have "honest_fetch up' down c (fetch 1 down c) \<or> honest_fetch mid' down c (fetch 1 down c)"
      using assms(17) pub(1) mid'(1) by blast
    then obtain down' where down': "ctl_download b (fetch 1 down c) = Some down'"
      "stores_clash up' down' \<or> stores_clash mid' down' \<or> (\<forall>x \<in> set cs. store_get (dm_store down') x = store_get (dm_store up') x)"
      using down same by (elim disjE) (metis, metis)
    have "ctl_routing fuel rnd w dials fetch (marshal (routing_json ctl)) up mid down = Some (c, up', mid', down')"
      using parse_routing_json [OF assms(1-3,5)] assms(7-9) pub(1) mid'(1) down'(1) by (simp add: ctl_routing_def)
    moreover have "stores_clash up' down' \<or> stores_clash mid' down' \<or> daemon_cat fuel down' c = Some (Inr (rnd (rc_filesize ctl)))"
      using down'(2) cat_agrees [OF pub(3), of down' c "[]" fuel] pub(4,5) by auto
    ultimately show ?thesis using pub(1) mid'(1) by blast
  qed
qed simp

subsection \<open>A task\<close>

lemma sample_publish:
  assumes "ctl_publish fuel (\<lambda>_. [9]) sample_web 1 a sample_daemon = Some (c, d')" and "api_open a"
  shows "c = node_cid sample_node_block \<and> d' = sample_publisher"
proof -
  have small: "length [9 :: u8] \<le> chunk_size" by (simp add: chunk_size_def)
  have "add_bytes (dm_store sample_daemon) (Some [9]) = (Inr sample_node_block, put_all (dm_store sample_daemon) [sample_node_block])"
    using add_bytes_spec [OF sample_daemon_ok(1), of "Some [9]"] file_dag_small [OF small]
    by (simp add: sample_node_block_def)
  then show ?thesis
    using assms by (auto simp: ctl_publish_def new_file_def api_add_bytes_def gob_bytes_def rpc_call_def daemon_add_bytes_def
        sample_publisher_def sample_source_def sample_daemon_def split: option.splits prod.splits)
qed

theorem routing_transfers_witness:
  "\<exists>fuel ctl dials fetch c up' mid'. ctl_publish fuel (\<lambda>_. [9]) sample_web 1 \<lparr>api_port = 4000, api_open = True\<rparr> sample_daemon = Some (c, up') \<and>
     ctl_download \<lparr>api_port = 4000, api_open = True\<rparr> (fetch 0 sample_daemon c) = Some mid' \<and>
     (stores_clash up' mid' \<or>
      (\<exists>down'. ctl_routing fuel (\<lambda>_. [9]) sample_web dials fetch (marshal (routing_json ctl)) sample_daemon sample_daemon sample_daemon =
           Some (c, up', mid', down') \<and>
         (stores_clash up' down' \<or> stores_clash mid' down' \<or> daemon_cat fuel down' c = Some (Inr [9]))))"
proof -
  let ?a = "\<lparr>api_port = 4000, api_open = True\<rparr>" and ?c = "node_cid sample_node_block"
  let ?ctl = "\<lparr>rc_uploader = ''1'', rc_downloader = ''2'', rc_midstream = ''3'', rc_filesize = 1\<rparr>"
  let ?rnd = "\<lambda>_ :: nat. [9 :: u8]" and ?dials = "\<lambda>(_ :: string) (_ :: nat). (Inr ?a :: error + api)"
  obtain s0 s where s: "go_start sample_daemon ?c sample_web = Inr s0"
    "go_reachable (honest_web sample_publisher (dm_config sample_daemon)) sem_size s0 8 s" "go_running s = []"
    "\<forall>k. parse_cid ?c = Inr k \<longrightarrow> honest_web sample_publisher (dm_config sample_daemon) k sample_web"
    using sample_go_run [of "honest_web sample_publisher (dm_config sample_daemon)", OF sample_honest] by blast
  let ?fetch = "\<lambda>(_ :: nat) (_ :: daemon) (_ :: cid). (Inr s :: error + go_state)"
  have fetched: "honest_fetch sample_publisher sample_daemon ?c (Inr s)" unfolding honest_fetch_def using s by blast
  have utf: "valid_utf8 ''1''" "valid_utf8 ''2''" "valid_utf8 ''3''" by (auto intro!: valid_utf8_ascii)
  have sound: "sound sample_daemon" using sample_daemon_ok(1,4) by (simp add: sound_def)
  have puts: "\<forall>i k. client_put_key (dc_client (dm_config sample_daemon)) (wb_pick sample_web i) (wb_put sample_web i) k = Some None"
    using sample_daemon_ok(2) by (simp add: client_put_key_def node_url_def check_status_def sample_web_def one_peer_def)
  have "\<forall>fuel c up'. ctl_publish fuel ?rnd sample_web 1 ?a sample_daemon = Some (c, up') \<longrightarrow>
      honest_fetch up' sample_daemon c (Inr s) \<and>
      (\<forall>mid'. ctl_download ?a (Inr s) = Some mid' \<longrightarrow>
        honest_fetch up' sample_daemon c (Inr s) \<or> honest_fetch mid' sample_daemon c (Inr s))"
    using sample_publish fetched by fastforce
  moreover have "new_api (?dials ip) = Some ?a" for ip by (simp add: new_api_def)
  moreover have "\<not> collides (fst (file_dag (Some [9])))"
    using file_dag_small [of "[9]"] by (simp add: collides_def chunk_size_def)
  ultimately have "\<exists>fuel c up' mid'. ctl_publish fuel ?rnd sample_web 1 ?a sample_daemon = Some (c, up') \<and>
     ctl_download ?a (Inr s) = Some mid' \<and>
     (stores_clash up' mid' \<or>
      (\<exists>down'. ctl_routing fuel ?rnd sample_web ?dials ?fetch (marshal (routing_json ?ctl)) sample_daemon sample_daemon sample_daemon =
           Some (c, up', mid', down') \<and>
         (stores_clash up' down' \<or> stores_clash mid' down' \<or> daemon_cat fuel down' c = Some (Inr [9]))))"
    using routing_transfers [of ?ctl ?rnd ?dials ?a ?a ?a sample_daemon sample_daemon sample_daemon sample_web ?fetch] utf sound puts
    by (simp add: uint_max_def)
  then obtain fuel c up' mid' where "ctl_publish fuel ?rnd sample_web 1 ?a sample_daemon = Some (c, up') \<and>
     ctl_download ?a (Inr s) = Some mid' \<and>
     (stores_clash up' mid' \<or>
      (\<exists>down'. ctl_routing fuel ?rnd sample_web ?dials ?fetch (marshal (routing_json ?ctl)) sample_daemon sample_daemon sample_daemon =
           Some (c, up', mid', down') \<and>
         (stores_clash up' down' \<or> stores_clash mid' down' \<or> daemon_cat fuel down' c = Some (Inr [9]))))"
    by (elim exE)
  then show ?thesis
    by - (rule exI [of _ fuel], rule exI [of _ ?ctl], rule exI [of _ ?dials], rule exI [of _ ?fetch],
      rule exI [of _ c], rule exI [of _ up'], rule exI [of _ mid'], assumption)
qed

end
