(* ===== verification/Churn.thy ===== *)
theory Churn
  imports Complex_Main Lifecycle
begin

text \<open>
  The churn of a node (\<^verbatim>\<open>churnNode\<close> and \<^verbatim>\<open>sessionTimes\<close> in \<^verbatim>\<open>cmd/evaluate/inuctl/main.go\<close>): a goroutine that
  stops its node after a random time and starts a new one after another, until the context is
  cancelled, and the goroutine that sends the times.

  The times come over an unbuffered channel; \<^verbatim>\<open>select\<close> evaluates \<^verbatim>\<open>time.After(<-n.nextDuration)\<close> before it
  waits, so taking a time is a step of its own, in which cancelling is not noticed.
\<close>

datatype churn_pc =
    TakeTime bool      \<comment> \<open>before the receive of a time; whether the node counts as online\<close>
  | Select bool
  | MustStop
  | MakeNode
  | StartNode
  | Join               \<comment> \<open>in the loop that bootstraps the node\<close>
  | Ended

datatype node_phase = Made | Online | Stopped

record churn =
  cu_pc :: churn_pc
  cu_node :: node_phase
  cu_cancelled :: bool
  cu_times :: bool      \<comment> \<open>the goroutine of \<^verbatim>\<open>sessionTimes\<close> has not returned\<close>
  cu_panicked :: bool

text \<open>\<^verbatim>\<open>churnA\<close> begins with a node that runs, \<^verbatim>\<open>churnB\<close> with one that was only made.\<close>

definition churn_a :: churn where
  "churn_a = \<lparr>cu_pc = TakeTime True, cu_node = Online, cu_cancelled = False, cu_times = True, cu_panicked = False\<rparr>"

definition churn_b :: churn where
  "churn_b = \<lparr>cu_pc = TakeTime False, cu_node = Made, cu_cancelled = False, cu_times = True, cu_panicked = False\<rparr>"

text \<open>
  One step of the goroutine.  \<open>ok\<close> is whether the call it makes succeeds, or in \<^verbatim>\<open>select\<close> whether it
  takes the timer; where it can only wait, there is none.
\<close>

fun churn_at :: "bool \<Rightarrow> churn_pc \<Rightarrow> churn \<Rightarrow> churn option" where
  "churn_at ok (TakeTime b) s = (if cu_times s then Some (s\<lparr>cu_pc := Select b\<rparr>) else None)"
| "churn_at ok (Select b) s =
     (if ok then Some (s\<lparr>cu_pc := (if b then MustStop else MakeNode)\<rparr>)
      else if cu_cancelled s then Some (s\<lparr>cu_pc := Ended\<rparr>) else None)"
| "churn_at ok MustStop s =
     (if ok then Some (s\<lparr>cu_pc := TakeTime False, cu_node := (if cu_node s = Online then Stopped else cu_node s)\<rparr>)
      else Some (s\<lparr>cu_panicked := True\<rparr>))"
| "churn_at ok MakeNode s = Some (s\<lparr>cu_pc := StartNode, cu_node := Made\<rparr>)"
| "churn_at ok StartNode s =
     (if ok then Some (s\<lparr>cu_pc := Join, cu_node := Online\<rparr>)
      else if cu_cancelled s then Some (s\<lparr>cu_pc := TakeTime True\<rparr>)
      else Some (s\<lparr>cu_panicked := True\<rparr>))"
| "churn_at ok Join s = (if ok \<or> cu_cancelled s then Some (s\<lparr>cu_pc := TakeTime True\<rparr>) else Some s)"
| "churn_at ok Ended s = None"

inductive churn_step :: "churn \<Rightarrow> churn \<Rightarrow> bool" where
  Run: "\<lbrakk>\<not> cu_panicked s; churn_at ok (cu_pc s) s = Some s'\<rbrakk> \<Longrightarrow> churn_step s s'"
| Cancel: "\<not> cu_panicked s \<Longrightarrow> churn_step s (s\<lparr>cu_cancelled := True\<rparr>)"
| Times_End: "\<lbrakk>\<not> cu_panicked s; cu_cancelled s\<rbrakk> \<Longrightarrow> churn_step s (s\<lparr>cu_times := False\<rparr>)"

inductive_cases churn_stepE: "churn_step s s'"

text \<open>\<^verbatim>\<open>sessionTimes\<close>: times below one second are drawn again, and the fraction is cut off.\<close>

partial_function (option) draw_time :: "(nat \<Rightarrow> real) \<Rightarrow> nat \<Rightarrow> (int \<times> nat) option" where
  "draw_time draws i = (if draws i < 1 then draw_time draws (Suc i) else Some (\<lfloor>draws i\<rfloor> * 1000000000, Suc i))"

subsection \<open>Only new nodes are started\<close>

text \<open>
  A node that is to be started was just made; one that is to be stopped runs, or it could not be
  started and the context was cancelled meanwhile.
\<close>

definition churn_ok :: "churn \<Rightarrow> bool" where
  "churn_ok s \<longleftrightarrow>
     (case cu_pc s of
        StartNode \<Rightarrow> cu_node s = Made
      | Join \<Rightarrow> cu_node s = Online
      | TakeTime b \<Rightarrow> if b then cu_node s = Online \<or> cu_cancelled s \<and> cu_node s = Made else cu_node s \<noteq> Online
      | Select b \<Rightarrow> if b then cu_node s = Online \<or> cu_cancelled s \<and> cu_node s = Made else cu_node s \<noteq> Online
      | MustStop \<Rightarrow> cu_node s = Online \<or> cu_cancelled s \<and> cu_node s = Made
      | MakeNode \<Rightarrow> cu_node s \<noteq> Online
      | Ended \<Rightarrow> True)"

lemma churn_at_ok: "churn_ok s \<Longrightarrow> churn_at ok (cu_pc s) s = Some s' \<Longrightarrow> churn_ok s'"
  by (cases "cu_pc s") (auto simp: churn_ok_def split: if_splits)

interpretation churning: step_invariant churn_step churn_ok
proof
  fix s s' assume "churn_ok s" "churn_step s s'"
  from this(2,1) show "churn_ok s'"
    by cases (auto intro: churn_at_ok simp: churn_ok_def split: churn_pc.splits if_splits)
qed

text \<open>
  In every run of the goroutine each node is started at most once, when it is new, and every node
  that is replaced has been stopped or never ran.
\<close>

theorem churn_new_nodes:
  assumes "churn_step\<^sup>*\<^sup>* s0 s" and "s0 = churn_a \<or> s0 = churn_b"
  shows "(cu_pc s = StartNode \<longrightarrow> cu_node s = Made) \<and> (cu_pc s = MakeNode \<longrightarrow> cu_node s \<noteq> Online) \<and>
    (cu_pc s = MustStop \<longrightarrow> cu_node s = Online \<or> cu_cancelled s)"
proof -
  have "churn_ok s0" using assms(2) by (auto simp: churn_ok_def churn_a_def churn_b_def)
  from churning.run_keeps [OF assms(1) this] show ?thesis by (auto simp: churn_ok_def)
qed

text \<open>
  A goroutine that goes for a time after the context is cancelled and \<^verbatim>\<open>sessionTimes\<close> has returned waits
  for ever; it does not see that the context is done.  This can happen to every node.
\<close>

lemma churn_waits:
  assumes "churn_step\<^sup>*\<^sup>* s s'" and "cu_pc s = TakeTime b" and "\<not> cu_times s"
  shows "cu_pc s' = TakeTime b"
proof -
  have "cu_pc s' = TakeTime b \<and> \<not> cu_times s'"
    using assms by (induction rule: rtranclp_induct) (auto elim!: churn_stepE)
  then show ?thesis ..
qed

theorem churn_never_ends:
  "\<exists>s. churn_step\<^sup>*\<^sup>* churn_a s \<and> \<not> cu_panicked s \<and> cu_cancelled s \<and> (\<forall>s'. churn_step\<^sup>*\<^sup>* s s' \<longrightarrow> cu_pc s' \<noteq> Ended)"
proof -
  let ?s1 = "churn_a\<lparr>cu_cancelled := True\<rparr>" and ?s2 = "churn_a\<lparr>cu_cancelled := True, cu_times := False\<rparr>"
  have "churn_step churn_a ?s1" by (rule churn_step.Cancel) (simp add: churn_a_def)
  moreover have "churn_step ?s1 (?s1\<lparr>cu_times := False\<rparr>)" by (rule churn_step.Times_End) (simp_all add: churn_a_def)
  ultimately have "churn_step\<^sup>*\<^sup>* churn_a ?s2" by (simp add: converse_rtranclp_into_rtranclp r_into_rtranclp)
  moreover have "cu_pc s' \<noteq> Ended" if "churn_step\<^sup>*\<^sup>* ?s2 s'" for s'
    using churn_waits [OF that, of True] by (simp add: churn_a_def)
  ultimately show ?thesis by (intro exI [of _ ?s2]) (simp add: churn_a_def)
qed

end
