(* ===== verification/Spec2Isabelle.thy ===== *)
theory Spec2Isabelle
  imports Key Asn Peer_Store Routing_Table Shortlist Lookup Go_Sort Decimal Node Node_Correct Network
    Base64 Json Cid Store Typed_Json Merkle Fs Fs_Correct Client Router Client_Correct Daemon Download Daemon_Correct Goroutines Concurrency
    Daemon_Life Lifecycle Cli Api Evaluate Control Churn
begin

text \<open>
  A verification library for \<^verbatim>\<open>inu\<close>, a peer-to-peer file system.  Files are cut into blocks, the
  blocks are the nodes of a Merkle DAG that is addressed by content, and a Kademlia network tells
  which peers have which block; among the peers it prefers those of the autonomous system of the
  one who asks.

  \<^bold>\<open>The program and its theories\<close>

  \<^item> \<^bold>\<open>The network\<close> (\<^verbatim>\<open>src/dht\<close>).  \<^verbatim>\<open>Key\<close>: identifiers of 256 bits, \<^verbatim>\<open>xor\<close>, \<^verbatim>\<open>cmp\<close> and their text
    (\<^verbatim>\<open>key.go\<close>), over the base32 codec of \<^verbatim>\<open>Base32\<close>.  \<^verbatim>\<open>Asn\<close>: the trie of IPv4 prefixes (\<^verbatim>\<open>asn.go\<close>).
    \<^verbatim>\<open>Peer_Store\<close>: the peers published for a key, with expiry (\<^verbatim>\<open>peer_store.go\<close>).  \<^verbatim>\<open>Routing_Table\<close>:
    buckets with a linked list and a map, their split and \<^verbatim>\<open>FindClosestNodes\<close> (\<^verbatim>\<open>routing_table.go\<close>).
    \<^verbatim>\<open>Shortlist\<close> and \<^verbatim>\<open>Lookup\<close>: the shortlist and the iterative lookup (\<^verbatim>\<open>node.go\<close>), the latter as a
    step relation of the calls that its goroutines make.  \<^verbatim>\<open>Node\<close>: configuration, state and every
    operation and handler of a node (\<^verbatim>\<open>node.go\<close>); an operation that needs a lookup runs it on the
    events of its environment, and a handler (\<open>serve_begin\<close>, \<open>serve_end\<close>) is suspended in between,
    while other goroutines may change the node (\<open>ev_meanwhile\<close>).  \<^verbatim>\<open>Go_Sort\<close> is the stable sort it
    orders peers with, \<^verbatim>\<open>Decimal\<close> the decimal numbers of addresses.  \<^verbatim>\<open>Node_Correct\<close> holds their
    properties.  \<^verbatim>\<open>Network\<close>: many nodes that call each other, with lookups under way and handlers that
    wait for theirs.  \<^verbatim>\<open>Lifecycle\<close>: \<^verbatim>\<open>Start\<close> and \<^verbatim>\<open>Stop\<close> of a node against its periodic goroutines and
    the goroutine of its server, as a step relation over mutexes and channels.
  \<^item> \<^bold>\<open>Blocks and files\<close> (\<^verbatim>\<open>src/cid\<close>, \<^verbatim>\<open>src/store\<close>, \<^verbatim>\<open>src/merkle\<close>, \<^verbatim>\<open>src/fs\<close>).  \<^verbatim>\<open>Cid\<close>: identifiers as SHA-256
    digests, the hash function written out.  \<^verbatim>\<open>Store\<close>: the table of blocks.  \<^verbatim>\<open>Merkle\<close>: Merkle nodes and
    inodes as JSON, over \<^verbatim>\<open>Base64\<close>, \<^verbatim>\<open>Json\<close> (UTF-8, string escapes, the parser and printer of
    \<^verbatim>\<open>encoding/json\<close>) and \<^verbatim>\<open>Typed_Json\<close> (how values are decoded into Go types).  \<^verbatim>\<open>Fs\<close>: adding bytes and
    paths, resolving, reading and listing a DAG (\<^verbatim>\<open>fs.go\<close>); \<^verbatim>\<open>Fs_Correct\<close> its properties.
  \<^item> \<^bold>\<open>The peer\<close> (\<^verbatim>\<open>src/daemon.go\<close>, \<^verbatim>\<open>src/dht/client.go\<close>, \<^verbatim>\<open>src/dht/rpc.go\<close>).  \<^verbatim>\<open>Client\<close>: the RPCs between nodes
    and the public client, encoded and decoded as JSON; \<^verbatim>\<open>Router\<close>: a request on its way, by its URL to
    the node at the address and by its method and path to the handler (\<^verbatim>\<open>router\<close> in \<^verbatim>\<open>node.go\<close>);
    \<^verbatim>\<open>Client_Correct\<close> composes clients, router and handlers.  \<^verbatim>\<open>Daemon\<close>: the operations of the daemon, a download as atomic steps; \<^verbatim>\<open>Download\<close> and
    \<^verbatim>\<open>Daemon_Correct\<close> their properties.  \<^verbatim>\<open>Goroutines\<close>: the goroutines of a download with the semaphore of
    5000 places, interleaved between any two accesses to shared state; \<^verbatim>\<open>Concurrency\<close> shows that they
    refine the atomic steps.  \<^verbatim>\<open>Daemon_Life\<close>: its listeners and the order in which \<^verbatim>\<open>Stop\<close> closes them.
  \<^item> \<^bold>\<open>The commands\<close> (\<^verbatim>\<open>src/api.go\<close>, \<^verbatim>\<open>src/cmd\<close>).  \<^verbatim>\<open>Api\<close>: the stubs of the remote procedures, what the
    connection makes of errors and empty results, and the peer commands with what they print
    (\<^verbatim>\<open>cmd/inu/peer.go\<close>).  \<^verbatim>\<open>Cli\<close>: flags, environment and configuration files.  \<^verbatim>\<open>Evaluate\<close>: the
    allocators of the evaluation.  \<^verbatim>\<open>Control\<close>: the helpers of its controller and the tasks that
    measure lookups and the speed of downloads; \<^verbatim>\<open>Churn\<close>: the goroutine that takes a node off and on
    (\<^verbatim>\<open>cmd/evaluate\<close>).

  \<^bold>\<open>How code becomes definitions\<close>

  A struct is a record, an operation a function from the old state to the result and the new state.
  The clock, random draws, map iteration orders, replies of the network and the kernel's answers are
  arguments, so a theorem holds for all of them.  What a lookup meets is the list of events of
  \<open>ev_events\<close>; a list that does not bring it to an end, like a panic, makes the operation \<^verbatim>\<open>None\<close>, and
  the theorems that an operation returns assume that the lookup ends or are about its steps.  Of
  \<open>ev_meanwhile\<close> the theorems assume what every goroutine of the program keeps (\<open>env_ok\<close>): the
  invariant, the configuration and the node's contact.  An error is a value of \<^verbatim>\<open>error\<close> in a sum; a panic is
  \<^verbatim>\<open>None\<close>; running out of fuel, or not returning, is an outer \<^verbatim>\<open>None\<close>.  Integers that can wrap are
  words; \<^verbatim>\<open>int\<close> values that cannot reach their bound (lengths, counters) are naturals.  An operation
  under a mutex is one step; where goroutines interleave, the states are those of an inductive
  step relation, and every order of the steps is a run.

  Fuel is used where the recursion is not structural and data come from outside: \<^verbatim>\<open>dag\<close> and
  \<^verbatim>\<open>read_bytes\<close> follow links of a store, which may be cyclic if SHA-256 has collisions; the theorems
  on files give the fuel that is enough, and \<^verbatim>\<open>dag\<close> with enough fuel is what reading uses.  The parser
  of JSON has the length of its input as fuel, which is proved enough.  A lookup has no fuel: its
  steps decrease a measure as long as answers bring finitely many contacts.

  \<^bold>\<open>What is shown\<close>

  \<^item> Data structures: the routing table keeps its buckets sorted, disjoint and covering, a bucket
    evicts the least recently seen contact, the closest contacts are those of a reference
    definition; the shortlist is an insertion into a sorted list without duplicates; the trie finds
    the longest prefix.
  \<^item> Lookups: each returns after finitely many steps, with the closest nodes that answered, in one
    node and in a network in which all steps interleave; with an adversary who invents contacts it
    need not return.
  \<^item> Handlers: no write without authorisation, no RPC without the swarm key, what a handler
    answers is what the data structures hold, and requests keep the node's invariant; with an alpha
    below 1 a lookup panics, and the handler with it.  A client's request reaches, by its URL, the
    handler and the key it means.
  \<^item> Codecs: base32, base64, UTF-8, JSON and the types over it read back what was written.
  \<^item> Files: bytes and trees that are added are read back; reading needs the blocks that the DAG
    lists and no other.
  \<^item> Daemons: whatever peers send, the store keeps its invariant; honest peers transfer a DAG
    completely; uploads announce what is needed.  Every interleaving of a download's goroutines
    ends in at most ten steps for each path of the DAG that is explored, never has more goroutines
    past the semaphore than it has places, and leaves the state some order of atomic steps leaves.
  \<^item> Commands: adding a path over the API prints what listing it prints; a routing task that its
    configuration admits, run among honest peers, ends with the file at the node that is measured.
  \<^item> Life cycles: \<^verbatim>\<open>Stop\<close> returns, no goroutine of a node that is started once uses a closed channel,
    a second \<^verbatim>\<open>Start\<close> panics; a shutdown can be reported while the listener is still open, if \<^verbatim>\<open>Stop\<close>
    comes before the goroutine of the server, which closes it then.  A churned node starts each node once, when it is new; its goroutine can wait
    for ever for a time that nobody sends any more.

  The interfaces between components are locales, each interpreted on the code's model in the theory
  that provides it: codecs and step relations with an invariant and a measure (\<^verbatim>\<open>Inu_Prelude\<close>), the
  distance of keys (\<^verbatim>\<open>Key\<close>), the index of prefixes (\<^verbatim>\<open>Asn\<close>), the table of peers (\<^verbatim>\<open>Peer_Store\<close>), the
  index of the closest contacts (\<^verbatim>\<open>Routing_Table\<close>) and the store of blocks (\<^verbatim>\<open>Store\<close>).

  \<^bold>\<open>What is not modelled\<close>

  \<^item> TLS and certificates (\<^verbatim>\<open>cert.go\<close>), the HTTP server and its transport, the logger: the program only
    configures library code there.  A request is modelled from its URL, header and decoded body
    on; addresses are those that URLs take as they are (\<open>plain_address\<close>).
  \<^item> The semaphore of a download is its own here: the daemon has one for all its downloads, so that
    another download may hold some of the places.
  \<^item> A time is an integer; the location and the monotonic reading of Go's times, which are part of the
    key under which the peer store keeps a peer, are left out.
  \<^item> The database: \<^verbatim>\<open>Store\<close> has the table that the SQL statements of \<^verbatim>\<open>store.go\<close> describe.  Locks of the
    database and disk errors are left out.
  \<^item> Bodies that peers send with times in RFC 3339 are a decoded value.
  \<^item> The virtual networks and packet captures of the evaluation, which are calls of an external
    library and of the kernel, the set-up and counting around a churn run, and the wiring of the
    commands: \<^verbatim>\<open>cobra\<close>, signals and the log of requests.
\<close>

end
